(* ===== verification/Prelude.thy ===== *)
theory Prelude
  imports Main "HOL-Library.Word"
begin

text \<open>
  What every component of the bayos kernel model shares: the machine integers of the Rust
  sources, the values a call may end in (a result, a panic, no return at all), Rust's
  overflow-checked arithmetic, and the facts on words, lists and intervals that the component
  theories use through the simpset or through the collections \<open>panic_simps\<close> (unfolding of the
  error monad) and \<open>word_nat\<close> (reading word arithmetic over the natural numbers).
\<close>

unbundle bit_operations_syntax

named_theorems panic_simps
named_theorems word_nat

section \<open>Machine integers\<close>

type_synonym u8 = "8 word"
type_synonym u16 = "16 word"
type_synonym u32 = "32 word"
type_synonym u64 = "64 word"
type_synonym usize = "64 word"

section \<open>Ways a call can end\<close>

text \<open>
  A Rust call returns a value or panics; the kernel's panic handler stops the machine, so a panic
  carries no state. A call that spins for ever is the value \<^term>\<open>None\<close> of the type \<open>'a run\<close>.
  \<open>Undefined\<close> marks an access outside what the store holds, which is undefined behaviour in
  Rust: the theorems show that it is not reached.
\<close>

datatype panic =
    ArithOverflow
  | AssertFailed
  | IndexOutOfBounds
  | UnwrapFailed
  | Expect string
  | PanicMsg string
  | NotImplemented
  | ExternalPanic
  | Undefined

type_synonym 'a res = "panic + 'a"
type_synonym 'a run = "(panic + 'a) option"

definition rbind :: "'e + 'a \<Rightarrow> ('a \<Rightarrow> 'e + 'b) \<Rightarrow> 'e + 'b" where
  "rbind m f = (case m of Inl e \<Rightarrow> Inl e | Inr x \<Rightarrow> f x)"

definition runbind :: "'a run \<Rightarrow> ('a \<Rightarrow> 'b run) \<Rightarrow> 'b run" where
  "runbind m f = (case m of None \<Rightarrow> None | Some (Inl e) \<Rightarrow> Some (Inl e) | Some (Inr x) \<Rightarrow> f x)"

definition rassert :: "bool \<Rightarrow> unit res" where
  "rassert b = (if b then Inr () else Inl AssertFailed)"

definition runwrap :: "panic \<Rightarrow> 'a option \<Rightarrow> 'a res" where
  "runwrap e x = (case x of None \<Rightarrow> Inl e | Some v \<Rightarrow> Inr v)"

definition rindex :: "'a list \<Rightarrow> nat \<Rightarrow> 'a res" where
  "rindex xs i = (if i < length xs then Inr (xs ! i) else Inl IndexOutOfBounds)"

lemma rbind_simps [simp, panic_simps]:
  "rbind (Inl e) f = Inl e"
  "rbind (Inr x) f = f x"
  by (simp_all add: rbind_def)

lemma runbind_simps [simp, panic_simps]:
  "runbind None f = None"
  "runbind (Some (Inl e)) f = Some (Inl e)"
  "runbind (Some (Inr x)) g = g x"
  by (simp_all add: runbind_def)

lemma rassert_simps [simp, panic_simps]:
  "rassert True = Inr ()"
  "rassert False = Inl AssertFailed"
  by (simp_all add: rassert_def)

lemma runwrap_simps [simp, panic_simps]:
  "runwrap e None = Inl e"
  "runwrap e (Some v) = Inr v"
  by (simp_all add: runwrap_def)

lemma rindex_simps [simp]:
  "i < length xs \<Longrightarrow> rindex xs i = Inr (xs ! i)"
  "length xs \<le> i \<Longrightarrow> rindex xs i = Inl IndexOutOfBounds"
  by (simp_all add: rindex_def)

lemma rbind_eq_Inr [panic_simps]:
  "rbind m f = Inr y \<longleftrightarrow> (\<exists>x. m = Inr x \<and> f x = Inr y)"
  by (cases m) auto

lemma rbind_eq_Inl [panic_simps]:
  "rbind m f = Inl e \<longleftrightarrow> m = Inl e \<or> (\<exists>x. m = Inr x \<and> f x = Inl e)"
  by (cases m) auto

lemma runbind_eq_Ret [panic_simps]:
  "runbind m f = Some (Inr y) \<longleftrightarrow> (\<exists>x. m = Some (Inr x) \<and> f x = Some (Inr y))"
  by (auto simp: runbind_def split: option.splits sum.splits)

lemma rbind_assoc: "rbind (rbind m f) g = rbind m (\<lambda>x. rbind (f x) g)"
  by (cases m) auto

lemma runbind_assoc: "runbind (runbind m f) g = runbind m (\<lambda>x. runbind (f x) g)"
  by (simp add: runbind_def split: option.split sum.split)

lemma rbind_cong [fundef_cong]:
  "m = m' \<Longrightarrow> (\<And>x. m' = Inr x \<Longrightarrow> f x = g x) \<Longrightarrow> rbind m f = rbind m' g"
  by (cases m') auto

section \<open>Overflow-checked arithmetic\<close>

text \<open>
  The kernel's dev profile compiles \<open>+\<close>, \<open>-\<close> and \<open>*\<close> with overflow checks: an operation whose
  exact result does not fit panics. A theorem that a function returns a value (no panic) is
  therefore also a theorem about the release profile, where the same operations wrap around.
\<close>

definition add_chk :: "'a::len word \<Rightarrow> 'a word \<Rightarrow> 'a word res" where
  "add_chk a b = (if unat a + unat b < 2 ^ LENGTH('a) then Inr (a + b) else Inl ArithOverflow)"

definition sub_chk :: "'a::len word \<Rightarrow> 'a word \<Rightarrow> 'a word res" where
  "sub_chk a b = (if b \<le> a then Inr (a - b) else Inl ArithOverflow)"

definition mul_chk :: "'a::len word \<Rightarrow> 'a word \<Rightarrow> 'a word res" where
  "mul_chk a b = (if unat a * unat b < 2 ^ LENGTH('a) then Inr (a * b) else Inl ArithOverflow)"

definition checked_add :: "'a::len word \<Rightarrow> 'a word \<Rightarrow> 'a word option" where
  "checked_add a b = (if unat a + unat b < 2 ^ LENGTH('a) then Some (a + b) else None)"

lemma unat_add_noovf [word_nat]:
  "unat a + unat b < 2 ^ LENGTH('a) \<Longrightarrow> unat (a + b :: 'a::len word) = unat a + unat b"
  by (simp add: unat_add_lem)

lemma unat_sub_le [word_nat]: "b \<le> a \<Longrightarrow> unat (a - b :: 'a::len word) = unat a - unat b"
  by (rule unat_sub)

lemma unat_mul_noovf [word_nat]:
  "unat a * unat b < 2 ^ LENGTH('a) \<Longrightarrow> unat (a * b :: 'a::len word) = unat a * unat b"
  by (simp add: unat_mult_lem)

lemma add_chk_Inr:
  "add_chk a b = Inr c \<longleftrightarrow> unat a + unat b < 2 ^ LENGTH('a) \<and> c = (a + b :: 'a::len word)"
  by (auto simp: add_chk_def)

lemma sub_chk_Inr: "sub_chk a b = Inr c \<longleftrightarrow> b \<le> a \<and> c = (a - b :: 'a::len word)"
  by (auto simp: sub_chk_def)

lemma mul_chk_Inr:
  "mul_chk a b = Inr c \<longleftrightarrow> unat a * unat b < 2 ^ LENGTH('a) \<and> c = (a * b :: 'a::len word)"
  by (auto simp: mul_chk_def)

lemma checked_add_Some:
  "checked_add a b = Some c \<longleftrightarrow> unat a + unat b < 2 ^ LENGTH('a) \<and> c = (a + b :: 'a::len word)"
  by (auto simp: checked_add_def)

lemmas chk_Inr = add_chk_Inr sub_chk_Inr mul_chk_Inr checked_add_Some

lemma unat_lt_64 [simp]: "unat (a :: 64 word) < 18446744073709551616"
  using unsigned_less [of a] by simp

lemma add_chk_ok:
  "unat a + unat b < 2 ^ LENGTH('a) \<Longrightarrow> add_chk a b = Inr (a + b :: 'a::len word)"
  by (simp add: add_chk_def)

lemma sub_chk_ok: "unat b \<le> unat a \<Longrightarrow> sub_chk a b = Inr (a - b :: 'a::len word)"
  by (simp add: sub_chk_def word_le_nat_alt)

lemma mul_chk_ok:
  "unat a * unat b < 2 ^ LENGTH('a) \<Longrightarrow> mul_chk a b = Inr (a * b :: 'a::len word)"
  by (simp add: mul_chk_def)

section \<open>Alignment\<close>

text \<open>Clearing the bits below a power of two rounds a word down to a multiple of it.\<close>

lemma unat_pow2_word: "k < LENGTH('a) \<Longrightarrow> unat (2 ^ k :: 'a::len word) = 2 ^ k"
proof -
  assume k: "k < LENGTH('a)"
  have "unat (of_nat (2 ^ k) :: 'a word) = take_bit LENGTH('a) (2 ^ k)"
    by (simp only: unsigned_of_nat of_nat_id)
  also have "\<dots> = 2 ^ k" using k by (simp add: take_bit_nat_eq_self)
  finally show ?thesis by simp
qed

lemma and_not_mask_add: "(x AND NOT (mask k)) + take_bit k x = (x :: 'a::len word)"
proof -
  have "(x AND NOT (mask k)) + (x AND mask k)
      = (x AND NOT (mask k)) OR (x AND mask k)"
    by (rule disjunctive_add) (auto simp: bit_simps)
  also have "\<dots> = x"
    by (auto intro!: bit_eqI simp: bit_simps)
  finally show ?thesis by (simp add: take_bit_eq_mask)
qed

lemma unat_and_not_mask:
  "unat (x AND NOT (mask k) :: 'a::len word) = unat x div 2 ^ k * 2 ^ k"
proof -
  have le: "x AND NOT (mask k) \<le> x" by (rule word_and_le2)
  have t: "unat (take_bit k x) = unat x mod 2 ^ k"
    unfolding unsigned_take_bit_eq by (rule take_bit_eq_mod)
  have "take_bit k x = x - (x AND NOT (mask k))"
    using and_not_mask_add [of x k] by (simp add: algebra_simps)
  then have "unat (take_bit k x) = unat x - unat (x AND NOT (mask k))"
    by (simp add: unat_sub [OF le])
  moreover have "unat (x AND NOT (mask k)) \<le> unat x"
    using le by (simp add: word_le_nat_alt)
  ultimately have "unat (x AND NOT (mask k)) = unat x - unat x mod 2 ^ k"
    using t by simp
  then show ?thesis by (simp add: minus_mod_eq_div_mult)
qed

lemma unat_align_down:
  "k < LENGTH('a) \<Longrightarrow>
    unat (x AND NOT (2 ^ k - 1) :: 'a::len word) = unat x div 2 ^ k * 2 ^ k"
  using unat_and_not_mask [of x k] by (simp add: mask_eq_decr_exp)

definition round_up :: "nat \<Rightarrow> nat \<Rightarrow> nat" where
  "round_up n a = (n + a - 1) div a * a"

lemma round_up_dvd [simp, intro]: "a dvd round_up n a"
  by (simp add: round_up_def)

lemma round_up_ge: "0 < a \<Longrightarrow> n \<le> round_up n a"
proof -
  assume a: "0 < a"
  have "n + a - 1 = (n + a - 1) div a * a + (n + a - 1) mod a" by simp
  moreover have "(n + a - 1) mod a \<le> a - 1" using a by (simp add: less_Suc_eq_le [symmetric])
  ultimately have "n + a - 1 \<le> (n + a - 1) div a * a + (a - 1)" by linarith
  then show ?thesis using a unfolding round_up_def by linarith
qed

lemma round_up_less: "0 < a \<Longrightarrow> round_up n a < n + a"
proof -
  assume a: "0 < a"
  have "(n + a - 1) div a * a \<le> n + a - 1" by (rule div_times_less_eq_dividend)
  then show ?thesis using a unfolding round_up_def by linarith
qed

lemma round_up_least:
  assumes a: "0 < a" and m: "a dvd m" "n \<le> m" shows "round_up n a \<le> m"
proof -
  obtain q where q: "m = a * q" using m(1) by blast
  have "n + a - 1 < a * (q + 1)" using m(2) a q by (simp add: algebra_simps)
  then have "(n + a - 1) div a < q + 1" by (simp add: div_less_iff_less_mult a mult.commute)
  then have "(n + a - 1) div a * a \<le> q * a" by (simp add: less_Suc_eq_le)
  then show ?thesis by (simp add: round_up_def q mult.commute)
qed

lemma round_up_id: "0 < a \<Longrightarrow> a dvd n \<Longrightarrow> round_up n a = n"
  by (meson dvd_refl le_antisym order_refl round_up_ge round_up_least)

section \<open>Half-open address ranges\<close>

text \<open>A block of memory is its first address and its size; an address range is half open.\<close>

type_synonym block = "nat \<times> nat"

definition range_of :: "block \<Rightarrow> nat set" where
  "range_of b = {fst b ..< fst b + snd b}"

definition disjoint_blocks :: "block \<Rightarrow> block \<Rightarrow> bool" where
  "disjoint_blocks b c \<longleftrightarrow> fst b + snd b \<le> fst c \<or> fst c + snd c \<le> fst b"

fun apart :: "block list \<Rightarrow> bool" where
  "apart [] = True"
| "apart (b # bs) = (list_all (disjoint_blocks b) bs \<and> apart bs)"

lemma disjoint_blocks_sym: "disjoint_blocks b c \<longleftrightarrow> disjoint_blocks c b"
  by (auto simp: disjoint_blocks_def)

lemma disjoint_blocks_ranges: "disjoint_blocks b c \<Longrightarrow> range_of b \<inter> range_of c = {}"
  by (auto simp: disjoint_blocks_def range_of_def)

lemma ranges_disjoint_blocks:
  "range_of b \<inter> range_of c = {} \<Longrightarrow> 0 < snd b \<Longrightarrow> 0 < snd c \<Longrightarrow> disjoint_blocks b c"
proof (rule ccontr)
  assume d: "range_of b \<inter> range_of c = {}" and p: "0 < snd b" "0 < snd c"
    and n: "\<not> disjoint_blocks b c"
  then have "max (fst b) (fst c) \<in> range_of b \<inter> range_of c"
    by (auto simp: disjoint_blocks_def range_of_def)
  with d show False by simp
qed

lemma disjoint_blocks_sub:
  "disjoint_blocks b c \<Longrightarrow> fst b \<le> fst d \<Longrightarrow> fst d + snd d \<le> fst b + snd b \<Longrightarrow>
    disjoint_blocks d c"
  by (auto simp: disjoint_blocks_def)

lemma apart_append:
  "apart (xs @ ys) \<longleftrightarrow>
    apart xs \<and> apart ys \<and> (\<forall>x\<in>set xs. \<forall>y\<in>set ys. disjoint_blocks x y)"
  by (induction xs) (auto simp: list_all_iff)

lemma apart_remove: "apart (xs @ y # ys) \<Longrightarrow> apart (xs @ ys)"
  by (auto simp: apart_append)

lemma apart_nth:
  "apart xs \<Longrightarrow> i < length xs \<Longrightarrow> j < length xs \<Longrightarrow> i \<noteq> j \<Longrightarrow> disjoint_blocks (xs ! i) (xs ! j)"
proof (induction xs arbitrary: i j)
  case Nil
  then show ?case by simp
next
  case (Cons x xs)
  then show ?case
    by (cases i; cases j) (auto simp: list_all_iff disjoint_blocks_sym)
qed

end
