(* ===== verification/Heap_Allocator.thy ===== *)
theory Heap_Allocator
  imports Prelude
begin

text \<open>
  The kernel heap: \<open>kernel/src/allocator.rs\<close>. The free regions form a linked list whose nodes are
  stored inside the regions themselves, so the model keeps an explicit store from addresses to
  list nodes and every operation of \<open>LinkedListAllocator\<close> reads and writes that store; writing a
  node destroys every node its sixteen bytes overlap. The second half states the abstract
  first-fit allocator on lists of blocks, shows that the pointer program refines it, and derives
  the contract of \<open>GlobalAlloc\<close> as the interpretation of the locale \<open>global_alloc\<close>.
\<close>

section \<open>The allocator program\<close>

definition HEAP_SIZE :: usize where
  "HEAP_SIZE = 2 * 1024 * 1024"

definition HEAP_START :: usize where
  "HEAP_START = 0xffffffff80000000 - HEAP_SIZE"

definition align_up :: "usize \<Rightarrow> usize \<Rightarrow> usize res" where
  "align_up addr align =
     rbind (add_chk addr align) (\<lambda>s. rbind (sub_chk s 1) (\<lambda>t.
     rbind (sub_chk align 1) (\<lambda>m. Inr (t AND NOT m))))"

record list_node =
  node_size :: usize
  node_next :: "usize option"

type_synonym node_store = "usize \<rightharpoonup> list_node"

definition list_node_new :: "usize \<Rightarrow> list_node" where
  "list_node_new sz = \<lparr>node_size = sz, node_next = None\<rparr>"

text \<open>\<open>start_addr\<close> is the node's own address, so \<open>end_addr\<close> takes that address.\<close>

definition end_addr :: "usize \<Rightarrow> list_node \<Rightarrow> usize res" where
  "end_addr addr node = add_chk addr (node_size node)"

text \<open>\<open>size_of::<ListNode>()\<close> and \<open>align_of::<ListNode>()\<close> on x86-64.\<close>

definition LIST_NODE_SIZE :: usize where
  "LIST_NODE_SIZE = 16"

definition LIST_NODE_ALIGN :: usize where
  "LIST_NODE_ALIGN = 8"

record heap =
  head :: list_node
  store :: node_store

definition allocator_new :: heap where
  "allocator_new = \<lparr>head = list_node_new 0, store = Map.empty\<rparr>"

text \<open>Writing \<open>n\<close> bytes from \<open>addr\<close> destroys the nodes they overlap.\<close>

definition clobber :: "node_store \<Rightarrow> usize \<Rightarrow> nat \<Rightarrow> node_store" where
  "clobber st addr n =
     (\<lambda>p. if disjoint_blocks (unat p, 16) (unat addr, n) then st p else None)"

definition write_node :: "node_store \<Rightarrow> usize \<Rightarrow> list_node \<Rightarrow> node_store" where
  "write_node st addr node = (clobber st addr 16)(addr \<mapsto> node)"

definition add_free_region :: "heap \<Rightarrow> usize \<Rightarrow> usize \<Rightarrow> heap res" where
  "add_free_region h addr sz =
     rbind (align_up addr LIST_NODE_ALIGN) (\<lambda>a.
     rbind (rassert (a = addr)) (\<lambda>_.
     rbind (rassert (LIST_NODE_SIZE \<le> sz)) (\<lambda>_.
       let node = (list_node_new sz)\<lparr>node_next := node_next (head h)\<rparr>
       in Inr (h\<lparr>store := write_node (store h) addr node,
                 head := (head h)\<lparr>node_next := Some addr\<rparr>\<rparr>))))"

definition init :: "heap \<Rightarrow> usize \<Rightarrow> usize \<Rightarrow> heap res" where
  "init h heap_start heap_size = add_free_region h heap_start heap_size"

definition alloc_from_region :: "usize \<Rightarrow> list_node \<Rightarrow> usize \<Rightarrow> usize \<Rightarrow> usize option res" where
  "alloc_from_region region node sz align =
     rbind (align_up region align) (\<lambda>alloc_start.
       case checked_add alloc_start sz of
         None \<Rightarrow> Inr None
       | Some alloc_end \<Rightarrow>
           rbind (end_addr region node) (\<lambda>region_end.
             if region_end < alloc_end then Inr None
             else rbind (end_addr region node) (\<lambda>region_end.
               rbind (sub_chk region_end alloc_end) (\<lambda>excess_size.
                 if 0 < excess_size \<and> excess_size < LIST_NODE_SIZE then Inr None
                 else Inr (Some alloc_start)))))"

text \<open>
  The cursor \<open>current\<close> of \<open>find_region\<close> is \<^term>\<open>None\<close> when it is \<open>self.head\<close> and
  \<^term>\<open>Some p\<close> when it is the node at \<open>p\<close>.
\<close>

definition cursor_next :: "heap \<Rightarrow> usize option \<Rightarrow> usize option res" where
  "cursor_next h current =
     (case current of
        None \<Rightarrow> Inr (node_next (head h))
      | Some p \<Rightarrow> (case store h p of None \<Rightarrow> Inl Undefined | Some n \<Rightarrow> Inr (node_next n)))"

definition set_next :: "heap \<Rightarrow> usize option \<Rightarrow> usize option \<Rightarrow> heap" where
  "set_next h current nxt =
     (case current of
        None \<Rightarrow> h\<lparr>head := (head h)\<lparr>node_next := nxt\<rparr>\<rparr>
      | Some p \<Rightarrow>
          h\<lparr>store := (store h)(p := map_option (\<lambda>n. n\<lparr>node_next := nxt\<rparr>) (store h p))\<rparr>)"

text \<open>
  The loop of \<open>find_region\<close>: the list could be cyclic in a corrupted store, so the loop is a
  partial function and \<^term>\<open>None\<close> is the loop that never ends.
\<close>

partial_function (option) find_region_loop ::
  "heap \<Rightarrow> usize option \<Rightarrow> usize \<Rightarrow> usize \<Rightarrow> (heap \<times> (usize \<times> usize) option) run" where
  "find_region_loop h current sz align =
     (case cursor_next h current of
        Inl e \<Rightarrow> Some (Inl e)
      | Inr None \<Rightarrow> Some (Inr (h, None))
      | Inr (Some region) \<Rightarrow>
          (case store h region of
             None \<Rightarrow> Some (Inl Undefined)
           | Some node \<Rightarrow>
               (case alloc_from_region region node sz align of
                  Inl e \<Rightarrow> Some (Inl e)
                | Inr (Some alloc_start) \<Rightarrow>
                    Some (Inr (set_next (set_next h (Some region) None) current (node_next node),
                               Some (region, alloc_start)))
                | Inr None \<Rightarrow> find_region_loop h (Some region) sz align)))"

definition find_region ::
  "heap \<Rightarrow> usize \<Rightarrow> usize \<Rightarrow> (heap \<times> (usize \<times> usize) option) run" where
  "find_region h sz align = find_region_loop h None sz align"

text \<open>
  \<open>core::alloc::Layout\<close>: the size, rounded up to the alignment, fits \<open>isize\<close>. \<open>align_to\<close> and
  \<open>pad_to_align\<close> are the standard library's.
\<close>

record layout =
  lsize :: usize
  lalign :: usize

definition is_power_of_two :: "usize \<Rightarrow> bool" where
  "is_power_of_two a = list_ex (\<lambda>k. a = 2 ^ k) [0..<64]"

definition layout_valid :: "layout \<Rightarrow> bool" where
  "layout_valid l \<longleftrightarrow>
     is_power_of_two (lalign l) \<and> unat (lsize l) + unat (lalign l) \<le> 2 ^ 63"

definition layout_align_to :: "layout \<Rightarrow> usize \<Rightarrow> layout option" where
  "layout_align_to l align =
     (let l' = l\<lparr>lalign := max (lalign l) align\<rparr>
      in if layout_valid l' then Some l' else None)"

definition layout_pad_to_align :: "layout \<Rightarrow> layout" where
  "layout_pad_to_align l =
     l\<lparr>lsize := (lsize l + lalign l - 1) AND NOT (lalign l - 1)\<rparr>"

definition size_align :: "layout \<Rightarrow> (usize \<times> usize) res" where
  "size_align l =
     rbind (runwrap (Expect ''adjusting alignment failed'') (layout_align_to l LIST_NODE_ALIGN))
       (\<lambda>l'. let l'' = layout_pad_to_align l'
              in Inr (max (lsize l'') LIST_NODE_SIZE, lalign l''))"

definition node_end :: "heap \<Rightarrow> usize \<Rightarrow> usize res" where
  "node_end h region =
     (case store h region of None \<Rightarrow> Inl Undefined | Some n \<Rightarrow> end_addr region n)"

text \<open>
  \<open>GlobalAlloc::alloc\<close> and \<open>dealloc\<close>. Both run with interrupts disabled on the only CPU and
  release the lock before they return, so each is one atomic step; \<open>0\<close> is the null pointer.
  \<open>carve\<close> is the body of \<open>alloc\<close> for the region that \<open>find_region\<close> unlinked.
\<close>

definition carve :: "heap \<Rightarrow> usize \<Rightarrow> usize \<Rightarrow> usize \<Rightarrow> (heap \<times> usize) res" where
  "carve h region alloc_start sz =
     rbind (runwrap (Expect ''overflow'') (checked_add alloc_start sz)) (\<lambda>alloc_end.
     rbind (node_end h region) (\<lambda>region_end.
     rbind (sub_chk region_end alloc_end) (\<lambda>excess_size.
     rbind (if 0 < excess_size then add_free_region h alloc_end excess_size else Inr h)
       (\<lambda>h'. Inr (h', alloc_start)))))"

definition alloc :: "heap \<Rightarrow> layout \<Rightarrow> (heap \<times> usize) run" where
  "alloc h l =
     (case size_align l of
        Inl e \<Rightarrow> Some (Inl e)
      | Inr (sz, align) \<Rightarrow>
          runbind (find_region h sz align) (\<lambda>(h1, found).
            case found of
              None \<Rightarrow> Some (Inr (h1, 0))
            | Some (region, alloc_start) \<Rightarrow> Some (carve h1 region alloc_start sz)))"

definition dealloc :: "heap \<Rightarrow> usize \<Rightarrow> layout \<Rightarrow> heap res" where
  "dealloc h ptr l = rbind (size_align l) (\<lambda>(sz, _). add_free_region h ptr sz)"

section \<open>The abstract allocator\<close>

text \<open>
  What the pointer program promises, on a list of free blocks: the first block that fits is
  removed, and what is left behind the allocation goes to the front of the list.
\<close>

definition fits :: "nat \<Rightarrow> nat \<Rightarrow> block \<Rightarrow> bool" where
  "fits sz al b \<longleftrightarrow>
     (let e = round_up (fst b) al + sz; r = fst b + snd b
      in e \<le> r \<and> (e = r \<or> 16 \<le> r - e))"

fun first_fit :: "nat \<Rightarrow> nat \<Rightarrow> block list \<Rightarrow> (block \<times> block list) option" where
  "first_fit sz al [] = None"
| "first_fit sz al (b # bs) =
     (if fits sz al b then Some (b, bs)
      else map_option (\<lambda>(r, rest). (r, b # rest)) (first_fit sz al bs))"

definition leftover :: "nat \<Rightarrow> nat \<Rightarrow> block \<Rightarrow> block list" where
  "leftover sz al b =
     (let e = round_up (fst b) al + sz; r = fst b + snd b
      in if e < r then [(e, r - e)] else [])"

definition spec_alloc :: "nat \<Rightarrow> nat \<Rightarrow> block list \<Rightarrow> block list \<times> nat option" where
  "spec_alloc sz al bs =
     (case first_fit sz al bs of
        None \<Rightarrow> (bs, None)
      | Some (b, rest) \<Rightarrow> (leftover sz al b @ rest, Some (round_up (fst b) al)))"

definition spec_dealloc :: "nat \<Rightarrow> nat \<Rightarrow> block list \<Rightarrow> block list" where
  "spec_dealloc p sz bs = (p, sz) # bs"

text \<open>The nodes reached from a pointer are the given blocks, ending at the given pointer.\<close>

fun chain :: "node_store \<Rightarrow> usize option \<Rightarrow> block list \<Rightarrow> usize option \<Rightarrow> bool" where
  "chain st p [] q = (p = q)"
| "chain st p (b # bs) q =
     (case p of
        None \<Rightarrow> False
      | Some a \<Rightarrow>
          (case st a of
             None \<Rightarrow> False
           | Some n \<Rightarrow> b = (unat a, unat (node_size n)) \<and> chain st (node_next n) bs q))"

definition heap_rep :: "heap \<Rightarrow> block list \<Rightarrow> bool" where
  "heap_rep h bs = chain (store h) (node_next (head h)) bs None"

definition block_ok :: "block \<Rightarrow> bool" where
  "block_ok b \<longleftrightarrow>
     unat HEAP_START \<le> fst b \<and> fst b + snd b \<le> unat HEAP_START + unat HEAP_SIZE \<and>
     8 dvd fst b \<and> 16 \<le> snd b"

definition heap_ok :: "heap \<Rightarrow> block list \<Rightarrow> bool" where
  "heap_ok h bs \<longleftrightarrow> heap_rep h bs \<and> list_all block_ok bs \<and> apart bs"

text \<open>
  Requests the allocator always answers without panicking: valid layouts, after the adjustment to the
  node's alignment, whose alignment does not carry \<open>align_up\<close> past the top of the address space.
\<close>

definition layout_ok :: "layout \<Rightarrow> bool" where
  "layout_ok l \<longleftrightarrow>
     is_power_of_two (lalign l) \<and> lalign l \<le> 0x80000000 \<and>
     unat (lsize l) + unat (max (lalign l) LIST_NODE_ALIGN) \<le> 2 ^ 63"

definition adj_align :: "layout \<Rightarrow> nat" where
  "adj_align l = max (unat (lalign l)) 8"

definition adj_size :: "layout \<Rightarrow> nat" where
  "adj_size l = max (round_up (unat (lsize l)) (adj_align l)) 16"

text \<open>The memory a live allocation owns: what \<open>dealloc\<close> will give back.\<close>

definition owned :: "usize \<times> layout \<Rightarrow> block" where
  "owned a = (unat (fst a), adj_size (snd a))"

definition heap_inv :: "heap \<Rightarrow> (usize \<times> layout) list \<Rightarrow> bool" where
  "heap_inv h live \<longleftrightarrow>
     (\<exists>bs. heap_rep h bs \<and> list_all block_ok (bs @ map owned live) \<and>
           apart (bs @ map owned live)) \<and>
     list_all (\<lambda>(p, l). layout_ok l \<and> adj_align l dvd unat p) live"

text \<open>
  A client of the allocator: a sequence of allocations and of releases of a block that is still
  live (counted from the most recent one), with the list of live allocations beside the heap.
\<close>

datatype client_op = Alloc layout | Free nat

fun run_client ::
  "('h \<Rightarrow> layout \<Rightarrow> ('h \<times> usize) run) \<Rightarrow> ('h \<Rightarrow> usize \<Rightarrow> layout \<Rightarrow> 'h res) \<Rightarrow>
   client_op list \<Rightarrow> 'h \<Rightarrow> (usize \<times> layout) list \<Rightarrow> ('h \<times> (usize \<times> layout) list) run" where
  "run_client al de [] h live = Some (Inr (h, live))"
| "run_client al de (Alloc l # ops) h live =
     runbind (al h l) (\<lambda>(h', p).
       run_client al de ops h' (if p = 0 then live else (p, l) # live))"
| "run_client al de (Free i # ops) h live =
     (if i < length live then
        runbind (Some (de h (fst (live ! i)) (snd (live ! i)))) (\<lambda>h'.
          run_client al de ops h' (take i live @ drop (Suc i) live))
      else run_client al de ops h live)"

fun op_ok :: "client_op \<Rightarrow> bool" where
  "op_ok (Alloc l) = layout_ok l"
| "op_ok (Free i) = True"

text \<open>What the type \<open>Layout\<close> guarantees of a request, and nothing more.\<close>

fun op_valid :: "client_op \<Rightarrow> bool" where
  "op_valid (Alloc l) = layout_valid l"
| "op_valid (Free i) = True"

definition fresh_heap :: heap where
  "fresh_heap =
     \<lparr>head = \<lparr>node_size = 0, node_next = Some HEAP_START\<rparr>,
      store = [HEAP_START \<mapsto> \<lparr>node_size = HEAP_SIZE, node_next = None\<rparr>]\<rparr>"

definition free_bytes :: "block list \<Rightarrow> nat" where
  "free_bytes bs = sum_list (map snd bs)"

text \<open>The position of the cursor behind a list of nodes, and what the loop keeps there.\<close>

definition cursor_at :: "block list \<Rightarrow> usize option" where
  "cursor_at pre = (if pre = [] then None else Some (of_nat (fst (last pre))))"

definition scan_at :: "heap \<Rightarrow> block list \<Rightarrow> block list \<Rightarrow> bool" where
  "scan_at h pre bs \<longleftrightarrow> heap_ok h (pre @ bs)"

definition within :: "block \<Rightarrow> block \<Rightarrow> bool" where
  "within b c \<longleftrightarrow> fst b \<le> fst c \<and> fst c + snd c \<le> fst b + snd b"

section \<open>Alignment, regions and layouts\<close>

lemma heap_bounds [simp]:
  "unat HEAP_START = 0xffffffff7fe00000"
  "unat HEAP_SIZE = 0x200000"
  by (simp_all add: HEAP_START_def HEAP_SIZE_def)

lemma node_consts [simp]: "unat LIST_NODE_SIZE = 16" "unat LIST_NODE_ALIGN = 8"
  by (simp_all add: LIST_NODE_SIZE_def LIST_NODE_ALIGN_def)

lemma is_power_of_two_iff: "is_power_of_two a \<longleftrightarrow> (\<exists>k<64. a = 2 ^ k)"
  by (auto simp: is_power_of_two_def list_ex_iff)

lemma align_up_ok:
  assumes p: "is_power_of_two align" and b: "unat addr + unat align < 2 ^ 64"
  obtains r where "align_up addr align = Inr r" "unat r = round_up (unat addr) (unat align)"
proof -
  obtain k where k: "k < 64" "align = 2 ^ k" using p by (auto simp: is_power_of_two_iff)
  have u: "unat align = 2 ^ k" using k by (simp add: unat_pow2_word)
  have a1: "add_chk addr align = Inr (addr + align)" using b by (simp add: add_chk_ok)
  have s: "unat (addr + align) = unat addr + unat align" using b by (simp add: unat_add_noovf)
  have a2: "sub_chk (addr + align) 1 = Inr (addr + align - 1)"
    by (rule sub_chk_ok) (simp add: s u Suc_le_eq)
  have t: "unat (addr + align - 1) = unat addr + unat align - 1"
    using s u by (simp add: unat_sub_le word_le_nat_alt Suc_le_eq)
  have a3: "sub_chk align 1 = Inr (align - 1)"
    by (rule sub_chk_ok) (simp add: u)
  have "unat ((addr + align - 1) AND NOT (align - 1)) = round_up (unat addr) (unat align)"
    using unat_align_down [of k "addr + align - 1"] k t u by (simp add: round_up_def)
  then show ?thesis using a1 a2 a3 by (intro that) (simp_all add: align_up_def)
qed

lemma align_up_overflow:
  "2 ^ 64 \<le> unat addr + unat align \<Longrightarrow> align_up addr align = Inl ArithOverflow"
  by (simp add: align_up_def add_chk_def)

lemma align_up_self:
  assumes "8 dvd unat addr" "unat addr + 8 < 2 ^ 64"
  shows "align_up addr LIST_NODE_ALIGN = Inr addr"
proof -
  have "is_power_of_two LIST_NODE_ALIGN"
    unfolding is_power_of_two_iff by (rule exI [of _ 3]) (simp add: LIST_NODE_ALIGN_def)
  then obtain r where "align_up addr LIST_NODE_ALIGN = Inr r" "unat r = round_up (unat addr) 8"
    using assms(2) by (auto elim: align_up_ok)
  moreover have "round_up (unat addr) 8 = unat addr" using assms(1) by (simp add: round_up_id)
  ultimately show ?thesis by (simp add: word_unat_eq_iff)
qed

lemma block_okD:
  assumes "block_ok (unat a, n)"
  shows "unat a + n \<le> 0xffffffff80000000" "8 dvd unat a" "16 \<le> n" "unat a \<noteq> 0"
    "0xffffffff7fe00000 \<le> unat a"
  using assms by (auto simp: block_ok_def)

lemma alloc_from_region_refines:
  assumes ok: "block_ok (unat p, unat (node_size n))"
    and al: "is_power_of_two al" "unat al \<le> 0x80000000"
  shows "\<exists>r. alloc_from_region p n sz al =
           Inr (if fits (unat sz) (unat al) (unat p, unat (node_size n)) then Some r else None) \<and>
         unat r = round_up (unat p) (unat al)"
proof -
  note b = block_okD [OF ok]
  obtain s where s: "align_up p al = Inr s" "unat s = round_up (unat p) (unat al)"
    using align_up_ok [OF al(1), of p] al(2) b by auto
  have e: "end_addr p n = Inr (p + node_size n)"
    using b by (simp add: end_addr_def add_chk_ok)
  have ue: "unat (p + node_size n) = unat p + unat (node_size n)"
    using b by (simp add: unat_add_noovf)
  show ?thesis
  proof (cases "unat s + unat sz < 2 ^ 64")
    case False
    then have "\<not> fits (unat sz) (unat al) (unat p, unat (node_size n))"
      using b s by (auto simp: fits_def Let_def)
    then show ?thesis using False s by (auto simp: alloc_from_region_def checked_add_def)
  next
    case True
    then have us: "unat (s + sz) = unat s + unat sz" by (simp add: unat_add_noovf)
    show ?thesis
    proof (cases "p + node_size n < s + sz")
      case gt: True
      then have "\<not> fits (unat sz) (unat al) (unat p, unat (node_size n))"
        using us ue s by (auto simp: fits_def Let_def word_less_nat_alt)
      then show ?thesis using True gt s e
        by (auto simp: alloc_from_region_def checked_add_def)
    next
      case le: False
      then have le': "s + sz \<le> p + node_size n" by simp
      have x: "unat (p + node_size n - (s + sz)) = unat p + unat (node_size n) - (unat s + unat sz)"
        using unat_sub_le [OF le'] us ue by simp
      have c: "0 < p + node_size n - (s + sz) \<longleftrightarrow> unat s + unat sz < unat p + unat (node_size n)"
        "p + node_size n - (s + sz) < LIST_NODE_SIZE \<longleftrightarrow>
          unat p + unat (node_size n) - (unat s + unat sz) < 16"
        unfolding word_less_nat_alt by (simp_all add: x)
      have "fits (unat sz) (unat al) (unat p, unat (node_size n)) \<longleftrightarrow>
          \<not> (0 < p + node_size n - (s + sz) \<and> p + node_size n - (s + sz) < LIST_NODE_SIZE)"
        unfolding c using le' us ue s by (auto simp: fits_def Let_def word_le_nat_alt)
      then show ?thesis using True le le' s e
        by (auto simp: alloc_from_region_def checked_add_def sub_chk_def)
    qed
  qed
qed

lemma size_align_ok:
  assumes "layout_ok l"
  obtains sz al where "size_align l = Inr (sz, al)" "unat sz = adj_size l" "unat al = adj_align l"
    "is_power_of_two al" "unat al \<le> 0x80000000"
proof -
  let ?al = "max (lalign l) LIST_NODE_ALIGN"
  have p: "is_power_of_two ?al"
  proof -
    have "is_power_of_two LIST_NODE_ALIGN"
      unfolding is_power_of_two_iff by (rule exI [of _ 3]) (simp add: LIST_NODE_ALIGN_def)
    then show ?thesis using assms by (simp add: layout_ok_def max_def)
  qed
  then obtain k where k: "k < 64" "?al = 2 ^ k" by (auto simp: is_power_of_two_iff)
  have u: "unat ?al = adj_align l"
    by (auto simp: adj_align_def max_def word_le_nat_alt)
  have u2: "unat ?al = 2 ^ k" using k by (simp add: unat_pow2_word)
  have v: "unat (lsize l) + unat ?al \<le> 2 ^ 63" using assms by (simp add: layout_ok_def)
  have small: "unat ?al \<le> 0x80000000"
    using assms by (auto simp: layout_ok_def max_def word_le_nat_alt)
  let ?m = "lsize l + ?al - 1"
  have m: "unat ?m = unat (lsize l) + unat ?al - 1"
  proof -
    have "unat (lsize l + ?al) = unat (lsize l) + unat ?al"
      using v by (simp add: unat_add_noovf)
    moreover have "1 \<le> lsize l + ?al"
      using calculation u2 by (simp add: word_le_nat_alt Suc_le_eq)
    ultimately show ?thesis by (simp add: unat_sub_le)
  qed
  have r: "unat (?m AND NOT (?al - 1)) = round_up (unat (lsize l)) (unat ?al)"
    using unat_align_down [of k ?m] k m u2 by (simp add: round_up_def)
  have "size_align l = Inr (max (?m AND NOT (?al - 1)) LIST_NODE_SIZE, ?al)"
    using p v by (simp add: size_align_def layout_align_to_def layout_valid_def
        layout_pad_to_align_def Let_def)
  moreover have "unat (max (?m AND NOT (?al - 1)) LIST_NODE_SIZE) = adj_size l"
    using r u by (auto simp: adj_size_def max_def word_le_nat_alt)
  ultimately show ?thesis using u p small by (intro that)
qed

lemma adj_align_pos [simp]: "0 < adj_align l"
  by (simp add: adj_align_def)

lemma adj_size_ge: "16 \<le> adj_size l" "unat (lsize l) \<le> adj_size l"
  using round_up_ge [OF adj_align_pos, of "unat (lsize l)" l] by (auto simp: adj_size_def)

lemma adj_align_8: "layout_ok l \<Longrightarrow> 8 dvd adj_align l"
proof -
  assume "layout_ok l"
  then obtain k where k: "k < 64" "unat (lalign l) = 2 ^ k"
    by (auto simp: layout_ok_def is_power_of_two_iff unat_pow2_word)
  show ?thesis
  proof (cases "3 \<le> k")
    case True
    then have "(2::nat) ^ 3 dvd 2 ^ k" by (rule le_imp_power_dvd)
    moreover have "(8::nat) \<le> 2 ^ k" using power_increasing [OF True, of "2::nat"] by simp
    ultimately show ?thesis using k by (simp add: adj_align_def max_def)
  next
    case False
    then have "k = 0 \<or> k = 1 \<or> k = 2" by auto
    then show ?thesis using k by (auto simp: adj_align_def)
  qed
qed

lemma adj_size_8: "layout_ok l \<Longrightarrow> 8 dvd adj_size l"
proof -
  assume "layout_ok l"
  then have "8 dvd round_up (unat (lsize l)) (adj_align l)"
    by (meson adj_align_8 dvd_trans round_up_dvd)
  then show ?thesis by (simp add: adj_size_def max_def)
qed

lemma chain_append:
  "chain st p (xs @ ys) q \<longleftrightarrow> (\<exists>r. chain st p xs r \<and> chain st r ys q)"
  by (induction xs arbitrary: p) (auto split: option.splits)

lemma chain_cong:
  "(\<And>b. b \<in> set bs \<Longrightarrow> st' (of_nat (fst b)) = st (of_nat (fst b))) \<Longrightarrow>
    chain st p bs q \<Longrightarrow> chain st' p bs q"
proof (induction bs arbitrary: p)
  case Nil
  then show ?case by simp
next
  case (Cons b bs)
  then obtain a n where a: "p = Some a" "st a = Some n" "b = (unat a, unat (node_size n))"
    "chain st (node_next n) bs q"
    by (auto split: option.splits)
  have "st' a = Some n" using Cons.prems(1) [of b] a by simp
  moreover have "chain st' (node_next n) bs q" using Cons.IH Cons.prems(1) a(4) by simp
  ultimately show ?case using a by simp
qed

lemma apart_distinct: "apart bs \<Longrightarrow> list_all block_ok bs \<Longrightarrow> distinct (map fst bs)"
  by (induction bs) (fastforce simp: list_all_iff disjoint_blocks_def block_ok_def)+

lemma cursor_next_at:
  "chain (store h) (node_next (head h)) pre q \<Longrightarrow> cursor_next h (cursor_at pre) = Inr q"
  by (cases pre rule: rev_cases)
    (auto simp: cursor_at_def cursor_next_def chain_append split: option.splits)

lemma chain_lookup:
  "chain st p (b # bs) q \<Longrightarrow>
    \<exists>n. p = Some (of_nat (fst b)) \<and> st (of_nat (fst b)) = Some n \<and>
        b = (unat (of_nat (fst b) :: usize), unat (node_size n)) \<and> chain st (node_next n) bs q"
  by (auto split: option.splits)

lemma chain_upd:
  "a \<notin> (\<lambda>b. of_nat (fst b)) ` set bs \<Longrightarrow> chain st p bs q \<Longrightarrow> chain (st(a := v)) p bs q"
  by (rule chain_cong) (auto simp: image_iff)

lemma unlink_region:
  assumes c: "chain (store h) (node_next (head h)) (pre @ b # rest) None"
    and d: "distinct (map (\<lambda>b. of_nat (fst b) :: usize) (pre @ b # rest))"
    and n: "store h (of_nat (fst b)) = Some n"
  shows "heap_rep (set_next (set_next h (Some (of_nat (fst b))) None) (cursor_at pre) (node_next n))
           (pre @ rest)"
proof -
  let ?a = "of_nat (fst b) :: usize"
  obtain q where q: "chain (store h) (node_next (head h)) pre q" "chain (store h) q (b # rest) None"
    using c by (auto simp only: chain_append)
  have r: "chain (store h) (node_next n) rest None"
    using chain_lookup [OF q(2)] n by auto
  show ?thesis
  proof (cases pre rule: rev_cases)
    case Nil
    have "chain ((store h)(?a \<mapsto> n\<lparr>node_next := None\<rparr>)) (node_next n) rest None"
      by (rule chain_upd [OF _ r]) (use d Nil in simp)
    then show ?thesis using n Nil
      by (simp add: heap_rep_def set_next_def cursor_at_def)
  next
    case (snoc pre' c)
    let ?c = "of_nat (fst c) :: usize"
    obtain m where m: "chain (store h) (node_next (head h)) pre' (Some ?c)" "store h ?c = Some m"
      "c = (unat ?c, unat (node_size m))"
    proof -
      obtain r where r: "chain (store h) (node_next (head h)) pre' r" "chain (store h) r [c] q"
        using q(1) snoc by (auto simp only: chain_append)
      show ?thesis using chain_lookup [OF r(2)] r(1) by (auto intro: that)
    qed
    let ?st = "(store h)(?a \<mapsto> n\<lparr>node_next := None\<rparr>, ?c \<mapsto> m\<lparr>node_next := node_next n\<rparr>)"
    have "chain ?st (node_next n) rest None"
      by (intro chain_upd r) (use d snoc in simp_all)
    moreover have "chain ?st (node_next (head h)) pre' (Some ?c)"
      by (intro chain_upd m(1)) (use d snoc in simp_all)
    moreover have "?c \<noteq> ?a" using d snoc by auto
    ultimately have "chain ?st (node_next (head h)) (pre @ rest) None"
      using m(3) snoc by (auto simp: chain_append)
    then show ?thesis using n m snoc \<open>?c \<noteq> ?a\<close>
      by (simp add: heap_rep_def set_next_def cursor_at_def)
  qed
qed

lemma chain_addr:
  "chain st p bs q \<Longrightarrow> c \<in> set bs \<Longrightarrow> unat (of_nat (fst c) :: usize) = fst c"
  by (induction bs arbitrary: p) (auto split: option.splits)

lemma block_word_distinct:
  assumes c: "chain st p bs q" and ok: "list_all block_ok bs" "apart bs"
  shows "distinct (map (\<lambda>b. of_nat (fst b) :: usize) bs)"
proof -
  have "\<forall>b\<in>set bs. unat (of_nat (fst b) :: usize) = fst b"
    using chain_addr [OF c] by blast
  then have "map fst bs = map unat (map (\<lambda>b. of_nat (fst b) :: usize) bs)"
    by (simp add: comp_def)
  then show ?thesis using apart_distinct [OF ok(2,1)] distinct_map by metis
qed

lemma scan_step:
  assumes "scan_at h pre (b # bs)" and al: "is_power_of_two al" "unat al \<le> 0x80000000"
  obtains n r where "cursor_next h (cursor_at pre) = Inr (Some (of_nat (fst b)))"
    "store h (of_nat (fst b)) = Some n" "unat (node_size n) = snd b"
    "unat (of_nat (fst b) :: usize) = fst b"
    "alloc_from_region (of_nat (fst b)) n sz al =
       Inr (if fits (unat sz) (unat al) b then Some r else None)"
    "unat r = round_up (fst b) (unat al)"
proof -
  obtain q where q: "chain (store h) (node_next (head h)) pre q"
    "chain (store h) q (b # bs) None"
    using assms(1) by (auto simp only: scan_at_def heap_ok_def heap_rep_def chain_append)
  obtain n where n: "q = Some (of_nat (fst b))" "store h (of_nat (fst b)) = Some n"
    "b = (unat (of_nat (fst b) :: usize), unat (node_size n))"
    using chain_lookup [OF q(2)] by auto
  have "block_ok b" using assms(1) by (simp add: scan_at_def heap_ok_def)
  then have "block_ok (unat (of_nat (fst b) :: usize), unat (node_size n))" using n(3) by simp
  then obtain r where "alloc_from_region (of_nat (fst b)) n sz al =
       Inr (if fits (unat sz) (unat al) b then Some r else None)"
    "unat r = round_up (unat (of_nat (fst b) :: usize)) (unat al)"
    using alloc_from_region_refines [OF _ al] n(3) by metis
  moreover have "unat (of_nat (fst b) :: usize) = fst b" "unat (node_size n) = snd b"
    using n(3) by (metis fst_conv, metis snd_conv)
  ultimately show ?thesis using that n(1,2) cursor_next_at [OF q(1)] by auto
qed

lemma find_region_loop_None:
  assumes al: "is_power_of_two al" "unat al \<le> 0x80000000"
  shows "scan_at h pre bs \<Longrightarrow> first_fit (unat sz) (unat al) bs = None \<Longrightarrow>
    find_region_loop h (cursor_at pre) sz al = Some (Inr (h, None))"
proof (induction bs arbitrary: pre)
  case Nil
  then have "cursor_next h (cursor_at pre) = Inr None"
    by (auto simp: scan_at_def heap_ok_def heap_rep_def intro: cursor_next_at)
  then show ?case by (simp add: find_region_loop.simps)
next
  case (Cons b bs)
  obtain n r where s: "cursor_next h (cursor_at pre) = Inr (Some (of_nat (fst b)))"
    "store h (of_nat (fst b)) = Some n"
    "alloc_from_region (of_nat (fst b)) n sz al =
       Inr (if fits (unat sz) (unat al) b then Some r else None)"
    by (rule scan_step [OF Cons.prems(1) al])
  have nf: "\<not> fits (unat sz) (unat al) b" "first_fit (unat sz) (unat al) bs = None"
    using Cons.prems(2) by (auto split: if_splits)
  have "scan_at h (pre @ [b]) bs" using Cons.prems(1) by (simp add: scan_at_def)
  then have "find_region_loop h (cursor_at (pre @ [b])) sz al = Some (Inr (h, None))"
    using nf(2) by (rule Cons.IH)
  then show ?case using s nf(1)
    by (subst find_region_loop.simps) (simp add: cursor_at_def)
qed

lemma find_region_loop_Some:
  assumes al: "is_power_of_two al" "unat al \<le> 0x80000000"
  shows "scan_at h pre bs \<Longrightarrow> first_fit (unat sz) (unat al) bs = Some (b, rest) \<Longrightarrow>
    \<exists>h' r n. find_region_loop h (cursor_at pre) sz al =
        Some (Inr (h', Some (of_nat (fst b), r))) \<and>
      unat r = round_up (fst b) (unat al) \<and> heap_rep h' (pre @ rest) \<and>
      unat (of_nat (fst b) :: usize) = fst b \<and>
      store h' (of_nat (fst b)) = Some n \<and> unat (node_size n) = snd b"
proof (induction bs arbitrary: pre rest)
  case Nil
  then show ?case by simp
next
  case (Cons c bs)
  obtain n r where s: "cursor_next h (cursor_at pre) = Inr (Some (of_nat (fst c)))"
    "store h (of_nat (fst c)) = Some n" "unat (node_size n) = snd c"
    "unat (of_nat (fst c) :: usize) = fst c"
    "alloc_from_region (of_nat (fst c)) n sz al =
       Inr (if fits (unat sz) (unat al) c then Some r else None)"
    "unat r = round_up (fst c) (unat al)"
    by (rule scan_step [OF Cons.prems(1) al])
  show ?case
  proof (cases "fits (unat sz) (unat al) c")
    case True
    let ?h = "set_next (set_next h (Some (of_nat (fst c))) None) (cursor_at pre) (node_next n)"
    have e: "b = c" "rest = bs" using Cons.prems(2) True by auto
    have ch: "chain (store h) (node_next (head h)) (pre @ c # bs) None"
      "list_all block_ok (pre @ c # bs)" "apart (pre @ c # bs)"
      using Cons.prems(1) by (simp_all add: scan_at_def heap_ok_def heap_rep_def)
    note d = block_word_distinct [OF ch]
    have rep: "heap_rep ?h (pre @ bs)" by (rule unlink_region [OF ch(1) d s(2)])
    have "\<exists>m. store ?h (of_nat (fst c)) = Some m \<and> node_size m = node_size n"
      using s(2) by (auto simp: set_next_def cursor_at_def)
    then show ?thesis using True s rep e
      by (subst find_region_loop.simps) auto
  next
    case False
    obtain rest' where f: "first_fit (unat sz) (unat al) bs = Some (b, rest')" "rest = c # rest'"
      using Cons.prems(2) False by auto
    have "scan_at h (pre @ [c]) bs" using Cons.prems(1) by (simp add: scan_at_def)
    from Cons.IH [OF this f(1)] show ?thesis using s False f(2)
      by (subst find_region_loop.simps) (simp add: cursor_at_def)
  qed
qed

lemma first_fit_split:
  "first_fit sz al bs = Some (b, rest) \<Longrightarrow>
    \<exists>pre post. bs = pre @ b # post \<and> rest = pre @ post \<and> fits sz al b \<and>
      (\<forall>c\<in>set pre. \<not> fits sz al c)"
proof (induction bs arbitrary: rest)
  case Nil
  then show ?case by simp
next
  case (Cons c bs)
  show ?case
  proof (cases "fits sz al c")
    case True
    with Cons.prems have "c # bs = [] @ b # rest \<and> fits sz al b" by simp
    then show ?thesis by (intro exI [of _ "[]"] exI [of _ rest]) simp
  next
    case False
    with Cons.prems obtain r where r: "first_fit sz al bs = Some (b, r)" "rest = c # r" by auto
    from Cons.IH [OF r(1)] obtain pre post where
      "bs = pre @ b # post" "r = pre @ post" "fits sz al b" "\<forall>c\<in>set pre. \<not> fits sz al c"
      by blast
    then show ?thesis using r(2) False by (intro exI [of _ "c # pre"] exI [of _ post]) simp
  qed
qed


lemma apart_middle: "apart (xs @ y # ys) \<longleftrightarrow> apart (y # xs @ ys)"
  by (auto simp: apart_append list_all_iff disjoint_blocks_sym)

lemma apart_replace:
  "apart (b # xs) \<Longrightarrow> list_all (within b) cs \<Longrightarrow> apart cs \<Longrightarrow> apart (cs @ xs)"
  by (auto simp: apart_append list_all_iff within_def intro: disjoint_blocks_sub)

lemma fits_parts:
  assumes f: "fits sz al b" and ok: "block_ok b"
    and a: "0 < al" "8 dvd al" and z: "16 \<le> sz" "8 dvd sz"
  shows "list_all (within b) (leftover sz al b @ [(round_up (fst b) al, sz)])"
    "apart (leftover sz al b @ [(round_up (fst b) al, sz)])"
    "list_all block_ok (leftover sz al b @ [(round_up (fst b) al, sz)])"
proof -
  let ?s = "round_up (fst b) al"
  have s: "fst b \<le> ?s" using a(1) by (rule round_up_ge)
  have e: "?s + sz \<le> fst b + snd b" "?s + sz < fst b + snd b \<Longrightarrow> 16 \<le> fst b + snd b - (?s + sz)"
    using f by (auto simp: fits_def Let_def)
  have d: "8 dvd ?s" using a(2) by (rule dvd_trans) simp
  show "list_all (within b) (leftover sz al b @ [(?s, sz)])"
    using s e by (auto simp: leftover_def Let_def within_def)
  show "apart (leftover sz al b @ [(?s, sz)])"
    by (auto simp: leftover_def Let_def disjoint_blocks_def)
  show "list_all block_ok (leftover sz al b @ [(?s, sz)])"
    using s e d z ok by (auto simp: leftover_def Let_def block_ok_def)
qed

lemma spec_alloc_apart:
  assumes sp: "spec_alloc sz al bs = (bs', Some s)"
    and ok: "list_all block_ok (bs @ L)" "apart (bs @ L)"
    and a: "0 < al" "8 dvd al" and z: "16 \<le> sz" "8 dvd sz"
  shows "list_all block_ok (bs' @ (s, sz) # L)" "apart (bs' @ (s, sz) # L)" "al dvd s"
proof -
  obtain b rest where f: "first_fit sz al bs = Some (b, rest)"
    "bs' = leftover sz al b @ rest" "s = round_up (fst b) al"
    using sp by (auto simp: spec_alloc_def split: option.splits)
  obtain pre post where p: "bs = pre @ b # post" "rest = pre @ post" "fits sz al b"
    using first_fit_split [OF f(1)] by blast
  have "block_ok b" using ok(1) p(1) by simp
  note fp = fits_parts [OF p(3) this a z]
  have "apart (b # rest @ L)" using ok(2) p by (simp add: apart_middle)
  from apart_replace [OF this fp(1,2)]
  have "apart (leftover sz al b @ (s, sz) # rest @ L)" using f(3) by simp
  then have "apart ((s, sz) # leftover sz al b @ rest @ L)" by (simp only: apart_middle)
  then show "apart (bs' @ (s, sz) # L)"
    unfolding apart_middle using f(2) by simp
  show "list_all block_ok (bs' @ (s, sz) # L)" using fp(3) ok(1) f p by auto
  show "al dvd s" using f(3) by simp
qed

lemma add_free_region_ok:
  assumes rep: "heap_rep h bs" and ok: "list_all block_ok ((unat a, unat n) # bs)"
    and ap: "apart ((unat a, unat n) # bs)"
  obtains h' where "add_free_region h a n = Inr h'" "heap_rep h' ((unat a, unat n) # bs)"
proof -
  let ?node = "(list_node_new n)\<lparr>node_next := node_next (head h)\<rparr>"
  let ?h = "h\<lparr>store := write_node (store h) a ?node, head := (head h)\<lparr>node_next := Some a\<rparr>\<rparr>"
  have b: "block_ok (unat a, unat n)" using ok by simp
  have au: "align_up a LIST_NODE_ALIGN = Inr a"
    using block_okD [OF b] by (intro align_up_self) auto
  have le: "LIST_NODE_SIZE \<le> n" using block_okD [OF b] by (simp add: word_le_nat_alt)
  have "add_free_region h a n = Inr ?h"
    using au le by (simp add: add_free_region_def)
  moreover have "chain (write_node (store h) a ?node) (node_next (head h)) bs None"
  proof (rule chain_cong)
    fix c assume c: "c \<in> set bs"
    have u: "unat (of_nat (fst c) :: usize) = fst c"
      using chain_addr rep c by (auto simp: heap_rep_def)
    have "disjoint_blocks (unat a, unat n) c" "block_ok c"
      using ap ok c by (auto simp: list_all_iff)
    then have "disjoint_blocks (fst c, 16) (unat a, 16)"
      using block_okD(3) [OF b] by (auto simp: disjoint_blocks_def block_ok_def)
    then show "write_node (store h) a ?node (of_nat (fst c)) = store h (of_nat (fst c))"
      using u by (auto simp: write_node_def clobber_def disjoint_blocks_def)
  next
    show "chain (store h) (node_next (head h)) bs None" using rep by (simp add: heap_rep_def)
  qed
  ultimately show ?thesis by (intro that) (auto simp: heap_rep_def write_node_def list_node_new_def)
qed

lemma spec_alloc_fits:
  assumes "spec_alloc sz al bs = (bs', Some s)"
  obtains b rest where "first_fit sz al bs = Some (b, rest)" "fits sz al b" "b \<in> set bs"
    "bs' = leftover sz al b @ rest" "s = round_up (fst b) al"
proof -
  obtain b rest where f: "first_fit sz al bs = Some (b, rest)"
    "bs' = leftover sz al b @ rest" "s = round_up (fst b) al"
    using assms by (auto simp: spec_alloc_def split: option.splits)
  moreover have "fits sz al b" "b \<in> set bs" using first_fit_split [OF f(1)] by auto
  ultimately show ?thesis by (intro that)
qed

lemma find_region_refines:
  assumes ok: "heap_ok h bs" and al: "is_power_of_two al" "unat al \<le> 0x80000000"
  shows "(case first_fit (unat sz) (unat al) bs of
      None \<Rightarrow> find_region h sz al = Some (Inr (h, None))
    | Some (b, rest) \<Rightarrow> (\<exists>h' r n. find_region h sz al = Some (Inr (h', Some (of_nat (fst b), r))) \<and>
        unat r = round_up (fst b) (unat al) \<and> heap_rep h' rest \<and>
        unat (of_nat (fst b) :: usize) = fst b \<and>
        store h' (of_nat (fst b)) = Some n \<and> unat (node_size n) = snd b))"
proof -
  have "scan_at h [] bs" using ok by (simp add: scan_at_def)
  then show ?thesis
    using find_region_loop_None [OF al] find_region_loop_Some [OF al]
    by (fastforce simp: find_region_def cursor_at_def split: option.splits)
qed

lemma carve_ok:
  assumes l: "layout_ok l" and sz: "unat sz = adj_size l"
    and f: "fits (adj_size l) (adj_align l) b" and ok: "list_all block_ok (b # rest)"
    and ap: "apart (b # rest)" and rep: "heap_rep h rest"
    and u: "unat (of_nat (fst b) :: usize) = fst b"
    and n: "store h (of_nat (fst b)) = Some n" "unat (node_size n) = snd b"
    and r: "unat r = round_up (fst b) (adj_align l)"
  obtains h' where "carve h (of_nat (fst b)) r sz = Inr (h', r)"
    "heap_rep h' (leftover (adj_size l) (adj_align l) b @ rest)"
proof -
  let ?e = "r + sz" and ?r = "of_nat (fst b) + node_size n"
  have e: "round_up (fst b) (adj_align l) + adj_size l \<le> fst b + snd b"
    "fst b + snd b \<le> 0xffffffff80000000"
    using f ok by (auto simp: fits_def Let_def block_ok_def)
  have ue: "unat ?e = round_up (fst b) (adj_align l) + adj_size l"
    using r sz e by (simp add: unat_add_noovf)
  have ur: "unat ?r = fst b + snd b" using u n e by (simp add: unat_add_noovf)
  have le: "?e \<le> ?r" using ue ur e by (simp add: word_le_nat_alt)
  have ux: "unat (?r - ?e) = fst b + snd b - unat ?e"
    using unat_sub_le [OF le] ur by simp
  have st: "checked_add r sz = Some ?e" "node_end h (of_nat (fst b)) = Inr ?r"
    "sub_chk ?r ?e = Inr (?r - ?e)"
    using r sz e u n le by (simp_all add: checked_add_def node_end_def end_addr_def add_chk_ok sub_chk_def)
  show ?thesis
  proof (cases "0 < ?r - ?e")
    case False
    then have "unat (?r - ?e) = 0" by (metis unat_0 word_gt_0)
    then have "leftover (adj_size l) (adj_align l) b = []"
      using ux ue by (simp add: leftover_def Let_def)
    then show ?thesis using False st rep by (intro that [of h]) (simp_all add: carve_def)
  next
    case True
    then have "0 < unat (?r - ?e)" by (simp add: word_less_nat_alt)
    then have lo: "leftover (adj_size l) (adj_align l) b = [(unat ?e, unat (?r - ?e))]"
      using ux ue by (simp add: leftover_def Let_def)
    have "block_ok b" using ok by simp
    note fp = fits_parts [OF f this adj_align_pos adj_align_8 [OF l] adj_size_ge(1) adj_size_8 [OF l]]
    have "list_all block_ok ((unat ?e, unat (?r - ?e)) # rest)"
      "apart ((unat ?e, unat (?r - ?e)) # rest)"
      using apart_replace [OF ap fp(1,2)] fp(3) ok lo by (auto simp: apart_append)
    then obtain h' where "add_free_region h ?e (?r - ?e) = Inr h'"
      "heap_rep h' ((unat ?e, unat (?r - ?e)) # rest)"
      using add_free_region_ok [OF rep] by blast
    then show ?thesis using True st lo by (intro that [of h']) (simp_all add: carve_def)
  qed
qed

lemma alloc_refines_ex:
  assumes ok: "heap_ok h bs" and l: "layout_ok l"
  obtains h' p where "alloc h l = Some (Inr (h', p))"
    "heap_rep h' (fst (spec_alloc (adj_size l) (adj_align l) bs))"
    "case snd (spec_alloc (adj_size l) (adj_align l) bs) of None \<Rightarrow> p = 0 | Some s \<Rightarrow> unat p = s"
proof -
  obtain sz al where sa: "size_align l = Inr (sz, al)" "unat sz = adj_size l"
    "unat al = adj_align l" "is_power_of_two al" "unat al \<le> 0x80000000"
    by (rule size_align_ok [OF l])
  note fr = find_region_refines [OF ok sa(4,5), of sz, unfolded sa(2,3)]
  show ?thesis
  proof (cases "first_fit (adj_size l) (adj_align l) bs")
    case None
    then show ?thesis using fr sa ok
      by (intro that [of h 0]) (auto simp: alloc_def spec_alloc_def heap_ok_def)
  next
    case (Some br)
    obtain b rest where br: "br = (b, rest)" by (cases br)
    obtain h1 r n where h1: "find_region h sz al = Some (Inr (h1, Some (of_nat (fst b), r)))"
      "unat r = round_up (fst b) (adj_align l)" "heap_rep h1 rest"
      "unat (of_nat (fst b) :: usize) = fst b"
      "store h1 (of_nat (fst b)) = Some n" "unat (node_size n) = snd b"
      using fr Some br by auto
    obtain pre post where p: "bs = pre @ b # post" "rest = pre @ post"
      "fits (adj_size l) (adj_align l) b"
      using first_fit_split Some br by blast
    have "list_all block_ok (b # rest)" "apart (b # rest)"
      using ok p by (simp_all add: heap_ok_def apart_middle)
    from carve_ok [OF l sa(2) p(3) this h1(3-6,2)]
    obtain h2 where "carve h1 (of_nat (fst b)) r sz = Inr (h2, r)"
      "heap_rep h2 (leftover (adj_size l) (adj_align l) b @ rest)" .
    then show ?thesis using h1 sa(1) Some br
      by (intro that [of h2 r]) (simp_all add: alloc_def spec_alloc_def)
  qed
qed

lemma dealloc_refines_ex:
  assumes rep: "heap_rep h bs" and l: "layout_ok l"
    and ok: "list_all block_ok (owned (p, l) # bs)" "apart (owned (p, l) # bs)"
  obtains h' where "dealloc h p l = Inr h'"
    "heap_rep h' (spec_dealloc (unat p) (adj_size l) bs)"
proof -
  obtain sz al where sa: "size_align l = Inr (sz, al)" "unat sz = adj_size l"
    by (rule size_align_ok [OF l])
  have "list_all block_ok ((unat p, unat sz) # bs)" "apart ((unat p, unat sz) # bs)"
    using ok sa(2) by (simp_all add: owned_def)
  from add_free_region_ok [OF rep this]
  obtain h' where "add_free_region h p sz = Inr h'" "heap_rep h' ((unat p, unat sz) # bs)" .
  then show ?thesis using sa by (intro that [of h']) (simp_all add: dealloc_def spec_dealloc_def)
qed

lemma heap_ok_live:
  assumes "heap_inv h L"
  obtains bs where "heap_ok h bs" "list_all block_ok (bs @ map owned L)"
    "apart (bs @ map owned L)"
  using assms by (auto simp: heap_inv_def heap_ok_def apart_append)

lemma alloc_keeps_inv:
  assumes inv: "heap_inv h L" and l: "layout_ok l"
  obtains h' p where "alloc h l = Some (Inr (h', p))"
    "heap_inv h' (if p = 0 then L else (p, l) # L)"
proof -
  obtain bs where bs: "heap_ok h bs" "list_all block_ok (bs @ map owned L)"
    "apart (bs @ map owned L)" by (rule heap_ok_live [OF inv])
  obtain h' p where al: "alloc h l = Some (Inr (h', p))"
    "heap_rep h' (fst (spec_alloc (adj_size l) (adj_align l) bs))"
    "case snd (spec_alloc (adj_size l) (adj_align l) bs) of None \<Rightarrow> p = 0 | Some s \<Rightarrow> unat p = s"
    by (rule alloc_refines_ex [OF bs(1) l])
  have live: "list_all (\<lambda>(p, l). layout_ok l \<and> adj_align l dvd unat p) L"
    using inv by (simp add: heap_inv_def)
  show ?thesis
  proof (cases "snd (spec_alloc (adj_size l) (adj_align l) bs)")
    case None
    then have "spec_alloc (adj_size l) (adj_align l) bs = (bs, None)"
      by (auto simp: spec_alloc_def split: option.splits)
    then show ?thesis using al inv bs by (intro that [of h' p]) (auto simp: heap_inv_def)
  next
    case (Some s)
    let ?bs = "fst (spec_alloc (adj_size l) (adj_align l) bs)"
    have sp: "spec_alloc (adj_size l) (adj_align l) bs = (?bs, Some s)" using Some by (metis prod.collapse)
    note sa = spec_alloc_apart [OF sp bs(2,3) adj_align_pos adj_align_8 [OF l] adj_size_ge(1) adj_size_8 [OF l]]
    have s: "unat p = s" using al(3) Some by simp
    have "block_ok (s, adj_size l)" using sa(1) by simp
    then have "p \<noteq> 0" using s by (auto simp: block_ok_def)
    moreover have "heap_inv h' ((p, l) # L)"
      using al(2) sa s l live by (auto simp: heap_inv_def owned_def)
    ultimately show ?thesis using al(1) by (intro that [of h' p]) auto
  qed
qed

lemma dealloc_keeps_inv:
  assumes inv: "heap_inv h (L1 @ (p, l) # L2)"
  obtains h' where "dealloc h p l = Inr h'" "heap_inv h' (L1 @ L2)"
proof -
  obtain bs where bs: "heap_ok h bs" "list_all block_ok (bs @ map owned (L1 @ (p, l) # L2))"
    "apart (bs @ map owned (L1 @ (p, l) # L2))" by (rule heap_ok_live [OF inv])
  have l: "layout_ok l" using inv by (simp add: heap_inv_def)
  have ap: "apart (owned (p, l) # bs @ map owned (L1 @ L2))"
    using bs(3) by (simp only: map_append list.map append_assoc [symmetric] apart_middle)
  then have "list_all block_ok (owned (p, l) # bs)" "apart (owned (p, l) # bs)"
    using bs(2) by (auto simp: apart_append list_all_iff)
  moreover have "heap_rep h bs" using bs(1) by (simp add: heap_ok_def)
  ultimately obtain h' where h': "dealloc h p l = Inr h'"
    "heap_rep h' (spec_dealloc (unat p) (adj_size l) bs)"
    using dealloc_refines_ex l by metis
  have "heap_inv h' (L1 @ L2)"
    unfolding heap_inv_def using h'(2) bs(2) ap inv
    by (intro conjI exI [of _ "owned (p, l) # bs"])
      (auto simp: spec_dealloc_def owned_def heap_inv_def)
  then show ?thesis using h'(1) by (intro that)
qed

section \<open>The initial heap and the invariant\<close>

lemma fresh_heap_rep: "heap_rep fresh_heap [(unat HEAP_START, unat HEAP_SIZE)]"
  by (simp add: heap_rep_def fresh_heap_def)

lemma init_fresh: "init allocator_new HEAP_START HEAP_SIZE = Inr fresh_heap"
proof -
  have "align_up HEAP_START LIST_NODE_ALIGN = Inr HEAP_START"
    by (rule align_up_self) (simp_all add: dvd_def)
  moreover have "clobber Map.empty a n = Map.empty" for a n
    by (auto simp: clobber_def)
  moreover have "LIST_NODE_SIZE \<le> HEAP_SIZE" by (simp add: word_le_nat_alt)
  ultimately show ?thesis
    by (simp add: init_def add_free_region_def allocator_new_def fresh_heap_def write_node_def
        list_node_new_def)
qed

lemma fresh_heap_ok: "heap_ok fresh_heap [(unat HEAP_START, unat HEAP_SIZE)]"
  using fresh_heap_rep by (simp add: heap_ok_def block_ok_def)

lemma fresh_heap_inv: "heap_inv fresh_heap []"
  using fresh_heap_ok by (auto simp: heap_inv_def heap_ok_def)

lemma lalign_dvd_adj: "layout_ok l \<Longrightarrow> unat (lalign l) dvd adj_align l"
proof -
  assume "layout_ok l"
  then obtain k where k: "k < 64" "unat (lalign l) = 2 ^ k"
    by (auto simp: layout_ok_def is_power_of_two_iff unat_pow2_word)
  show ?thesis
  proof (cases "k \<le> 3")
    case True
    then have "(2::nat) ^ k dvd 2 ^ 3" by (rule le_imp_power_dvd)
    then show ?thesis using k by (auto simp: adj_align_def max_def)
  next
    case False
    then have "(2::nat) ^ 3 \<le> 2 ^ k" by (intro power_increasing) auto
    then show ?thesis using k by (simp add: adj_align_def max_def)
  qed
qed

lemma layout_okI:
  assumes "k \<le> 31" "lalign l = 2 ^ k" "unat (lsize l) \<le> 2 ^ 62"
  shows "layout_ok l"
proof -
  have u: "unat (lalign l) = 2 ^ k" using assms(1,2) by (simp add: unat_pow2_word)
  have "(2::nat) ^ k \<le> 2 ^ 31" using assms(1) by (intro power_increasing) auto
  then have "unat (lalign l) \<le> 0x80000000" using u by simp
  moreover have "is_power_of_two (lalign l)"
    unfolding is_power_of_two_iff using assms(1,2) by (intro exI [of _ k]) simp
  ultimately show ?thesis using assms(3)
    by (auto simp: layout_ok_def max_def word_le_nat_alt)
qed

lemma heap_inv_blocks:
  assumes "heap_inv h L"
  shows "apart (map owned L)" "list_all block_ok (map owned L)"
    "list_all (\<lambda>(p, l). layout_ok l \<and> adj_align l dvd unat p) L"
  using assms by (auto simp: heap_inv_def apart_append)

lemma chain_unique: "chain st p bs None \<Longrightarrow> chain st p cs None \<Longrightarrow> bs = cs"
proof (induction bs arbitrary: p cs)
  case Nil
  then show ?case by (cases cs) auto
next
  case (Cons b bs)
  then show ?case by (cases cs) (auto split: option.splits)
qed

lemma leftover_bytes:
  "fits sz al b \<Longrightarrow> 0 < al \<Longrightarrow>
    snd b = free_bytes (leftover sz al b) + sz + (round_up (fst b) al - fst b)"
  using round_up_ge [of al "fst b"]
  by (auto simp: fits_def leftover_def free_bytes_def Let_def)

lemma free_bytes_simps [simp]:
  "free_bytes [] = 0" "free_bytes (b # bs) = snd b + free_bytes bs"
  "free_bytes (bs @ cs) = free_bytes bs + free_bytes cs"
  by (simp_all add: free_bytes_def)

lemma heap_ok_spec_alloc:
  assumes "heap_ok h bs" "layout_ok l" "spec_alloc (adj_size l) (adj_align l) bs = (bs', r)"
  shows "list_all block_ok bs' \<and> apart bs'"
proof (cases r)
  case None
  then show ?thesis using assms
    by (auto simp: spec_alloc_def heap_ok_def split: option.splits)
next
  case (Some s)
  then show ?thesis
    using spec_alloc_apart [of _ _ bs bs' s "[]"] adj_align_8 [OF assms(2)] adj_size_8 [OF assms(2)]
      adj_size_ge(1) [of l] assms
    by (auto simp: heap_ok_def apart_append)
qed

text \<open>
  A valid layout whose alignment is \<open>2^32\<close> or more makes \<open>align_up\<close> overflow on the first free
  region, so \<open>alloc\<close> panics instead of returning null.
\<close>

lemma alloc_overaligned_panics:
  assumes "heap_ok h (b # bs)" and "layout_valid l" and "0x100000000 \<le> lalign l"
  shows "alloc h l = Some (Inl ArithOverflow)"
proof -
  have al: "max (lalign l) LIST_NODE_ALIGN = lalign l"
    using assms(3) by (simp add: max_def word_le_nat_alt LIST_NODE_ALIGN_def)
  have sa: "size_align l = Inr (max (lsize (layout_pad_to_align l)) LIST_NODE_SIZE, lalign l)"
    using assms(2) al
    by (simp add: size_align_def layout_align_to_def layout_pad_to_align_def Let_def)
  obtain n where n: "node_next (head h) = Some (of_nat (fst b))" "store h (of_nat (fst b)) = Some n"
    "b = (unat (of_nat (fst b) :: usize), unat (node_size n))"
    using chain_lookup assms(1) unfolding heap_ok_def heap_rep_def by blast
  have "0xffffffff7fe00000 \<le> fst b"
    using assms(1) by (simp add: heap_ok_def block_ok_def)
  moreover have "unat (of_nat (fst b) :: usize) = fst b" using n(3) by (metis fst_conv)
  moreover have "0x100000000 \<le> unat (lalign l)"
    using assms(3) by (simp add: word_le_nat_alt)
  ultimately have "align_up (of_nat (fst b)) (lalign l) = Inl ArithOverflow"
    by (intro align_up_overflow) simp
  then show ?thesis using sa n
    by (simp add: alloc_def find_region_def find_region_loop.simps cursor_next_def
        alloc_from_region_def)
qed

text \<open>
  Valid layouts that are not acceptable: with a free region \<open>align_up\<close> overflows, without one
  the answer is null; a size that cannot be adjusted to the node's alignment panics before.
\<close>

lemma layout_bad_cases:
  assumes "layout_valid l" and "\<not> layout_ok l"
  shows "layout_align_to l LIST_NODE_ALIGN = None \<or> 0x100000000 \<le> lalign l"
proof (cases "lalign l \<le> 0x80000000")
  case True
  then have "\<not> unat (lsize l) + unat (max (lalign l) LIST_NODE_ALIGN) \<le> 2 ^ 63"
    using assms by (simp add: layout_ok_def layout_valid_def)
  then show ?thesis by (simp add: layout_align_to_def layout_valid_def Let_def)
next
  case False
  obtain k where k: "k < 64" "lalign l = 2 ^ k"
    using assms(1) by (auto simp: layout_valid_def is_power_of_two_iff)
  have "\<not> k \<le> 31"
  proof
    assume "k \<le> 31"
    then have "(2::nat) ^ k \<le> 2 ^ 31" by (intro power_increasing) auto
    then show False using False k by (simp add: word_le_nat_alt unat_pow2_word)
  qed
  then have "(2::nat) ^ 32 \<le> 2 ^ k" by (intro power_increasing) auto
  then show ?thesis using k by (simp add: word_le_nat_alt unat_pow2_word)
qed

lemma alloc_bad_request:
  assumes "heap_inv h live" and "layout_valid l" and "\<not> layout_ok l"
  shows "(\<exists>e. alloc h l = Some (Inl e)) \<or> alloc h l = Some (Inr (h, 0))"
  using layout_bad_cases [OF assms(2,3)]
proof
  assume "layout_align_to l LIST_NODE_ALIGN = None"
  then show ?thesis by (simp add: alloc_def size_align_def)
next
  assume big: "0x100000000 \<le> lalign l"
  obtain bs where bs: "heap_ok h bs" by (rule heap_ok_live [OF assms(1)])
  show ?thesis
  proof (cases bs)
    case Nil
    have al: "max (lalign l) LIST_NODE_ALIGN = lalign l"
      using big by (simp add: max_def word_le_nat_alt LIST_NODE_ALIGN_def)
    then have "\<exists>sz. size_align l = Inr (sz, lalign l)"
      using assms(2)
      by (simp add: size_align_def layout_align_to_def layout_pad_to_align_def Let_def)
    moreover have "node_next (head h) = None"
      using bs Nil by (simp add: heap_ok_def heap_rep_def)
    ultimately show ?thesis
      by (auto simp: alloc_def find_region_def find_region_loop.simps cursor_next_def)
  next
    case (Cons b bs')
    then show ?thesis using alloc_overaligned_panics assms(2) big bs by blast
  qed
qed

section \<open>The interface of a global allocator\<close>

text \<open>
  What the rest of the kernel relies on: an allocation of an acceptable layout always returns, and
  either fails with the null pointer or adds a live allocation; any other valid layout panics or
  is answered with null; giving a live allocation back always succeeds.
\<close>

locale global_alloc =
  fixes alloc_op :: "'h \<Rightarrow> layout \<Rightarrow> ('h \<times> usize) run"
    and dealloc_op :: "'h \<Rightarrow> usize \<Rightarrow> layout \<Rightarrow> 'h res"
    and inv :: "'h \<Rightarrow> (usize \<times> layout) list \<Rightarrow> bool"
  assumes alloc_law: "inv h live \<Longrightarrow> layout_ok l \<Longrightarrow>
      \<exists>h' p. alloc_op h l = Some (Inr (h', p)) \<and> inv h' (if p = 0 then live else (p, l) # live)"
    and bad_law: "inv h live \<Longrightarrow> layout_valid l \<Longrightarrow> \<not> layout_ok l \<Longrightarrow>
      (\<exists>e. alloc_op h l = Some (Inl e)) \<or> alloc_op h l = Some (Inr (h, 0))"
    and dealloc_law: "inv h (live1 @ (p, l) # live2) \<Longrightarrow>
      \<exists>h'. dealloc_op h p l = Inr h' \<and> inv h' (live1 @ live2)"
begin

lemma client_step_free:
  assumes "inv h live" "i < length live"
  shows "\<exists>h'. dealloc_op h (fst (live ! i)) (snd (live ! i)) = Inr h' \<and>
    inv h' (take i live @ drop (Suc i) live)"
proof -
  have "live = take i live @ (fst (live ! i), snd (live ! i)) # drop (Suc i) live"
    using assms(2) by (simp add: id_take_nth_drop [symmetric])
  then show ?thesis using dealloc_law assms(1) by metis
qed

lemma run_client_total:
  "inv h live \<Longrightarrow> list_all op_valid ops \<Longrightarrow>
    (\<exists>h' live'. run_client alloc_op dealloc_op ops h live = Some (Inr (h', live')) \<and> inv h' live') \<or>
    (\<exists>e. run_client alloc_op dealloc_op ops h live = Some (Inl e)) \<and> \<not> list_all op_ok ops"
proof (induction ops arbitrary: h live)
  case Nil
  then show ?case by simp
next
  case (Cons x ops)
  show ?case
  proof (cases x)
    case (Alloc l)
    show ?thesis
    proof (cases "layout_ok l")
      case True
      then obtain h' p where "alloc_op h l = Some (Inr (h', p))"
        "inv h' (if p = 0 then live else (p, l) # live)"
        using alloc_law Cons.prems by fastforce
      then show ?thesis
        using Cons.IH [of h' "if p = 0 then live else (p, l) # live"] Alloc Cons.prems True by simp
    next
      case False
      then show ?thesis
        using bad_law [of h live l] Alloc Cons.IH [of h live] Cons.prems by auto
    qed
  next
    case (Free i)
    show ?thesis
    proof (cases "i < length live")
      case True
      then obtain h' where "dealloc_op h (fst (live ! i)) (snd (live ! i)) = Inr h'"
        "inv h' (take i live @ drop (Suc i) live)"
        using client_step_free [OF Cons.prems(1)] by blast
      then show ?thesis
        using Cons.IH [of h' "take i live @ drop (Suc i) live"] Free Cons.prems True by simp
    next
      case False
      then show ?thesis using Cons.IH [OF Cons.prems(1)] Free Cons.prems by simp
    qed
  qed
qed

end

interpretation kernel_heap: global_alloc alloc dealloc heap_inv
proof
  show "\<exists>h' p. alloc h l = Some (Inr (h', p)) \<and>
      heap_inv h' (if p = 0 then live else (p, l) # live)"
    if "heap_inv h live" "layout_ok l" for h live l
    using alloc_keeps_inv [OF that] by metis
  show "(\<exists>e. alloc h l = Some (Inl e)) \<or> alloc h l = Some (Inr (h, 0))"
    if "heap_inv h live" "layout_valid l" "\<not> layout_ok l" for h live l
    by (rule alloc_bad_request [OF that])
  show "\<exists>h'. dealloc h p l = Inr h' \<and> heap_inv h' (live1 @ live2)"
    if "heap_inv h (live1 @ (p, l) # live2)" for h live1 p l live2
    using dealloc_keeps_inv [OF that] by metis
qed

text \<open>A client that writes inside a live block leaves the list nodes alone.\<close>

lemma client_write_inv:
  assumes "heap_inv h live" and "(p, l) \<in> set live"
    and "unat p \<le> unat a" and "unat a + n \<le> unat p + unat (lsize l)"
  shows "heap_inv (h\<lparr>store := clobber (store h) a n\<rparr>) live"
proof -
  obtain bs where bs: "heap_ok h bs" "list_all block_ok (bs @ map owned live)"
    "apart (bs @ map owned live)" by (rule heap_ok_live [OF assms(1)])
  have rep: "chain (store h) (node_next (head h)) bs None"
    using bs(1) by (simp add: heap_ok_def heap_rep_def)
  have "chain (clobber (store h) a n) (node_next (head h)) bs None"
  proof (rule chain_cong [OF _ rep])
    fix c assume c: "c \<in> set bs"
    have "disjoint_blocks c (owned (p, l))" "block_ok c"
      using bs(2,3) c assms(2) by (auto simp: apart_append list_all_iff)
    then have "disjoint_blocks (fst c, 16) (unat a, n)"
      using assms(3,4) adj_size_ge(2) [of l]
      by (auto simp: disjoint_blocks_def owned_def block_ok_def)
    then show "clobber (store h) a n (of_nat (fst c)) = store h (of_nat (fst c))"
      using chain_addr [OF rep c] by (simp add: clobber_def)
  qed
  then show ?thesis using bs assms(1) by (auto simp: heap_inv_def heap_rep_def)
qed

section \<open>A first allocation\<close>

text \<open>
  A concrete state used to instantiate the properties: the fresh heap after one request for 24
  bytes at alignment 8.
\<close>

definition layout24 :: layout where
  "layout24 = \<lparr>lsize = 24, lalign = 8\<rparr>"

definition layout32 :: layout where
  "layout32 = \<lparr>lsize = 32, lalign = 32\<rparr>"

lemma layout24 [simp]: "layout_ok layout24" "adj_size layout24 = 24" "adj_align layout24 = 8"
  using layout_okI [of 3 layout24]
  by (simp_all add: layout24_def adj_size_def adj_align_def round_up_def)

lemma layout32 [simp]: "layout_ok layout32" "adj_size layout32 = 32" "adj_align layout32 = 32"
  using layout_okI [of 5 layout32]
  by (simp_all add: layout32_def adj_size_def adj_align_def round_up_def)

lemma alloc_fresh_24:
  obtains h where "alloc fresh_heap layout24 = Some (Inr (h, HEAP_START))"
    "heap_inv h [(HEAP_START, layout24)]"
    "heap_ok h [(0xffffffff7fe00018, 0x1fffe8)]"
proof -
  have sp: "spec_alloc 24 8 [(unat HEAP_START, unat HEAP_SIZE)] =
      ([(0xffffffff7fe00018, 0x1fffe8)], Some (unat HEAP_START))"
    by (simp add: spec_alloc_def fits_def leftover_def round_up_def)
  obtain h p where h: "alloc fresh_heap layout24 = Some (Inr (h, p))"
    "heap_rep h [(0xffffffff7fe00018, 0x1fffe8)]" "unat p = unat HEAP_START"
    using alloc_refines_ex [OF fresh_heap_ok layout24(1)] sp by auto
  have p: "p = HEAP_START" using h(3) by (simp only: word_unat_eq_iff)
  obtain h' p' where "alloc fresh_heap layout24 = Some (Inr (h', p'))"
    "heap_inv h' (if p' = 0 then [] else [(p', layout24)])"
    by (rule alloc_keeps_inv [OF fresh_heap_inv layout24(1)])
  then have "heap_inv h [(HEAP_START, layout24)]"
    using h p by (auto simp: HEAP_START_def HEAP_SIZE_def split: if_splits)
  moreover have "heap_ok h [(0xffffffff7fe00018, 0x1fffe8)]"
    using h(2) by (simp add: heap_ok_def block_ok_def)
  ultimately show ?thesis using h(1) p by (intro that) auto
qed

section \<open>Properties\<close>

text \<open>
  C1: every program of allocations of valid layouts and of releases, started on the heap that
  \<open>init\<close> builds, ends without looping, whatever the order of its requests. Either it runs to its
  end, and then the blocks that are live are pairwise disjoint, lie inside the heap, are aligned
  as their layout asks and are at least as large as it asks; or it panics, and this happens only
  if some request has an alignment of \<open>2^32\<close> or more, or a size within 8 bytes of \<open>isize::MAX\<close>
  that cannot be adjusted to the alignment of a node.
\<close>

theorem heap_clients_safe:
  assumes "list_all op_valid ops"
  shows "(\<exists>h live. run_client alloc dealloc ops fresh_heap [] = Some (Inr (h, live)) \<and>
      apart (map owned live) \<and> list_all block_ok (map owned live) \<and>
      list_all (\<lambda>(p, l). unat (lalign l) dvd unat p \<and> unat (lsize l) \<le> adj_size l) live) \<or>
    (\<exists>e. run_client alloc dealloc ops fresh_heap [] = Some (Inl e)) \<and> \<not> list_all op_ok ops"
  using kernel_heap.run_client_total [OF fresh_heap_inv assms]
proof
  assume "\<exists>h live. run_client alloc dealloc ops fresh_heap [] = Some (Inr (h, live)) \<and>
    heap_inv h live"
  then obtain h live where r: "run_client alloc dealloc ops fresh_heap [] = Some (Inr (h, live))"
    "heap_inv h live" by blast
  have "list_all (\<lambda>(p, l). unat (lalign l) dvd unat p \<and> unat (lsize l) \<le> adj_size l) live"
    using heap_inv_blocks(3) [OF r(2)] lalign_dvd_adj adj_size_ge(2)
    by (fastforce simp: list_all_iff intro: dvd_trans)
  then show ?thesis using r heap_inv_blocks [OF r(2)] by blast
qed simp

theorem heap_clients_safe_witness:
  "\<exists>h live. run_client alloc dealloc
      [Alloc \<lparr>lsize = 24, lalign = 8\<rparr>, Alloc \<lparr>lsize = 100, lalign = 32\<rparr>, Free 0]
      fresh_heap [] = Some (Inr (h, live)) \<and>
    apart (map owned live) \<and> list_all block_ok (map owned live) \<and>
    list_all (\<lambda>(p, l). unat (lalign l) dvd unat p \<and> unat (lsize l) \<le> adj_size l) live"
proof -
  let ?ops = "[Alloc \<lparr>lsize = 24, lalign = 8\<rparr>, Alloc \<lparr>lsize = 100, lalign = 32\<rparr>, Free 0]"
  have ok: "list_all op_ok ?ops"
    using layout_okI [of 3 "\<lparr>lsize = 24, lalign = 8\<rparr>"]
      layout_okI [of 5 "\<lparr>lsize = 100, lalign = 32\<rparr>"] by simp
  then have "list_all op_valid ?ops"
    by (auto simp: layout_ok_def layout_valid_def max_def split: if_splits)
  from heap_clients_safe [OF this] ok show ?thesis by blast
qed




text \<open>
  C35: giving a live block back and asking for the same layout again returns the same address and
  restores the free list.
\<close>

theorem dealloc_alloc_roundtrip:
  assumes "heap_inv h (live1 @ (p, l) # live2)"
  shows "\<exists>h1 h2. dealloc h p l = Inr h1 \<and> alloc h1 l = Some (Inr (h2, p)) \<and>
    (\<forall>bs. heap_rep h bs \<longrightarrow> heap_rep h2 bs)"
proof -
  obtain bs where bs: "heap_ok h bs" "list_all block_ok (bs @ map owned (live1 @ (p, l) # live2))"
    "apart (bs @ map owned (live1 @ (p, l) # live2))" by (rule heap_ok_live [OF assms])
  have l: "layout_ok l" "adj_align l dvd unat p" using assms by (simp_all add: heap_inv_def)
  have ok: "list_all block_ok (owned (p, l) # bs)" "apart (owned (p, l) # bs)"
    using bs by (auto simp: apart_append list_all_iff disjoint_blocks_sym)
  have rep: "heap_rep h bs" using bs(1) by (simp add: heap_ok_def)
  obtain h1 where h1: "dealloc h p l = Inr h1" "heap_rep h1 (owned (p, l) # bs)"
    using dealloc_refines_ex [OF rep l(1) ok] by (auto simp: spec_dealloc_def owned_def)
  have "heap_ok h1 (owned (p, l) # bs)" using h1(2) ok by (simp add: heap_ok_def)
  then obtain h2 q where h2: "alloc h1 l = Some (Inr (h2, q))"
    "heap_rep h2 (fst (spec_alloc (adj_size l) (adj_align l) (owned (p, l) # bs)))"
    "case snd (spec_alloc (adj_size l) (adj_align l) (owned (p, l) # bs)) of
       None \<Rightarrow> q = 0 | Some s \<Rightarrow> unat q = s"
    by (rule alloc_refines_ex [OF _ l(1)])
  have "round_up (unat p) (adj_align l) = unat p" using l(2) by (simp add: round_up_id)
  then have "spec_alloc (adj_size l) (adj_align l) (owned (p, l) # bs) = (bs, Some (unat p))"
    by (simp add: spec_alloc_def owned_def fits_def leftover_def)
  then have "q = p" "heap_rep h2 bs" using h2(2,3) by (simp_all add: word_unat_eq_iff)
  then show ?thesis using h1(1) h2(1) rep chain_unique
    by (auto simp: heap_rep_def)
qed

theorem dealloc_alloc_roundtrip_witness:
  "\<exists>h h1 h2. alloc fresh_heap layout24 = Some (Inr (h, HEAP_START)) \<and>
    dealloc h HEAP_START layout24 = Inr h1 \<and> alloc h1 layout24 = Some (Inr (h2, HEAP_START))"
proof -
  obtain h where h: "alloc fresh_heap layout24 = Some (Inr (h, HEAP_START))"
    "heap_inv h ([] @ (HEAP_START, layout24) # [])"
    using alloc_fresh_24 by auto
  show ?thesis using dealloc_alloc_roundtrip [OF h(2)] h(1) by blast
qed

text \<open>
  Byte accounting of \<open>alloc\<close>: the free bytes before are the free bytes after, plus the padded
  size of the request, plus the gap in front of the aligned start in the region that was used; the
  gap is smaller than the alignment, and it is in neither part.
\<close>

theorem alloc_accounting:
  assumes "heap_ok h bs" and "layout_ok l"
    and "alloc h l = Some (Inr (h', p))" and "p \<noteq> 0"
  shows "\<exists>bs' b. heap_ok h' bs' \<and> b \<in> set bs \<and> fst b \<le> unat p \<and>
    unat p - fst b < adj_align l \<and>
    free_bytes bs = free_bytes bs' + adj_size l + (unat p - fst b)"
proof -
  let ?sp = "spec_alloc (adj_size l) (adj_align l) bs"
  obtain h0 q where "alloc h l = Some (Inr (h0, q))" "heap_rep h0 (fst ?sp)"
    "case snd ?sp of None \<Rightarrow> q = 0 | Some s \<Rightarrow> unat q = s"
    by (rule alloc_refines_ex [OF assms(1,2)])
  then have a: "heap_rep h' (fst ?sp)" "snd ?sp = Some (unat p)"
    using assms(3,4) by (cases "snd ?sp"; simp)+
  then have sp: "?sp = (fst ?sp, Some (unat p))" by (metis prod.collapse)
  obtain b rest where b: "first_fit (adj_size l) (adj_align l) bs = Some (b, rest)"
    "fits (adj_size l) (adj_align l) b" "b \<in> set bs"
    "fst ?sp = leftover (adj_size l) (adj_align l) b @ rest" "unat p = round_up (fst b) (adj_align l)"
    by (rule spec_alloc_fits [OF sp])
  have "free_bytes bs = snd b + free_bytes rest"
    using first_fit_split [OF b(1)] by auto
  then have "free_bytes bs = free_bytes (fst ?sp) + adj_size l + (unat p - fst b)"
    using leftover_bytes [OF b(2) adj_align_pos] b(4,5) by simp
  moreover have "heap_ok h' (fst ?sp)"
    using heap_ok_spec_alloc [OF assms(1,2) sp] a(1) by (simp add: heap_ok_def)
  moreover have "fst b \<le> unat p" "unat p - fst b < adj_align l"
    using round_up_ge [OF adj_align_pos, of "fst b" l] round_up_less [OF adj_align_pos, of "fst b" l] b(5)
    by auto
  ultimately show ?thesis using b(3) by blast
qed

theorem alloc_accounting_witness:
  "\<exists>h h' p bs' b. heap_ok h [(0xffffffff7fe00018, 0x1fffe8)] \<and>
    alloc h layout32 = Some (Inr (h', p)) \<and> heap_ok h' bs' \<and>
    0x1fffe8 = free_bytes bs' + 32 + 8"
proof -
  obtain h where h: "heap_ok h [(0xffffffff7fe00018, 0x1fffe8)]"
    using alloc_fresh_24 by blast
  have sp: "spec_alloc 32 32 [(0xffffffff7fe00018, 0x1fffe8)] =
      ([(0xffffffff7fe00040, 0x1fffc0)], Some 0xffffffff7fe00020)"
    by (simp add: spec_alloc_def fits_def leftover_def round_up_def)
  obtain h' p where a: "alloc h layout32 = Some (Inr (h', p))"
    "heap_rep h' [(0xffffffff7fe00040, 0x1fffc0)]" "unat p = 0xffffffff7fe00020"
    using alloc_refines_ex [OF h layout32(1)] sp by auto
  then have "p \<noteq> 0" by auto
  then show ?thesis
    using alloc_accounting [OF h layout32(1) a(1)] h a by fastforce
qed

text \<open>
  The owner of a live block may write anywhere inside it without touching the allocator's own
  data: the heap invariant is kept although the list nodes live in the managed memory.
\<close>

theorem client_write_keeps_heap:
  assumes "heap_inv h live" and "(p, l) \<in> set live"
    and "unat p \<le> unat a" and "unat a + n \<le> unat p + unat (lsize l)"
  shows "heap_inv (h\<lparr>store := clobber (store h) a n\<rparr>) live"
  using client_write_inv [OF assms] .

theorem client_write_keeps_heap_witness:
  "\<exists>h. alloc fresh_heap layout24 = Some (Inr (h, HEAP_START)) \<and>
    heap_inv (h\<lparr>store := clobber (store h) HEAP_START 24\<rparr>) [(HEAP_START, layout24)]"
proof -
  obtain h where h: "alloc fresh_heap layout24 = Some (Inr (h, HEAP_START))"
    "heap_inv h [(HEAP_START, layout24)]"
    using alloc_fresh_24 by auto
  have "(HEAP_START, layout24) \<in> set [(HEAP_START, layout24)]" by simp
  from client_write_keeps_heap [OF h(2) this, of HEAP_START 24] h(1)
  show ?thesis by (auto simp: layout24_def)
qed

text \<open>
  C40: for a power of two, \<open>align_up\<close> returns the least multiple of the alignment that is not below
  the address, and it panics exactly when address plus alignment does not fit 64 bits.
\<close>

theorem align_up_least_multiple:
  assumes "is_power_of_two align"
  shows "(if unat addr + unat align < 2 ^ 64
          then \<exists>r. align_up addr align = Inr r \<and> unat align dvd unat r \<and> addr \<le> r \<and>
                 (\<forall>m. unat align dvd unat m \<and> addr \<le> m \<longrightarrow> r \<le> m)
          else align_up addr align = Inl ArithOverflow)"
proof (cases "unat addr + unat align < 2 ^ 64")
  case True
  have pos: "0 < unat align"
    using assms by (auto simp: is_power_of_two_iff unat_pow2_word)
  obtain r where "align_up addr align = Inr r" "unat r = round_up (unat addr) (unat align)"
    by (rule align_up_ok [OF assms True])
  then show ?thesis using True round_up_ge [OF pos] round_up_least [OF pos]
    by (auto simp: word_le_nat_alt)
next
  case False
  then show ?thesis by (simp add: align_up_overflow)
qed

theorem align_up_least_multiple_witness:
  "\<exists>r. align_up 13 8 = Inr r \<and> unat (8 :: usize) dvd unat r \<and> 13 \<le> r \<and>
    (\<forall>m. unat (8 :: usize) dvd unat m \<and> 13 \<le> m \<longrightarrow> r \<le> m)"
proof -
  have "is_power_of_two 8" unfolding is_power_of_two_iff by (rule exI [of _ 3]) simp
  from align_up_least_multiple [OF this, of 13] show ?thesis by simp
qed

text \<open>
  The gap in front of an aligned allocation is never given back: after allocating 24 bytes, then
  32 bytes at alignment 32, and releasing both, eight of the heap's bytes are in no free block.
\<close>

theorem alloc_padding_leaked:
  "\<exists>h bs. run_client alloc dealloc [Alloc layout24, Alloc layout32, Free 0, Free 0] fresh_heap [] =
      Some (Inr (h, [])) \<and> heap_rep h bs \<and> free_bytes bs + 8 = unat HEAP_SIZE"
proof -
  obtain h1 where h1: "alloc fresh_heap layout24 = Some (Inr (h1, HEAP_START))"
    "heap_inv h1 [(HEAP_START, layout24)]" "heap_ok h1 [(0xffffffff7fe00018, 0x1fffe8)]"
    by (rule alloc_fresh_24)
  have "spec_alloc 32 32 [(0xffffffff7fe00018, 0x1fffe8)] =
      ([(0xffffffff7fe00040, 0x1fffc0)], Some 0xffffffff7fe00020)"
    by (simp add: spec_alloc_def fits_def leftover_def round_up_def)
  then obtain h2 p where h2: "alloc h1 layout32 = Some (Inr (h2, p))"
    "heap_rep h2 [(0xffffffff7fe00040, 0x1fffc0)]" "unat p = 0xffffffff7fe00020"
    using alloc_refines_ex [OF h1(3) layout32(1)] by auto
  then have p: "p \<noteq> 0" by auto
  let ?b2 = "[owned (p, layout32), (0xffffffff7fe00040, 0x1fffc0)]"
  have "list_all block_ok ?b2" "apart ?b2"
    using h2(3) by (simp_all add: owned_def block_ok_def disjoint_blocks_def)
  from dealloc_refines_ex [OF h2(2) layout32(1) this]
  obtain h3 where h3: "dealloc h2 p layout32 = Inr h3" "heap_rep h3 ?b2"
    by (auto simp: spec_dealloc_def owned_def)
  let ?b3 = "owned (HEAP_START, layout24) # ?b2"
  have "list_all block_ok ?b3" "apart ?b3"
    using h2(3) by (simp_all add: owned_def block_ok_def disjoint_blocks_def)
  from dealloc_refines_ex [OF h3(2) layout24(1) this]
  obtain h4 where h4: "dealloc h3 HEAP_START layout24 = Inr h4" "heap_rep h4 ?b3"
    by (auto simp: spec_dealloc_def owned_def)
  have "run_client alloc dealloc [Alloc layout24, Alloc layout32, Free 0, Free 0] fresh_heap [] =
      Some (Inr (h4, []))"
    using h1(1) h2(1) h3(1) h4(1) p by (simp add: HEAP_START_def HEAP_SIZE_def)
  moreover have "free_bytes ?b3 + 8 = unat HEAP_SIZE" by (simp add: owned_def)
  ultimately show ?thesis using h4(2) by blast
qed

end
