(* ===== verification/X86_Addr.thy ===== *)
theory X86_Addr
  imports Prelude
begin

text \<open>
  The address arithmetic of the crate \<open>x86_64\<close>, which the kernel calls but does not contain:
  \<open>PhysAddr\<close>, \<open>VirtAddr\<close>, \<open>PhysFrame\<close>, \<open>Page\<close> and \<open>PageRangeInclusive\<close>. Its operations are the
  fields of a record that the kernel's definitions take as an argument; \<open>x86_addr_ok\<close> states the
  documented behaviour the proofs rely on. Frames and pages are named by their start address.
\<close>

record x86_addr =
  phys_addr_new :: "u64 \<Rightarrow> u64 res"
  frame_containing :: "u64 \<Rightarrow> u64"
  virt_addr_new :: "u64 \<Rightarrow> u64 res"
  virt_addr_add :: "u64 \<Rightarrow> u64 \<Rightarrow> u64 res"
  virt_addr_sub :: "u64 \<Rightarrow> u64 \<Rightarrow> u64 res"
  page_containing :: "u64 \<Rightarrow> u64"
  page_range_inclusive :: "u64 \<Rightarrow> u64 \<Rightarrow> u64 list"
  page_range_size :: "u64 \<Rightarrow> u64 \<Rightarrow> u64"

text \<open>Bits 47 to 63 of a canonical virtual address are equal.\<close>

definition canonical :: "u64 \<Rightarrow> bool" where
  "canonical a \<longleftrightarrow> unat a < 2 ^ 47 \<or> 2 ^ 64 - 2 ^ 47 \<le> unat a"

definition same_half :: "u64 \<Rightarrow> u64 \<Rightarrow> bool" where
  "same_half a b \<longleftrightarrow>
     (unat a < 2 ^ 47 \<and> unat b < 2 ^ 47) \<or> (2 ^ 64 - 2 ^ 47 \<le> unat a \<and> 2 ^ 64 - 2 ^ 47 \<le> unat b)"

definition page_list :: "u64 \<Rightarrow> nat \<Rightarrow> u64 list" where
  "page_list s n = map (\<lambda>i. s + 4096 * of_nat i) [0..<n]"

definition pages_between :: "u64 \<Rightarrow> u64 \<Rightarrow> nat" where
  "pages_between s e = (if e < s then 0 else (unat e - unat s) div 4096 + 1)"

definition x86_addr_ok :: "x86_addr \<Rightarrow> bool" where
  "x86_addr_ok X \<longleftrightarrow>
     (\<forall>a. unat a < 2 ^ 52 \<longrightarrow> phys_addr_new X a = Inr a) \<and>
     (\<forall>a. 2 ^ 52 \<le> unat a \<longrightarrow> (\<exists>e. phys_addr_new X a = Inl e)) \<and>
     (\<forall>a. unat (frame_containing X a) = unat a div 4096 * 4096) \<and>
     (\<forall>a. canonical a \<longrightarrow> virt_addr_new X a = Inr a) \<and>
     (\<forall>a. \<not> canonical a \<longrightarrow> (\<exists>e. virt_addr_new X a = Inl e)) \<and>
     (\<forall>a b. if unat a + unat b < 2 ^ 64 \<and> canonical (a + b) then virt_addr_add X a b = Inr (a + b)
            else (\<exists>e. virt_addr_add X a b = Inl e)) \<and>
     (\<forall>a b. if b \<le> a \<and> canonical (a - b) then virt_addr_sub X a b = Inr (a - b)
            else (\<exists>e. virt_addr_sub X a b = Inl e)) \<and>
     (\<forall>a. unat (page_containing X a) = unat a div 4096 * 4096) \<and>
     (\<forall>s e. 4096 dvd unat s \<and> 4096 dvd unat e \<and> same_half s e \<longrightarrow>
        page_range_inclusive X s e = page_list s (pages_between s e) \<and>
        page_range_size X s e = 4096 * of_nat (pages_between s e))"

text \<open>An instance, to show that the stated behaviour can be had.\<close>

definition x86_ref :: x86_addr where
  "x86_ref =
     \<lparr>phys_addr_new = (\<lambda>a. if unat a < 2 ^ 52 then Inr a else Inl ExternalPanic),
      frame_containing = (\<lambda>a. a AND NOT 4095),
      virt_addr_new = (\<lambda>a. if canonical a then Inr a else Inl ExternalPanic),
      virt_addr_add = (\<lambda>a b. if unat a + unat b < 2 ^ 64 \<and> canonical (a + b)
                             then Inr (a + b) else Inl ExternalPanic),
      virt_addr_sub = (\<lambda>a b. if b \<le> a \<and> canonical (a - b) then Inr (a - b) else Inl ExternalPanic),
      page_containing = (\<lambda>a. a AND NOT 4095),
      page_range_inclusive = (\<lambda>s e. page_list s (pages_between s e)),
      page_range_size = (\<lambda>s e. 4096 * of_nat (pages_between s e))\<rparr>"

lemma unat_and_not_4095: "unat (a AND NOT 4095 :: u64) = unat a div 4096 * 4096"
  using unat_align_down [of 12 a] by simp

lemma x86_ref_ok: "x86_addr_ok x86_ref"
  unfolding x86_addr_ok_def x86_ref_def using unat_and_not_4095 by simp

lemma phys_addr_new_ok: "x86_addr_ok X \<Longrightarrow> unat a < 2 ^ 52 \<Longrightarrow> phys_addr_new X a = Inr a"
  by (simp add: x86_addr_ok_def)

lemma frame_containing_unat:
  "x86_addr_ok X \<Longrightarrow> unat (frame_containing X a) = unat a div 4096 * 4096"
  by (simp add: x86_addr_ok_def)

lemma frame_containing_aligned:
  "x86_addr_ok X \<Longrightarrow> 4096 dvd unat a \<Longrightarrow> frame_containing X a = a"
  by (simp add: word_unat_eq_iff frame_containing_unat)

lemma virt_addr_new_ok: "x86_addr_ok X \<Longrightarrow> canonical a \<Longrightarrow> virt_addr_new X a = Inr a"
  by (simp add: x86_addr_ok_def)

lemma virt_addr_new_panics: "x86_addr_ok X \<Longrightarrow> \<not> canonical a \<Longrightarrow> \<exists>e. virt_addr_new X a = Inl e"
  by (simp add: x86_addr_ok_def)

lemma virt_addr_new_Inr: "x86_addr_ok X \<Longrightarrow> virt_addr_new X a = Inr b \<Longrightarrow> b = a \<and> canonical a"
  using virt_addr_new_ok [of X a] virt_addr_new_panics [of X a] by (cases "canonical a") auto

lemma virt_addr_add_ok:
  "x86_addr_ok X \<Longrightarrow> unat a + unat b < 2 ^ 64 \<Longrightarrow> canonical (a + b) \<Longrightarrow>
    virt_addr_add X a b = Inr (a + b)"
  unfolding x86_addr_ok_def by presburger

lemma virt_addr_add_panics:
  "x86_addr_ok X \<Longrightarrow> \<not> (unat a + unat b < 2 ^ 64 \<and> canonical (a + b)) \<Longrightarrow>
    \<exists>e. virt_addr_add X a b = Inl e"
  unfolding x86_addr_ok_def by presburger

lemma virt_addr_sub_ok:
  "x86_addr_ok X \<Longrightarrow> b \<le> a \<Longrightarrow> canonical (a - b) \<Longrightarrow> virt_addr_sub X a b = Inr (a - b)"
  unfolding x86_addr_ok_def by presburger

lemma page_containing_unat:
  "x86_addr_ok X \<Longrightarrow> unat (page_containing X a) = unat a div 4096 * 4096"
  by (simp add: x86_addr_ok_def)

lemma page_range_ok:
  assumes "x86_addr_ok X" "4096 dvd unat s" "4096 dvd unat e" "same_half s e"
  shows "page_range_inclusive X s e = page_list s (pages_between s e)"
    "page_range_size X s e = 4096 * of_nat (pages_between s e)"
  using assms by (simp_all add: x86_addr_ok_def)

lemma length_page_list [simp]: "length (page_list s n) = n"
  by (simp add: page_list_def)

end
