(* ===== verification/Frame_Allocator.thy ===== *)
theory Frame_Allocator
  imports X86_Addr
begin

text \<open>
  Physical memory: \<open>kernel/src/memory.rs\<close>. Two frame allocators over the boot loader's memory map:
  \<open>BootInfoFrameAllocator\<close>, which counts through the usable frames, and \<open>BitmapAllocator\<close>, which
  takes over from it and can take frames back. Both are interpretations of the locale
  \<open>frame_source\<close>, the interface \<open>FrameAllocator\<close> the mapping code relies on; the bitmap allocator is
  also one of \<open>frame_pool\<close>, which adds \<open>FrameDeallocator\<close>. The bit vector of the crate \<open>bitvec\<close> is
  a parameter.
\<close>

section \<open>The memory map\<close>

text \<open>The types \<open>MemoryRegionKind\<close> and \<open>MemoryRegion\<close> of the crate \<open>bootloader_api\<close>.\<close>

datatype memory_region_kind = Usable | Bootloader | UnknownUefi u32 | UnknownBios u32

record memory_region =
  region_start :: u64
  region_end :: u64
  region_kind :: memory_region_kind

type_synonym memory_regions = "memory_region list"

text \<open>\<open>(start..end).step_by(4096)\<close> on \<open>u64\<close>.\<close>

definition step_by_4096 :: "u64 \<Rightarrow> u64 \<Rightarrow> u64 list" where
  "step_by_4096 s e = page_list s ((unat e - unat s + 4095) div 4096)"

definition frame_addresses :: "memory_regions \<Rightarrow> u64 list" where
  "frame_addresses mm =
     concat (map (\<lambda>r. step_by_4096 (region_start r) (region_end r))
       (filter (\<lambda>r. region_kind r = Usable) mm))"

text \<open>
  The iterator \<open>usable_frames\<close>: its closure may panic, and an adapter that skips an element still
  runs the closure on it, so the iterator is the list of the closure's results and \<open>nth\<close>, \<open>count\<close>
  and \<open>find_map\<close> stop at the first panic they meet.
\<close>

definition usable_frames :: "x86_addr \<Rightarrow> memory_regions \<Rightarrow> u64 res list" where
  "usable_frames X mm =
     map (\<lambda>addr. rbind (phys_addr_new X addr) (\<lambda>a. Inr (frame_containing X a))) (frame_addresses mm)"

fun iter_nth :: "'a res list \<Rightarrow> nat \<Rightarrow> 'a option res" where
  "iter_nth [] n = Inr None"
| "iter_nth (x # xs) n =
     rbind x (\<lambda>v. case n of 0 \<Rightarrow> Inr (Some v) | Suc m \<Rightarrow> iter_nth xs m)"

fun iter_count :: "'a res list \<Rightarrow> nat res" where
  "iter_count [] = Inr 0"
| "iter_count (x # xs) = rbind x (\<lambda>_. rbind (iter_count xs) (\<lambda>n. Inr (Suc n)))"

fun iter_position :: "'a res list \<Rightarrow> 'a \<Rightarrow> nat \<Rightarrow> nat option res" where
  "iter_position [] f i = Inr None"
| "iter_position (x # xs) f i =
     rbind x (\<lambda>v. if v = f then Inr (Some i) else iter_position xs f (Suc i))"

section \<open>BootInfoFrameAllocator\<close>

record boot_allocator =
  boot_memory_map :: memory_regions
  boot_next :: usize

definition boot_init :: "memory_regions \<Rightarrow> boot_allocator" where
  "boot_init mm = \<lparr>boot_memory_map = mm, boot_next = 0\<rparr>"

definition boot_frames :: "x86_addr \<Rightarrow> boot_allocator \<Rightarrow> nat res" where
  "boot_frames X s = iter_count (usable_frames X (boot_memory_map s))"

definition boot_allocate_frame ::
  "x86_addr \<Rightarrow> boot_allocator \<Rightarrow> (u64 option \<times> boot_allocator) res" where
  "boot_allocate_frame X s =
     rbind (iter_nth (usable_frames X (boot_memory_map s)) (unat (boot_next s))) (\<lambda>frame.
     rbind (add_chk (boot_next s) 1) (\<lambda>n.
       Inr (frame, s\<lparr>boot_next := n\<rparr>)))"

definition boot_deallocate_frame :: "boot_allocator \<Rightarrow> u64 \<Rightarrow> boot_allocator res" where
  "boot_deallocate_frame s frame = Inl (PanicMsg ''Cant deallocate frame using this allocator'')"

section \<open>BitmapAllocator\<close>

text \<open>The operations of \<open>BitVec<u8, Lsb0>\<close> that the allocator calls, and what they promise.\<close>

record 'b bitvec =
  bv_repeat :: "bool \<Rightarrow> nat \<Rightarrow> 'b"
  bv_set :: "'b \<Rightarrow> nat \<Rightarrow> bool \<Rightarrow> 'b res"
  bv_first_zero :: "'b \<Rightarrow> nat option"

fun first_false :: "bool list \<Rightarrow> nat option" where
  "first_false [] = None"
| "first_false (b # bs) = (if b then map_option Suc (first_false bs) else Some 0)"

definition bitvec_ok :: "'b bitvec \<Rightarrow> ('b \<Rightarrow> bool list) \<Rightarrow> bool" where
  "bitvec_ok B bits \<longleftrightarrow>
     (\<forall>v n. bits (bv_repeat B v n) = replicate n v) \<and>
     (\<forall>b i v. i < length (bits b) \<longrightarrow>
        (\<exists>b'. bv_set B b i v = Inr b' \<and> bits b' = (bits b)[i := v])) \<and>
     (\<forall>b i v. length (bits b) \<le> i \<longrightarrow> (\<exists>e. bv_set B b i v = Inl e)) \<and>
     (\<forall>b. bv_first_zero B b = first_false (bits b))"

definition bitvec_ref :: "bool list bitvec" where
  "bitvec_ref =
     \<lparr>bv_repeat = (\<lambda>v n. replicate n v),
      bv_set = (\<lambda>b i v. if i < length b then Inr (b[i := v]) else Inl IndexOutOfBounds),
      bv_first_zero = first_false\<rparr>"

record 'b bitmap_allocator =
  bm_memory_map :: memory_regions
  bm_bitmap :: 'b

fun bitmap_mark :: "'b bitvec \<Rightarrow> 'b \<Rightarrow> nat list \<Rightarrow> 'b res" where
  "bitmap_mark B b [] = Inr b"
| "bitmap_mark B b (i # is) = rbind (bv_set B b i True) (\<lambda>b'. bitmap_mark B b' is)"

definition bitmap_init ::
  "x86_addr \<Rightarrow> 'b bitvec \<Rightarrow> boot_allocator \<Rightarrow> 'b bitmap_allocator res" where
  "bitmap_init X B old =
     rbind (boot_frames X old) (\<lambda>bitmap_len.
     rbind (bitmap_mark B (bv_repeat B False bitmap_len) [0..<unat (boot_next old)]) (\<lambda>bitvec.
       Inr \<lparr>bm_memory_map = boot_memory_map old, bm_bitmap = bitvec\<rparr>))"

definition bitmap_allocate_frame ::
  "x86_addr \<Rightarrow> 'b bitvec \<Rightarrow> 'b bitmap_allocator \<Rightarrow> (u64 option \<times> 'b bitmap_allocator) res" where
  "bitmap_allocate_frame X B s =
     (case bv_first_zero B (bm_bitmap s) of
        None \<Rightarrow> Inr (None, s)
      | Some index \<Rightarrow>
          rbind (bv_set B (bm_bitmap s) index True) (\<lambda>b.
          rbind (iter_nth (usable_frames X (bm_memory_map s)) index) (\<lambda>frame.
            Inr (frame, s\<lparr>bm_bitmap := b\<rparr>))))"

definition bitmap_deallocate_frame ::
  "x86_addr \<Rightarrow> 'b bitvec \<Rightarrow> 'b bitmap_allocator \<Rightarrow> u64 \<Rightarrow> 'b bitmap_allocator res" where
  "bitmap_deallocate_frame X B s frame =
     rbind (iter_position (usable_frames X (bm_memory_map s)) frame 0) (\<lambda>found.
     rbind (runwrap (Expect ''Frame not in memory_map'') found) (\<lambda>index.
     rbind (bv_set B (bm_bitmap s) index False) (\<lambda>b.
       Inr (s\<lparr>bm_bitmap := b\<rparr>))))"

section \<open>Well-formed memory maps and the free frames\<close>

text \<open>
  A memory map the allocators handle as meant: usable regions are page aligned, lie below the
  52-bit physical limit, and do not overlap. The free frames of both allocators, in the order in
  which they will be handed out, are the abstraction.
\<close>

definition usable_regions :: "memory_regions \<Rightarrow> memory_regions" where
  "usable_regions mm = filter (\<lambda>r. region_kind r = Usable) mm"

definition region_block :: "memory_region \<Rightarrow> block" where
  "region_block r = (unat (region_start r), unat (region_end r) - unat (region_start r))"

definition region_ok :: "memory_region \<Rightarrow> bool" where
  "region_ok r \<longleftrightarrow>
     4096 dvd unat (region_start r) \<and> 4096 dvd unat (region_end r) \<and>
     region_start r \<le> region_end r \<and> unat (region_end r) \<le> 2 ^ 52"

definition mm_ok :: "memory_regions \<Rightarrow> bool" where
  "mm_ok mm \<longleftrightarrow> list_all region_ok (usable_regions mm) \<and> apart (map region_block (usable_regions mm))"

definition boot_free :: "boot_allocator \<Rightarrow> u64 list" where
  "boot_free s = drop (unat (boot_next s)) (frame_addresses (boot_memory_map s))"

definition boot_inv :: "x86_addr \<Rightarrow> boot_allocator \<Rightarrow> bool" where
  "boot_inv X s \<longleftrightarrow>
     x86_addr_ok X \<and> mm_ok (boot_memory_map s) \<and>
     unat (boot_next s) \<le> length (frame_addresses (boot_memory_map s))"

definition zeros :: "bool list \<Rightarrow> 'a list \<Rightarrow> 'a list" where
  "zeros bs fs = map snd (filter (\<lambda>(b, f). \<not> b) (zip bs fs))"

definition bitmap_free :: "('b \<Rightarrow> bool list) \<Rightarrow> 'b bitmap_allocator \<Rightarrow> u64 list" where
  "bitmap_free bits s = zeros (bits (bm_bitmap s)) (frame_addresses (bm_memory_map s))"

definition bitmap_inv ::
  "x86_addr \<Rightarrow> 'b bitvec \<Rightarrow> ('b \<Rightarrow> bool list) \<Rightarrow> 'b bitmap_allocator \<Rightarrow> bool" where
  "bitmap_inv X B bits s \<longleftrightarrow>
     x86_addr_ok X \<and> bitvec_ok B bits \<and> mm_ok (bm_memory_map s) \<and>
     length (bits (bm_bitmap s)) = length (frame_addresses (bm_memory_map s))"

text \<open>Successive calls of \<open>allocate_frame\<close>, stopping at the first \<^term>\<open>None\<close>.\<close>

fun allocate_frames :: "('s \<Rightarrow> (u64 option \<times> 's) res) \<Rightarrow> nat \<Rightarrow> 's \<Rightarrow> (u64 list \<times> 's) res" where
  "allocate_frames alloc 0 s = Inr ([], s)"
| "allocate_frames alloc (Suc n) s =
     rbind (alloc s) (\<lambda>(frame, s').
       case frame of
         None \<Rightarrow> Inr ([], s')
       | Some f \<Rightarrow> rbind (allocate_frames alloc n s') (\<lambda>(fs, s''). Inr (f # fs, s'')))"

text \<open>A client that takes frames and gives them back, with the frames it holds.\<close>

datatype frame_op = Take | Return nat

fun run_frames ::
  "('s \<Rightarrow> (u64 option \<times> 's) res) \<Rightarrow> ('s \<Rightarrow> u64 \<Rightarrow> 's res) \<Rightarrow> frame_op list \<Rightarrow>
   's \<Rightarrow> u64 list \<Rightarrow> ('s \<times> u64 list) res" where
  "run_frames al de [] s held = Inr (s, held)"
| "run_frames al de (Take # ops) s held =
     rbind (al s) (\<lambda>(frame, s').
       run_frames al de ops s' (case frame of None \<Rightarrow> held | Some f \<Rightarrow> f # held))"
| "run_frames al de (Return i # ops) s held =
     (if i < length held then
        rbind (de s (held ! i)) (\<lambda>s'. run_frames al de ops s' (take i held @ drop (Suc i) held))
      else run_frames al de ops s held)"

section \<open>Frames of a well-formed memory map\<close>

lemma unat_page:
  "unat s + 4096 * i < 2 ^ 64 \<Longrightarrow> unat (s + 4096 * of_nat i :: u64) = unat s + 4096 * i"
proof -
  assume b: "unat s + 4096 * i < 2 ^ 64"
  have "unat (4096 * of_nat i :: u64) = 4096 * i"
  proof -
    have "unat (of_nat (4096 * i) :: u64) = 4096 * i"
      using b by (simp only: unsigned_of_nat of_nat_id) (simp add: take_bit_nat_eq_self)
    then show ?thesis by simp
  qed
  then show ?thesis using b by (simp add: unat_add_noovf)
qed

lemma page_list_unat:
  "unat s + 4096 * n \<le> 2 ^ 64 \<Longrightarrow> map unat (page_list s n) = map (\<lambda>i. unat s + 4096 * i) [0..<n]"
  by (auto simp: page_list_def intro!: unat_page)

lemma step_by_unat:
  assumes "region_ok r"
  shows "map unat (step_by_4096 (region_start r) (region_end r)) =
    map (\<lambda>i. unat (region_start r) + 4096 * i) [0..<snd (region_block r) div 4096]"
proof -
  have "4096 dvd unat (region_end r) - unat (region_start r)"
    using assms by (simp add: region_ok_def)
  then obtain m where m: "unat (region_end r) - unat (region_start r) = 4096 * m"
    by (rule dvdE)
  have "unat (region_start r) + 4096 * m \<le> 2 ^ 52"
    using m assms by (auto simp: region_ok_def word_le_nat_alt)
  then show ?thesis
    using m page_list_unat [of "region_start r" m]
    by (simp add: step_by_4096_def region_block_def)
qed

lemma step_by_in_region:
  assumes "region_ok r" "a \<in> set (step_by_4096 (region_start r) (region_end r))"
  shows "unat a \<in> range_of (region_block r)" "4096 dvd unat a" "unat a < 2 ^ 52"
proof -
  have "unat a \<in> set (map unat (step_by_4096 (region_start r) (region_end r)))"
    using assms(2) by simp
  then obtain i where i: "i < snd (region_block r) div 4096" "unat a = unat (region_start r) + 4096 * i"
    unfolding step_by_unat [OF assms(1)] by auto
  then show "unat a \<in> range_of (region_block r)" by (auto simp: range_of_def region_block_def)
  then show "unat a < 2 ^ 52" using assms(1) by (auto simp: range_of_def region_block_def region_ok_def)
  show "4096 dvd unat a" using assms(1) i(2) by (simp add: region_ok_def)
qed

lemma step_by_distinct:
  assumes "region_ok r" shows "distinct (step_by_4096 (region_start r) (region_end r))"
proof -
  have "distinct (map unat (step_by_4096 (region_start r) (region_end r)))"
    unfolding step_by_unat [OF assms] by (simp add: distinct_map inj_on_def)
  then show ?thesis by (simp add: distinct_map)
qed

lemma concat_step_by:
  assumes "list_all region_ok rs" "apart (map region_block rs)"
  shows "distinct (concat (map (\<lambda>r. step_by_4096 (region_start r) (region_end r)) rs))"
  using assms
proof (induction rs)
  case Nil
  then show ?case by simp
next
  case (Cons r rs)
  have "set (step_by_4096 (region_start r) (region_end r)) \<inter>
      set (step_by_4096 (region_start q) (region_end q)) = {}" if q: "q \<in> set rs" for q
  proof -
    have "range_of (region_block r) \<inter> range_of (region_block q) = {}"
      using Cons.prems(2) q by (intro disjoint_blocks_ranges) (auto simp: list_all_iff)
    moreover have "region_ok r" "region_ok q" using Cons.prems(1) q by (auto simp: list_all_iff)
    ultimately show ?thesis using step_by_in_region(1) by blast
  qed
  then show ?case using Cons step_by_distinct [of r] by auto
qed

lemma frame_addresses_eq:
  "frame_addresses mm =
    concat (map (\<lambda>r. step_by_4096 (region_start r) (region_end r)) (usable_regions mm))"
  by (simp add: frame_addresses_def usable_regions_def)

lemma frame_addresses_distinct: "mm_ok mm \<Longrightarrow> distinct (frame_addresses mm)"
  unfolding frame_addresses_eq mm_ok_def by (intro concat_step_by) auto

lemma frame_address_usable:
  assumes "mm_ok mm" "a \<in> set (frame_addresses mm)"
  obtains r where "r \<in> set mm" "region_kind r = Usable" "unat a \<in> range_of (region_block r)"
    "4096 dvd unat a" "unat a < 2 ^ 52"
proof -
  obtain r where r: "r \<in> set (usable_regions mm)"
    "a \<in> set (step_by_4096 (region_start r) (region_end r))"
    using assms(2) by (auto simp: frame_addresses_eq)
  moreover have "region_ok r" using assms(1) r(1) by (auto simp: mm_ok_def list_all_iff)
  ultimately show ?thesis using that step_by_in_region by (auto simp: usable_regions_def)
qed

lemma length_frame_addresses:
  assumes "mm_ok mm" shows "length (frame_addresses mm) \<le> 2 ^ 52"
proof -
  have "unat ` set (frame_addresses mm) \<subseteq> {..<2 ^ 52}"
    using frame_address_usable [OF assms] by blast
  then have "card (unat ` set (frame_addresses mm)) \<le> 2 ^ 52"
    using card_mono [of "{..<2 ^ 52 :: nat}"] by simp
  moreover have "card (unat ` set (frame_addresses mm)) = length (frame_addresses mm)"
    using frame_addresses_distinct [OF assms] by (subst card_image) (auto simp: inj_on_def word_unat_eq_iff distinct_card)
  ultimately show ?thesis by simp
qed

lemma usable_frames_ok:
  assumes "x86_addr_ok X" "mm_ok mm"
  shows "usable_frames X mm = map Inr (frame_addresses mm)"
  unfolding usable_frames_def
proof (rule map_cong [OF refl])
  fix a assume "a \<in> set (frame_addresses mm)"
  then have "4096 dvd unat a" "unat a < 2 ^ 52"
    using frame_address_usable [OF assms(2)] by blast+
  then show "rbind (phys_addr_new X a) (\<lambda>a. Inr (frame_containing X a)) = Inr a"
    using assms(1) by (simp add: phys_addr_new_ok frame_containing_aligned)
qed

section \<open>Iterators without panics\<close>

lemma iter_nth_map [simp]:
  "iter_nth (map Inr xs) n = Inr (if n < length xs then Some (xs ! n) else None)"
  by (induction xs arbitrary: n) (auto split: nat.splits)

lemma iter_count_map [simp]: "iter_count (map Inr xs) = Inr (length xs)"
  by (induction xs) auto

lemma iter_position_map:
  "distinct xs \<Longrightarrow> j < length xs \<Longrightarrow> iter_position (map Inr xs) (xs ! j) i = Inr (Some (i + j))"
proof (induction xs arbitrary: i j)
  case Nil
  then show ?case by simp
next
  case (Cons x xs)
  then show ?case by (cases j) (auto simp: nth_mem)
qed

lemma iter_position_none:
  "f \<notin> set xs \<Longrightarrow> iter_position (map Inr xs) f i = Inr None"
  by (induction xs arbitrary: i) auto

section \<open>Bit vectors\<close>

lemma zeros_simps [simp]:
  "zeros [] fs = []" "zeros bs [] = []"
  "zeros (b # bs) (f # fs) = (if b then zeros bs fs else f # zeros bs fs)"
  by (simp_all add: zeros_def)

lemma zeros_first:
  "length bs = length fs \<Longrightarrow>
    zeros bs fs =
      (case first_false bs of None \<Rightarrow> [] | Some i \<Rightarrow> fs ! i # zeros (bs[i := True]) fs)"
proof (induction bs arbitrary: fs)
  case Nil
  then show ?case by simp
next
  case (Cons b bs)
  then show ?case by (cases fs) (auto split: option.splits)
qed

lemma first_false_length: "first_false bs = Some i \<Longrightarrow> i < length bs"
  by (induction bs arbitrary: i) (auto split: if_splits)

lemma set_zeros:
  "length bs = length fs \<Longrightarrow> set (zeros bs fs) = {fs ! i |i. i < length fs \<and> \<not> bs ! i}"
  unfolding zeros_def by (force simp: set_zip)

lemma distinct_zeros: "distinct fs \<Longrightarrow> distinct (zeros bs fs)"
proof (induction bs arbitrary: fs)
  case Nil
  then show ?case by simp
next
  case (Cons b bs)
  have "set (zeros bs gs) \<subseteq> set gs" for gs :: "'a list"
    by (auto simp: zeros_def dest: set_zip_rightD)
  with Cons show ?case by (cases fs) auto
qed

lemma zeros_take_true:
  "n \<le> length fs \<Longrightarrow> zeros (replicate n True @ replicate (length fs - n) False) fs = drop n fs"
proof (induction n arbitrary: fs)
  case 0
  have "zeros (replicate (length fs) False) fs = fs" for fs :: "'a list"
    by (induction fs) auto
  then show ?case by simp
next
  case (Suc n)
  then show ?case by (cases fs) auto
qed

lemma bitvec_set_ok:
  "bitvec_ok B bits \<Longrightarrow> i < length (bits b) \<Longrightarrow>
    \<exists>b'. bv_set B b i v = Inr b' \<and> bits b' = (bits b)[i := v]"
  by (simp add: bitvec_ok_def)

lemma bitvec_set_panics:
  "bitvec_ok B bits \<Longrightarrow> length (bits b) \<le> i \<Longrightarrow> \<exists>e. bv_set B b i v = Inl e"
  by (simp add: bitvec_ok_def)

lemma bitvec_first_zero: "bitvec_ok B bits \<Longrightarrow> bv_first_zero B b = first_false (bits b)"
  by (simp add: bitvec_ok_def)

lemma bitvec_ref_ok: "bitvec_ok bitvec_ref (\<lambda>b. b)"
  by (simp add: bitvec_ok_def bitvec_ref_def)

lemma bitmap_mark_append:
  "bitmap_mark B b (xs @ ys) = rbind (bitmap_mark B b xs) (\<lambda>b'. bitmap_mark B b' ys)"
  by (induction xs arbitrary: b) (auto simp: rbind_assoc)

lemma bitmap_mark_ok:
  assumes "bitvec_ok B bits"
  shows "n \<le> length (bits b) \<Longrightarrow>
    \<exists>b'. bitmap_mark B b [0..<n] = Inr b' \<and> bits b' = replicate n True @ drop n (bits b)"
proof (induction n)
  case 0
  then show ?case by simp
next
  case (Suc n)
  then obtain b1 where b1: "bitmap_mark B b [0..<n] = Inr b1"
    "bits b1 = replicate n True @ drop n (bits b)" by auto
  then have "n < length (bits b1)" using Suc.prems by simp
  from bitvec_set_ok [OF assms this] obtain b2 where
    "bv_set B b1 n True = Inr b2" "bits b2 = (bits b1)[n := True]" by blast
  moreover have "(bits b1)[n := True] = replicate (Suc n) True @ drop (Suc n) (bits b)"
    using b1(2) Suc.prems
    by (simp add: list_update_append Cons_nth_drop_Suc [symmetric] replicate_append_same
        del: replicate.simps) (simp add: replicate_append_same [symmetric])
  ultimately show ?case using b1(1) by (simp add: bitmap_mark_append)
qed

lemma bitmap_mark_panics:
  assumes "bitvec_ok B bits" "length (bits b) < n"
  shows "\<exists>e. bitmap_mark B b [0..<n] = Inl e"
proof -
  let ?l = "length (bits b)"
  obtain b1 where b1: "bitmap_mark B b [0..<?l] = Inr b1" "bits b1 = replicate ?l True @ drop ?l (bits b)"
    using bitmap_mark_ok [OF assms(1), of ?l b] by auto
  have "[0..<n] = [0..<?l] @ ?l # [Suc ?l..<n]"
    using assms(2) by (metis le0 less_imp_le_nat upt_add_eq_append upt_conv_Cons le_add_diff_inverse)
  moreover obtain e where "bv_set B b1 ?l True = Inl e"
    using bitvec_set_panics [OF assms(1), of b1 ?l] b1(2) by auto
  ultimately show ?thesis using b1(1) by (simp add: bitmap_mark_append)
qed

section \<open>The interface of a frame allocator\<close>

locale frame_source =
  fixes allocate :: "'s \<Rightarrow> (u64 option \<times> 's) res"
    and free :: "'s \<Rightarrow> u64 list"
    and inv :: "'s \<Rightarrow> bool"
  assumes allocate_some: "inv s \<Longrightarrow> free s = f # fs \<Longrightarrow>
      \<exists>s'. allocate s = Inr (Some f, s') \<and> free s' = fs \<and> inv s'"
    and allocate_none: "inv s \<Longrightarrow> free s = [] \<Longrightarrow> \<exists>s'. allocate s = Inr (None, s')"
    and free_distinct: "inv s \<Longrightarrow> distinct (free s)"
begin

lemma allocate_frames_take:
  "inv s \<Longrightarrow> n \<le> length (free s) \<Longrightarrow>
    \<exists>s'. allocate_frames allocate n s = Inr (take n (free s), s') \<and>
      free s' = drop n (free s) \<and> inv s'"
proof (induction n arbitrary: s)
  case 0
  then show ?case by simp
next
  case (Suc n)
  then obtain f fs where f: "free s = f # fs" by (cases "free s") auto
  then obtain s' where s': "allocate s = Inr (Some f, s')" "free s' = fs" "inv s'"
    using allocate_some Suc.prems(1) by blast
  then have "n \<le> length (free s')" using Suc.prems(2) f by simp
  from Suc.IH [OF s'(3) this] show ?case using s' f by auto
qed

lemma allocate_result:
  assumes "inv s" "allocate s = Inr (Some f, s')"
  shows "free s = f # free s'" "inv s'"
  using assms allocate_some [OF assms(1)] allocate_none [OF assms(1)]
  by (cases "free s"; fastforce)+

end

locale frame_pool = frame_source allocate free inv
  for allocate :: "'s \<Rightarrow> (u64 option \<times> 's) res" and free and inv +
  fixes deallocate :: "'s \<Rightarrow> u64 \<Rightarrow> 's res"
    and frames :: "'s \<Rightarrow> u64 list"
  assumes deallocate_ok: "inv s \<Longrightarrow> f \<in> set (frames s) \<Longrightarrow>
      \<exists>s'. deallocate s f = Inr s' \<and> set (free s') = insert f (set (free s)) \<and>
        frames s' = frames s \<and> inv s'"
    and deallocate_unknown: "inv s \<Longrightarrow> f \<notin> set (frames s) \<Longrightarrow> \<exists>e. deallocate s f = Inl e"
    and allocate_frame_set: "allocate s = Inr (r, s') \<Longrightarrow> frames s' = frames s"
    and allocate_none_id: "inv s \<Longrightarrow> allocate s = Inr (None, s') \<Longrightarrow> s' = s"
    and free_frames: "inv s \<Longrightarrow> set (free s) \<subseteq> set (frames s)"
begin

definition holding :: "'s \<Rightarrow> u64 list \<Rightarrow> bool" where
  "holding s held \<longleftrightarrow> inv s \<and> distinct held \<and> set held \<subseteq> set (frames s) \<and>
     set held \<inter> set (free s) = {}"

lemma take_step:
  assumes "holding s held"
  obtains r s' where "allocate s = Inr (r, s')" "frames s' = frames s"
    "holding s' (case r of None \<Rightarrow> held | Some f \<Rightarrow> f # held)"
proof (cases "free s")
  case Nil
  have i: "inv s" using assms by (simp add: holding_def)
  obtain s' where s': "allocate s = Inr (None, s')" using allocate_none [OF i Nil] by blast
  then show ?thesis using that [OF s'] allocate_none_id [OF i s'] assms by simp
next
  case (Cons f fs)
  have i: "inv s" using assms by (simp add: holding_def)
  obtain s' where s': "allocate s = Inr (Some f, s')" "free s' = fs" "inv s'"
    using allocate_some [OF i Cons] by blast
  have fr: "frames s' = frames s" by (rule allocate_frame_set [OF s'(1)])
  have "f \<notin> set fs" using free_distinct [OF i] Cons by simp
  then have "holding s' (f # held)"
    using assms s' fr Cons free_frames [OF i] by (auto simp: holding_def)
  then show ?thesis using that [OF s'(1) fr] by simp
qed

lemma return_step:
  assumes "holding s held" "i < length held"
  obtains s' where "deallocate s (held ! i) = Inr s'" "frames s' = frames s"
    "holding s' (take i held @ drop (Suc i) held)"
proof -
  have h: "held = take i held @ held ! i # drop (Suc i) held"
    using assms(2) by (rule id_take_nth_drop)
  have "inv s" "held ! i \<in> set (frames s)" using assms by (auto simp: holding_def)
  then obtain s' where s': "deallocate s (held ! i) = Inr s'"
    "set (free s') = insert (held ! i) (set (free s))" "frames s' = frames s" "inv s'"
    using deallocate_ok by blast
  have d: "distinct (take i held @ held ! i # drop (Suc i) held)"
    using assms(1) h by (simp add: holding_def)
  have sub: "set (take i held @ drop (Suc i) held) \<subseteq> set held"
    using set_take_subset set_drop_subset by fastforce
  have "held ! i \<notin> set (take i held @ drop (Suc i) held)" using d by simp
  then have "holding s' (take i held @ drop (Suc i) held)"
    using assms(1) s' d sub by (auto simp: holding_def)
  then show ?thesis using that s' by blast
qed

lemma run_frames_holding:
  "holding s held \<Longrightarrow> \<exists>s' held'. run_frames allocate deallocate ops s held = Inr (s', held') \<and>
    frames s' = frames s \<and> holding s' held'"
proof (induction ops arbitrary: s held)
  case Nil
  then show ?case by simp
next
  case (Cons x ops)
  show ?case
  proof (cases x)
    case Take
    obtain r s' where s': "allocate s = Inr (r, s')" "frames s' = frames s"
      "holding s' (case r of None \<Rightarrow> held | Some f \<Rightarrow> f # held)"
      by (rule take_step [OF Cons.prems])
    from Cons.IH [OF s'(3)] show ?thesis using Take s' by auto
  next
    case (Return i)
    show ?thesis
    proof (cases "i < length held")
      case True
      obtain s' where s': "deallocate s (held ! i) = Inr s'" "frames s' = frames s"
        "holding s' (take i held @ drop (Suc i) held)"
        by (rule return_step [OF Cons.prems True])
      from Cons.IH [OF s'(3)] show ?thesis using Return True s' by auto
    next
      case False
      then show ?thesis using Return Cons by simp
    qed
  qed
qed

end

lemma first_false_nth: "first_false bs = Some i \<Longrightarrow> \<not> bs ! i"
  by (induction bs arbitrary: i) (auto split: if_splits)

section \<open>Both allocators provide the interface\<close>

interpretation boot: frame_source "boot_allocate_frame X" boot_free "boot_inv X" for X
proof
  show "\<exists>s'. boot_allocate_frame X s = Inr (Some f, s') \<and> boot_free s' = fs \<and> boot_inv X s'"
    if "boot_inv X s" "boot_free s = f # fs" for s f fs
  proof -
    let ?fa = "frame_addresses (boot_memory_map s)" and ?n = "unat (boot_next s)"
    have inv: "x86_addr_ok X" "mm_ok (boot_memory_map s)" using that(1) by (simp_all add: boot_inv_def)
    have n: "?n < length ?fa" using that(2) by (metis boot_free_def drop_all leI list.distinct(1))
    have f: "?fa ! ?n = f" "drop (Suc ?n) ?fa = fs"
      using that(2) n by (metis boot_free_def Cons_nth_drop_Suc list.inject)+
    have le: "?n + 1 < 2 ^ 64" using n length_frame_addresses [OF inv(2)] by simp
    then have u: "unat (boot_next s + 1) = Suc ?n" by (simp add: unat_add_noovf)
    have "boot_allocate_frame X s = Inr (Some f, s\<lparr>boot_next := boot_next s + 1\<rparr>)"
      using inv n f le by (simp add: boot_allocate_frame_def usable_frames_ok add_chk_ok)
    then show ?thesis using that(1) u f n by (auto simp: boot_free_def boot_inv_def)
  qed
  show "\<exists>s'. boot_allocate_frame X s = Inr (None, s')"
    if "boot_inv X s" "boot_free s = []" for s
  proof -
    have inv: "x86_addr_ok X" "mm_ok (boot_memory_map s)"
      "unat (boot_next s) = length (frame_addresses (boot_memory_map s))"
      using that by (simp_all add: boot_inv_def boot_free_def)
    then have "unat (boot_next s) + 1 < 2 ^ 64" using length_frame_addresses [OF inv(2)] by simp
    then show ?thesis using inv by (simp add: boot_allocate_frame_def usable_frames_ok add_chk_ok)
  qed
  show "distinct (boot_free s)" if "boot_inv X s" for s
    using that by (simp add: boot_inv_def boot_free_def frame_addresses_distinct)
qed

lemma bitmap_allocate_cases:
  assumes inv: "bitmap_inv X B bits s"
  shows "(case first_false (bits (bm_bitmap s)) of
      None \<Rightarrow> bitmap_allocate_frame X B s = Inr (None, s) \<and> bitmap_free bits s = []
    | Some i \<Rightarrow> i < length (frame_addresses (bm_memory_map s)) \<and>
        (\<exists>b. bits b = (bits (bm_bitmap s))[i := True] \<and>
          bitmap_allocate_frame X B s =
            Inr (Some (frame_addresses (bm_memory_map s) ! i), s\<lparr>bm_bitmap := b\<rparr>) \<and>
          bitmap_free bits s =
            frame_addresses (bm_memory_map s) ! i # bitmap_free bits (s\<lparr>bm_bitmap := b\<rparr>)))"
proof -
  have i: "x86_addr_ok X" "bitvec_ok B bits" "mm_ok (bm_memory_map s)"
    "length (bits (bm_bitmap s)) = length (frame_addresses (bm_memory_map s))"
    using inv by (simp_all add: bitmap_inv_def)
  note z = zeros_first [OF i(4)] bitvec_first_zero [OF i(2), of "bm_bitmap s"]
  show ?thesis
  proof (cases "first_false (bits (bm_bitmap s))")
    case None
    then show ?thesis using z by (simp add: bitmap_allocate_frame_def bitmap_free_def)
  next
    case (Some k)
    have k: "k < length (bits (bm_bitmap s))" by (rule first_false_length [OF Some])
    obtain b where "bv_set B (bm_bitmap s) k True = Inr b" "bits b = (bits (bm_bitmap s))[k := True]"
      using bitvec_set_ok [OF i(2) k] by blast
    then show ?thesis using Some k i z
      by (auto simp: bitmap_allocate_frame_def bitmap_free_def usable_frames_ok)
  qed
qed

lemma bitmap_allocate_empty:
  assumes "bitmap_inv X B bits s" "bitmap_free bits s = []"
  shows "bitmap_allocate_frame X B s = Inr (None, s)"
proof (cases "first_false (bits (bm_bitmap s))")
  case None
  then show ?thesis using bitmap_allocate_cases [OF assms(1)] by simp
next
  case (Some i)
  then obtain f fs where "bitmap_free bits s = f # fs"
    using bitmap_allocate_cases [OF assms(1)] by auto
  then show ?thesis using assms(2) by simp
qed

lemma bitmap_allocate_none:
  assumes "bitmap_inv X B bits s" "bitmap_allocate_frame X B s = Inr (None, s')"
  shows "s' = s"
proof (cases "first_false (bits (bm_bitmap s))")
  case None
  then show ?thesis using bitmap_allocate_cases [OF assms(1)] assms(2) by simp
next
  case (Some i)
  then obtain f s'' where "bitmap_allocate_frame X B s = Inr (Some f, s'')"
    using bitmap_allocate_cases [OF assms(1)] by auto
  then show ?thesis using assms(2) by simp
qed

lemma bitmap_deallocate_ok:
  assumes inv: "bitmap_inv X B bits s" and j: "j < length (frame_addresses (bm_memory_map s))"
  obtains b where "bits b = (bits (bm_bitmap s))[j := False]"
    "bitmap_deallocate_frame X B s (frame_addresses (bm_memory_map s) ! j) =
       Inr (s\<lparr>bm_bitmap := b\<rparr>)"
proof -
  have i: "x86_addr_ok X" "bitvec_ok B bits" "mm_ok (bm_memory_map s)"
    "length (bits (bm_bitmap s)) = length (frame_addresses (bm_memory_map s))"
    using inv by (simp_all add: bitmap_inv_def)
  obtain b where "bv_set B (bm_bitmap s) j False = Inr b" "bits b = (bits (bm_bitmap s))[j := False]"
    using bitvec_set_ok [OF i(2)] i(4) j by metis
  moreover have "iter_position (map Inr (frame_addresses (bm_memory_map s)))
      (frame_addresses (bm_memory_map s) ! j) 0 = Inr (Some j)"
    using iter_position_map [OF frame_addresses_distinct [OF i(3)] j] by simp
  ultimately show ?thesis
    by (intro that [of b]) (simp_all add: bitmap_deallocate_frame_def usable_frames_ok [OF i(1,3)])
qed

lemma bitmap_deallocate_unknown:
  assumes "bitmap_inv X B bits s" "f \<notin> set (frame_addresses (bm_memory_map s))"
  shows "bitmap_deallocate_frame X B s f = Inl (Expect ''Frame not in memory_map'')"
  using assms by (simp add: bitmap_inv_def bitmap_deallocate_frame_def usable_frames_ok iter_position_none)

lemma bitmap_inv_upd:
  "bitmap_inv X B bits s \<Longrightarrow> length (bits b) = length (bits (bm_bitmap s)) \<Longrightarrow>
    bitmap_inv X B bits (s\<lparr>bm_bitmap := b\<rparr>)"
  by (simp add: bitmap_inv_def)

lemma set_bitmap_free:
  "bitmap_inv X B bits s \<Longrightarrow>
    set (bitmap_free bits s) = {frame_addresses (bm_memory_map s) ! i |i.
      i < length (frame_addresses (bm_memory_map s)) \<and> \<not> bits (bm_bitmap s) ! i}"
  by (simp add: bitmap_free_def bitmap_inv_def set_zeros)

interpretation bitmap: frame_pool "bitmap_allocate_frame X B" "bitmap_free bits"
  "bitmap_inv X B bits" "bitmap_deallocate_frame X B" "\<lambda>s. frame_addresses (bm_memory_map s)"
  for X B bits
proof
  fix s assume inv: "bitmap_inv X B bits s"
  show "\<exists>s'. bitmap_allocate_frame X B s = Inr (Some f, s') \<and> bitmap_free bits s' = fs \<and>
      bitmap_inv X B bits s'" if f: "bitmap_free bits s = f # fs" for f fs
  proof (cases "first_false (bits (bm_bitmap s))")
    case None
    then show ?thesis using bitmap_allocate_cases [OF inv] f by simp
  next
    case (Some i)
    then obtain b where b: "bits b = (bits (bm_bitmap s))[i := True]"
      "bitmap_allocate_frame X B s = Inr (Some f, s\<lparr>bm_bitmap := b\<rparr>)"
      "bitmap_free bits (s\<lparr>bm_bitmap := b\<rparr>) = fs"
      using bitmap_allocate_cases [OF inv] f by auto
    have "bitmap_inv X B bits (s\<lparr>bm_bitmap := b\<rparr>)"
      using b(1) by (intro bitmap_inv_upd [OF inv]) simp
    then show ?thesis using b(2,3) by blast
  qed
  show "\<exists>s'. bitmap_allocate_frame X B s = Inr (None, s')" if "bitmap_free bits s = []"
    using bitmap_allocate_empty [OF inv that] by blast
  show "distinct (bitmap_free bits s)"
    using inv by (simp add: bitmap_free_def bitmap_inv_def distinct_zeros frame_addresses_distinct)
  show "\<exists>s'. bitmap_deallocate_frame X B s f = Inr s' \<and>
      set (bitmap_free bits s') = insert f (set (bitmap_free bits s)) \<and>
      frame_addresses (bm_memory_map s') = frame_addresses (bm_memory_map s) \<and>
      bitmap_inv X B bits s'" if f: "f \<in> set (frame_addresses (bm_memory_map s))" for f
  proof -
    obtain j where j: "j < length (frame_addresses (bm_memory_map s))"
      "f = frame_addresses (bm_memory_map s) ! j"
      using f by (metis in_set_conv_nth)
    obtain b where b: "bits b = (bits (bm_bitmap s))[j := False]"
      "bitmap_deallocate_frame X B s f = Inr (s\<lparr>bm_bitmap := b\<rparr>)"
      using bitmap_deallocate_ok [OF inv j(1)] j(2) by blast
    have inv': "bitmap_inv X B bits (s\<lparr>bm_bitmap := b\<rparr>)"
      using bitmap_inv_upd [OF inv] b(1) by simp
    have "length (bits (bm_bitmap s)) = length (frame_addresses (bm_memory_map s))"
      using inv by (simp add: bitmap_inv_def)
    then have "set (bitmap_free bits (s\<lparr>bm_bitmap := b\<rparr>)) = insert f (set (bitmap_free bits s))"
      unfolding set_bitmap_free [OF inv] set_bitmap_free [OF inv'] using b(1) j
      by (auto simp: nth_list_update split: if_splits)
    then show ?thesis using b(2) inv' by simp
  qed
  show "\<exists>e. bitmap_deallocate_frame X B s f = Inl e"
    if "f \<notin> set (frame_addresses (bm_memory_map s))" for f
    using bitmap_deallocate_unknown [OF inv that] by blast
  show "s' = s" if "bitmap_allocate_frame X B s = Inr (None, s')" for s'
    using bitmap_allocate_none [OF inv that] .
  show "set (bitmap_free bits s) \<subseteq> set (frame_addresses (bm_memory_map s))"
    unfolding set_bitmap_free [OF inv] by auto
next
  show "frame_addresses (bm_memory_map s') = frame_addresses (bm_memory_map s)"
    if "bitmap_allocate_frame X B s = Inr (r, s')" for s r s'
    using that by (auto simp: bitmap_allocate_frame_def panic_simps split: option.splits)
qed

lemma bitmap_init_ok:
  assumes inv: "boot_inv X s" and B: "bitvec_ok B bits"
  obtains bm where "bitmap_init X B s = Inr bm" "bitmap_inv X B bits bm"
    "bitmap_free bits bm = boot_free s" "bm_memory_map bm = boot_memory_map s"
proof -
  let ?fa = "frame_addresses (boot_memory_map s)" and ?n = "unat (boot_next s)"
  let ?b = "bv_repeat B False (length ?fa)"
  have i: "x86_addr_ok X" "mm_ok (boot_memory_map s)" "?n \<le> length ?fa"
    using inv by (simp_all add: boot_inv_def)
  have r: "bits ?b = replicate (length ?fa) False" using B by (simp add: bitvec_ok_def)
  obtain b where b: "bitmap_mark B ?b [0..<?n] = Inr b" "bits b = replicate ?n True @ drop ?n (bits ?b)"
    using bitmap_mark_ok [OF B, of ?n ?b] r i(3) by auto
  let ?bm = "\<lparr>bm_memory_map = boot_memory_map s, bm_bitmap = b\<rparr>"
  have "bitmap_init X B s = Inr ?bm"
    using b(1) i by (simp add: bitmap_init_def boot_frames_def usable_frames_ok)
  moreover have "bitmap_inv X B bits ?bm" using i B b(2) r by (simp add: bitmap_inv_def)
  moreover have "bitmap_free bits ?bm = boot_free s"
    using b(2) r zeros_take_true [OF i(3)] by (simp add: bitmap_free_def boot_free_def)
  ultimately show ?thesis by (intro that) auto
qed


section \<open>Properties\<close>

text \<open>A memory map with two usable regions and one of the boot loader.\<close>

definition sample_map :: memory_regions where
  "sample_map =
     [\<lparr>region_start = 0x1000, region_end = 0x3000, region_kind = Usable\<rparr>,
      \<lparr>region_start = 0x3000, region_end = 0x8000, region_kind = Bootloader\<rparr>,
      \<lparr>region_start = 0x100000, region_end = 0x101000, region_kind = Usable\<rparr>]"

lemma sample_map_ok: "mm_ok sample_map"
  by (simp add: mm_ok_def sample_map_def usable_regions_def region_ok_def region_block_def
      disjoint_blocks_def)

lemma sample_map_frames: "frame_addresses sample_map = [0x1000, 0x2000, 0x100000]"
  by (simp add: frame_addresses_def sample_map_def step_by_4096_def page_list_def upt_rec)

lemma sample_boot_inv: "boot_inv x86_ref (boot_init sample_map)"
  by (simp add: boot_inv_def boot_init_def x86_ref_ok sample_map_ok)

text \<open>
  C16: the bitmap allocator takes over from the boot allocator exactly where that one stopped: it is
  built without a panic, its free frames are the ones the boot allocator had left, and from then on
  it hands out the frames that the boot allocator would have handed out, in the same order.
\<close>

theorem bitmap_handover:
  assumes "boot_inv X s" and "bitvec_ok B bits" and "n \<le> length (boot_free s)"
  shows "\<exists>bm s' bm'. bitmap_init X B s = Inr bm \<and> bitmap_free bits bm = boot_free s \<and>
    allocate_frames (boot_allocate_frame X) n s = Inr (take n (boot_free s), s') \<and>
    allocate_frames (bitmap_allocate_frame X B) n bm = Inr (take n (boot_free s), bm') \<and>
    bitmap_free bits bm' = boot_free s'"
proof -
  obtain bm where bm: "bitmap_init X B s = Inr bm" "bitmap_inv X B bits bm"
    "bitmap_free bits bm = boot_free s"
    by (rule bitmap_init_ok [OF assms(1,2)])
  show ?thesis
    using boot.allocate_frames_take [OF assms(1,3)] bm
      bitmap.allocate_frames_take [OF bm(2), of n] assms(3) by auto
qed

theorem bitmap_handover_witness:
  "\<exists>bm s' bm'. bitmap_init x86_ref bitvec_ref (boot_init sample_map) = Inr bm \<and>
    bitmap_free (\<lambda>b. b) bm = boot_free (boot_init sample_map) \<and>
    allocate_frames (boot_allocate_frame x86_ref) 2 (boot_init sample_map) =
      Inr (take 2 (boot_free (boot_init sample_map)), s') \<and>
    allocate_frames (bitmap_allocate_frame x86_ref bitvec_ref) 2 bm =
      Inr (take 2 (boot_free (boot_init sample_map)), bm') \<and>
    bitmap_free (\<lambda>b. b) bm' = boot_free s'"
  by (rule bitmap_handover [OF sample_boot_inv bitvec_ref_ok])
    (simp add: boot_free_def boot_init_def sample_map_frames)

text \<open>
  C6: whatever sequence of \<open>allocate_frame\<close> and \<open>deallocate_frame\<close> calls the kernel makes on the
  bitmap allocator it inherits, no call panics, no frame is handed out twice while it is held, and
  every frame held is a page-aligned frame of a usable region that is not free.
\<close>

theorem bitmap_frames_exclusive:
  assumes "boot_inv X s" and "bitvec_ok B bits"
  shows "\<exists>bm bm' held. bitmap_init X B s = Inr bm \<and>
    run_frames (bitmap_allocate_frame X B) (bitmap_deallocate_frame X B) ops bm [] =
      Inr (bm', held) \<and>
    distinct held \<and> set held \<inter> set (bitmap_free bits bm') = {} \<and>
    (\<forall>f\<in>set held. 4096 dvd unat f \<and>
       (\<exists>r\<in>set (boot_memory_map s). region_kind r = Usable \<and> unat f \<in> range_of (region_block r)))"
proof -
  obtain bm where bm: "bitmap_init X B s = Inr bm" "bitmap_inv X B bits bm"
    "bm_memory_map bm = boot_memory_map s"
    by (rule bitmap_init_ok [OF assms(1,2)])
  then have "bitmap.holding bits X B bm []" by (simp add: bitmap.holding_def)
  then obtain bm' held where r: "run_frames (bitmap_allocate_frame X B) (bitmap_deallocate_frame X B)
      ops bm [] = Inr (bm', held)"
    "frame_addresses (bm_memory_map bm') = frame_addresses (bm_memory_map bm)"
    "bitmap.holding bits X B bm' held"
    using bitmap.run_frames_holding by blast
  then have h: "distinct held" "set held \<inter> set (bitmap_free bits bm') = {}"
    "set held \<subseteq> set (frame_addresses (boot_memory_map s))"
    using bm(3) by (simp_all add: bitmap.holding_def)
  have "mm_ok (boot_memory_map s)" using assms(1) by (simp add: boot_inv_def)
  then have "\<forall>f\<in>set held. 4096 dvd unat f \<and>
       (\<exists>r\<in>set (boot_memory_map s). region_kind r = Usable \<and> unat f \<in> range_of (region_block r))"
    using h(3) frame_address_usable by (metis subsetD)
  then show ?thesis using bm(1) r(1) h by blast
qed

theorem bitmap_frames_exclusive_witness:
  "\<exists>bm bm' held. bitmap_init x86_ref bitvec_ref (boot_init sample_map) = Inr bm \<and>
    run_frames (bitmap_allocate_frame x86_ref bitvec_ref)
      (bitmap_deallocate_frame x86_ref bitvec_ref) [Take, Take, Return 1, Take] bm [] =
      Inr (bm', held) \<and> distinct held"
  using bitmap_frames_exclusive [OF sample_boot_inv bitvec_ref_ok, of "[Take, Take, Return 1, Take]"]
  by blast

text \<open>
  Giving back the frame just allocated restores the bitmap, so the next allocation returns that
  frame again.
\<close>

theorem bitmap_alloc_dealloc_roundtrip:
  assumes "bitmap_inv X B bits s" and "bitmap_allocate_frame X B s = Inr (Some f, s1)"
  shows "\<exists>s2 s3. bitmap_deallocate_frame X B s1 f = Inr s2 \<and>
    bits (bm_bitmap s2) = bits (bm_bitmap s) \<and> bm_memory_map s2 = bm_memory_map s \<and>
    bitmap_allocate_frame X B s2 = Inr (Some f, s3)"
proof -
  obtain i b where b: "first_false (bits (bm_bitmap s)) = Some i"
    "i < length (frame_addresses (bm_memory_map s))" "bits b = (bits (bm_bitmap s))[i := True]"
    "f = frame_addresses (bm_memory_map s) ! i" "s1 = s\<lparr>bm_bitmap := b\<rparr>"
    using bitmap_allocate_cases [OF assms(1)] assms(2) by (auto split: option.splits)
  have inv1: "bitmap_inv X B bits s1" using b bitmap_inv_upd [OF assms(1)] by simp
  obtain c where c: "bits c = (bits (bm_bitmap s1))[i := False]"
    "bitmap_deallocate_frame X B s1 f = Inr (s1\<lparr>bm_bitmap := c\<rparr>)"
    using bitmap_deallocate_ok [OF inv1, of i] b by auto
  have "\<not> bits (bm_bitmap s) ! i" by (rule first_false_nth [OF b(1)])
  then have e: "bits c = bits (bm_bitmap s)"
    using c(1) b(3,5) list_update_id [of "bits (bm_bitmap s)" i] by simp
  have inv2: "bitmap_inv X B bits (s1\<lparr>bm_bitmap := c\<rparr>)" using bitmap_inv_upd [OF inv1] c(1) by simp
  then have "\<exists>s3. bitmap_allocate_frame X B (s1\<lparr>bm_bitmap := c\<rparr>) = Inr (Some f, s3)"
    using bitmap_allocate_cases [OF inv2] b e by auto
  then show ?thesis using c(2) e b(5) by auto
qed

theorem bitmap_alloc_dealloc_roundtrip_witness:
  "\<exists>s s1 s2 s3. bitmap_init x86_ref bitvec_ref (boot_init sample_map) = Inr s \<and>
    bitmap_allocate_frame x86_ref bitvec_ref s = Inr (Some 0x1000, s1) \<and>
    bitmap_deallocate_frame x86_ref bitvec_ref s1 0x1000 = Inr s2 \<and>
    bitmap_allocate_frame x86_ref bitvec_ref s2 = Inr (Some 0x1000, s3)"
proof -
  obtain s where s: "bitmap_init x86_ref bitvec_ref (boot_init sample_map) = Inr s"
    "bitmap_inv x86_ref bitvec_ref (\<lambda>b. b) s"
    "bitmap_free (\<lambda>b. b) s = [0x1000, 0x2000, 0x100000]"
    using bitmap_init_ok [OF sample_boot_inv bitvec_ref_ok]
    by (auto simp: boot_free_def boot_init_def sample_map_frames)
  obtain s1 where s1: "bitmap_allocate_frame x86_ref bitvec_ref s = Inr (Some 0x1000, s1)"
    using bitmap.allocate_some [OF s(2,3)] by blast
  show ?thesis using bitmap_alloc_dealloc_roundtrip [OF s(2) s1] s(1) s1 by blast
qed

text \<open>
  The boot allocator hands out the usable frames of the memory map one after the other, each at
  most once, and answers \<open>None\<close> once they are used up.
\<close>

theorem boot_allocates_in_order:
  assumes "x86_addr_ok X" and "mm_ok mm" and "n \<le> length (frame_addresses mm)"
  shows "\<exists>s. allocate_frames (boot_allocate_frame X) n (boot_init mm) =
      Inr (take n (frame_addresses mm), s) \<and>
    distinct (take n (frame_addresses mm)) \<and>
    (n = length (frame_addresses mm) \<longrightarrow> (\<exists>s'. boot_allocate_frame X s = Inr (None, s')))"
proof -
  have inv: "boot_inv X (boot_init mm)" using assms by (simp add: boot_inv_def boot_init_def)
  have fr: "boot_free (boot_init mm) = frame_addresses mm" by (simp add: boot_free_def boot_init_def)
  obtain s where s: "allocate_frames (boot_allocate_frame X) n (boot_init mm) =
      Inr (take n (frame_addresses mm), s)" "boot_free s = drop n (frame_addresses mm)" "boot_inv X s"
    using boot.allocate_frames_take [OF inv, of n] fr assms(3) by auto
  then show ?thesis
    using boot.allocate_none [OF s(3)] frame_addresses_distinct [OF assms(2)] by auto
qed

theorem boot_allocates_in_order_witness:
  "\<exists>s s'. allocate_frames (boot_allocate_frame x86_ref) 3 (boot_init sample_map) =
      Inr ([0x1000, 0x2000, 0x100000], s) \<and> boot_allocate_frame x86_ref s = Inr (None, s')"
  using boot_allocates_in_order [OF x86_ref_ok sample_map_ok, of 3] by (simp add: sample_map_frames)

text \<open>
  What the frame allocators refuse. The boot allocator panics on every deallocation; the bitmap
  allocator panics on a frame that is no frame of the memory map; and building the bitmap panics if
  the boot allocator was asked for more frames than there are, since its counter runs past the end.
\<close>

theorem frame_allocator_panics:
  assumes "bitmap_inv X B bits s" and "f \<notin> set (frame_addresses (bm_memory_map s))"
    and "boot_memory_map old = bm_memory_map s"
    and "length (frame_addresses (bm_memory_map s)) < unat (boot_next old)"
  shows "bitmap_deallocate_frame X B s f = Inl (Expect ''Frame not in memory_map'') \<and>
    boot_deallocate_frame old g = Inl (PanicMsg ''Cant deallocate frame using this allocator'') \<and>
    (\<exists>e. bitmap_init X B old = Inl e)"
proof -
  have i: "x86_addr_ok X" "bitvec_ok B bits" "mm_ok (boot_memory_map old)"
    using assms(1,3) by (simp_all add: bitmap_inv_def)
  let ?b = "bv_repeat B False (length (frame_addresses (boot_memory_map old)))"
  have "length (bits ?b) < unat (boot_next old)"
    using i(2) assms(3,4) by (simp add: bitvec_ok_def)
  from bitmap_mark_panics [OF i(2) this] obtain e where
    "bitmap_mark B ?b [0..<unat (boot_next old)] = Inl e" by blast
  then have "\<exists>e. bitmap_init X B old = Inl e"
    using i by (simp add: bitmap_init_def boot_frames_def usable_frames_ok)
  then show ?thesis
    using bitmap_deallocate_unknown [OF assms(1,2)] by (simp add: boot_deallocate_frame_def)
qed

theorem frame_allocator_panics_witness:
  "\<exists>s e. bitmap_init x86_ref bitvec_ref (boot_init sample_map) = Inr s \<and>
    bitmap_deallocate_frame x86_ref bitvec_ref s 0x3000 = Inl (Expect ''Frame not in memory_map'') \<and>
    bitmap_init x86_ref bitvec_ref \<lparr>boot_memory_map = sample_map, boot_next = 4\<rparr> = Inl e"
proof -
  obtain s where s: "bitmap_init x86_ref bitvec_ref (boot_init sample_map) = Inr s"
    "bitmap_inv x86_ref bitvec_ref (\<lambda>b. b) s" "bm_memory_map s = sample_map"
    using bitmap_init_ok [OF sample_boot_inv bitvec_ref_ok] by (auto simp: boot_init_def)
  show ?thesis
    using frame_allocator_panics [OF s(2), where f = "0x3000"
        and old = "\<lparr>boot_memory_map = sample_map, boot_next = 4\<rparr>"]
      s by (simp add: sample_map_frames)
qed

end
