(* ===== verification/Paging.thy ===== *)
theory Paging
  imports Heap_Allocator Frame_Allocator
begin

text \<open>
  Mapping pages: the loop \<open>for page in page_range { allocate_frame; map_to }\<close> that \<open>init_heap\<close>
  (\<open>kernel/src/allocator.rs\<close>), \<open>add_user_process\<close> (\<open>kernel/src/sched.rs\<close>) and
  \<open>anon_allocate_syscall\<close> (\<open>kernel/src/syscall.rs\<close>) share, and \<open>init_heap\<close> itself. \<open>Mapper::map_to\<close>
  is code of the crate \<open>x86_64\<close> and so a parameter; it may itself take frames for page tables from
  the frame allocator it is given. The lemmas on the loop are proved once in the locale
  \<open>frame_source\<close>, for every frame allocator.
\<close>

section \<open>The mapper\<close>

datatype page_flag = PRESENT | WRITABLE | USER_ACCESSIBLE

datatype map_error = FrameAllocationFailed | ParentEntryHugePage | PageAlreadyMapped u64

type_synonym translation = "u64 \<rightharpoonup> u64 \<times> page_flag set"

type_synonym 's frame_alloc = "'s \<Rightarrow> (u64 option \<times> 's) res"

record ('m, 's) mapper =
  map_to :: "'s frame_alloc \<Rightarrow> 'm \<Rightarrow> u64 \<Rightarrow> u64 \<Rightarrow> page_flag set \<Rightarrow> 's \<Rightarrow>
    ((map_error + unit) \<times> 'm \<times> 's) res"

text \<open>The allocator's state after some number of successful calls of \<open>allocate_frame\<close>.\<close>

definition took :: "'s frame_alloc \<Rightarrow> nat \<Rightarrow> 's \<Rightarrow> 's \<Rightarrow> bool" where
  "took fa k s s' \<longleftrightarrow> (\<exists>fs. allocate_frames fa k s = Inr (fs, s') \<and> length fs = k)"

text \<open>
  The documented behaviour of \<open>map_to\<close>, over the translation \<open>tr\<close> a mapper stands for and the
  pages \<open>hp\<close> that lie under a huge page: success means the page was not mapped and is now mapped to
  the frame with the flags, nothing else changed, and at most three frames were taken for page
  tables; an error leaves the translation as it was; and it succeeds if the page is not mapped, not
  under a huge page and three frames are left.
\<close>

definition mapper_ok ::
  "('m, 's) mapper \<Rightarrow> ('m \<Rightarrow> translation) \<Rightarrow> ('m \<Rightarrow> u64 \<Rightarrow> bool) \<Rightarrow> 's frame_alloc \<Rightarrow> bool" where
  "mapper_ok M tr hp fa \<longleftrightarrow>
     (\<forall>m p f fl s m' s'. map_to M fa m p f fl s = Inr (Inr (), m', s') \<longrightarrow>
        tr m p = None \<and> tr m' = (tr m)(p \<mapsto> (f, fl)) \<and> hp m' = hp m \<and>
        (\<exists>k\<le>3. took fa k s s')) \<and>
     (\<forall>m p f fl s e m' s'. map_to M fa m p f fl s = Inr (Inl e, m', s') \<longrightarrow> tr m' = tr m) \<and>
     (\<forall>m p f fl s. tr m p = None \<and> \<not> hp m p \<and> (\<exists>s'. took fa 3 s s') \<longrightarrow>
        (\<exists>m' s'. map_to M fa m p f fl s = Inr (Inr (), m', s')))"

definition mapper_ref :: "(translation, 's) mapper" where
  "mapper_ref =
     \<lparr>map_to = (\<lambda>fa m p f fl s.
        case m p of None \<Rightarrow> Inr (Inr (), m(p \<mapsto> (f, fl)), s)
        | Some (g, _) \<Rightarrow> Inr (Inl (PageAlreadyMapped g), m, s))\<rparr>"

section \<open>Mapping a range of pages\<close>

fun map_range ::
  "('m, 's) mapper \<Rightarrow> 's frame_alloc \<Rightarrow> page_flag set \<Rightarrow> 'm \<Rightarrow> 's \<Rightarrow> u64 list \<Rightarrow>
   ((map_error + unit) \<times> 'm \<times> 's) res" where
  "map_range M fa fl m s [] = Inr (Inr (), m, s)"
| "map_range M fa fl m s (page # pages) =
     rbind (fa s) (\<lambda>(frame, s1).
       case frame of
         None \<Rightarrow> Inr (Inl FrameAllocationFailed, m, s1)
       | Some f \<Rightarrow>
           rbind (map_to M fa m page f fl s1) (\<lambda>(r, m', s').
             case r of
               Inl e \<Rightarrow> Inr (Inl e, m', s')
             | Inr _ \<Rightarrow> map_range M fa fl m' s' pages))"

text \<open>\<open>init_heap\<close>: the error is the \<open>MapToError\<close> it returns.\<close>

definition heap_pages :: "x86_addr \<Rightarrow> u64 list res" where
  "heap_pages X =
     rbind (virt_addr_new X HEAP_START) (\<lambda>heap_start.
     rbind (virt_addr_add X heap_start HEAP_SIZE) (\<lambda>e.
     rbind (virt_addr_sub X e 1) (\<lambda>heap_end.
       Inr (page_range_inclusive X (page_containing X heap_start) (page_containing X heap_end)))))"

definition init_heap ::
  "x86_addr \<Rightarrow> ('m, 's) mapper \<Rightarrow> 's frame_alloc \<Rightarrow> 'm \<Rightarrow> 's \<Rightarrow> heap \<Rightarrow>
   ((map_error + unit) \<times> 'm \<times> 's \<times> heap) res" where
  "init_heap X M fa m s h =
     rbind (heap_pages X) (\<lambda>page_range.
     rbind (map_range M fa {PRESENT, WRITABLE} m s page_range) (\<lambda>(r, m', s').
       case r of
         Inl e \<Rightarrow> Inr (Inl e, m', s', h)
       | Inr _ \<Rightarrow> rbind (init h HEAP_START HEAP_SIZE) (\<lambda>h'. Inr (Inr (), m', s', h'))))"

section \<open>Lemmas on the mapper and on the loop\<close>

lemma mapper_ref_ok: "mapper_ok mapper_ref (\<lambda>m. m) (\<lambda>_ _. False) fa"
  unfolding mapper_ok_def
proof (intro conjI allI impI)
  fix m :: translation and p f fl s m' s'
  assume "map_to mapper_ref fa m p f fl s = Inr (Inr (), m', s')"
  then have "m p = None" "m' = m(p \<mapsto> (f, fl))" "took fa 0 s s'"
    by (auto simp: mapper_ref_def took_def split: option.splits)
  then show "m p = None" "m' = m(p \<mapsto> (f, fl))" "\<exists>k\<le>3. took fa k s s'" by auto
qed (auto simp: mapper_ref_def split: option.splits)

lemma mapper_success:
  assumes "mapper_ok M tr hp fa" "map_to M fa m p f fl s = Inr (Inr (), m', s')"
  shows "tr m p = None" "tr m' = (tr m)(p \<mapsto> (f, fl))" "hp m' = hp m" "\<exists>k\<le>3. took fa k s s'"
proof -
  have "tr m p = None \<and> tr m' = (tr m)(p \<mapsto> (f, fl)) \<and> hp m' = hp m \<and> (\<exists>k\<le>3. took fa k s s')"
    using assms(1) [unfolded mapper_ok_def, THEN conjunct1, rule_format, OF assms(2)] .
  then show "tr m p = None" "tr m' = (tr m)(p \<mapsto> (f, fl))" "hp m' = hp m"
    "\<exists>k\<le>3. took fa k s s'"
    by auto
qed

lemma mapper_progress:
  assumes "mapper_ok M tr hp fa" "tr m p = None" "\<not> hp m p" "took fa 3 s s'"
  shows "\<exists>m' s'. map_to M fa m p f fl s = Inr (Inr (), m', s')"
  using assms unfolding mapper_ok_def by blast

lemma unit_sum_Inr [simp]: "(\<forall>e. r \<noteq> Inl e) \<longleftrightarrow> r = Inr ()"
  by (cases r) auto

context frame_source
begin

lemma took_free:
  assumes "inv s" "took allocate k s s'"
  shows "free s' = drop k (free s)" "inv s'" "k \<le> length (free s)"
proof -
  have k: "k \<le> length (free s) \<and> free s' = drop k (free s) \<and> inv s'"
    using assms
  proof (induction k arbitrary: s)
    case 0
    then show ?case by (simp add: took_def)
  next
    case (Suc k)
    then obtain f s1 where f: "allocate s = Inr (Some f, s1)" "took allocate k s1 s'"
      by (auto simp: took_def panic_simps split: option.splits)
    then have "free s = f # free s1" "inv s1" using allocate_result Suc.prems(1) by blast+
    then show ?case using Suc.IH [of s1] f(2) by simp
  qed
  then show "free s' = drop k (free s)" "inv s'" "k \<le> length (free s)" by auto
qed

lemma took_ex: "inv s \<Longrightarrow> k \<le> length (free s) \<Longrightarrow> \<exists>s'. took allocate k s s'"
  using allocate_frames_take [of s k] by (auto simp: took_def)

text \<open>What a successful run of the loop has done.\<close>

lemma map_range_success:
  assumes M: "mapper_ok M tr hp allocate"
  shows "inv s \<Longrightarrow> map_range M allocate fl m s pages = Inr (Inr (), m', s') \<Longrightarrow>
    \<exists>fs k. length fs = length pages \<and> tr m' = (tr m)(pages [\<mapsto>] map (\<lambda>f. (f, fl)) fs) \<and>
      distinct pages \<and> (\<forall>p\<in>set pages. tr m p = None) \<and>
      distinct fs \<and> set fs \<subseteq> set (take k (free s)) \<and> free s' = drop k (free s) \<and> inv s' \<and>
      k \<le> 4 * length pages \<and> hp m' = hp m"
proof (induction pages arbitrary: m s)
  case Nil
  then show ?case by (auto intro: exI [of _ 0])
next
  case (Cons p pages)
  obtain f s1 m1 s2 where st: "allocate s = Inr (Some f, s1)"
    "map_to M allocate m p f fl s1 = Inr (Inr (), m1, s2)"
    "map_range M allocate fl m1 s2 pages = Inr (Inr (), m', s')"
    using Cons.prems(2) by (auto simp: panic_simps split: option.splits sum.splits)
  note ms = mapper_success [OF M st(2)]
  have f1: "free s = f # free s1" "inv s1" using allocate_result [OF Cons.prems(1) st(1)] .
  obtain j where j: "free s2 = drop j (free s1)" "inv s2" "j \<le> 3"
    using ms(4) took_free [OF f1(2)] by blast
  obtain fs k where IH: "length fs = length pages"
    "tr m' = (tr m1)(pages [\<mapsto>] map (\<lambda>f. (f, fl)) fs)" "distinct pages"
    "\<forall>p\<in>set pages. tr m1 p = None" "distinct fs" "set fs \<subseteq> set (take k (free s2))"
    "free s' = drop k (free s2)" "inv s'" "k \<le> 4 * length pages" "hp m' = hp m1"
    using Cons.IH [OF j(2) st(3)] by blast
  have in_take: "set fs \<subseteq> set (take (j + k) (free s1))"
    using IH(6) j(1) by (auto simp: take_add)
  then have sub: "set fs \<subseteq> set (free s1)" using set_take_subset by fast
  have "f \<notin> set fs" using sub free_distinct [OF Cons.prems(1)] f1(1) by auto
  moreover have "p \<notin> set pages" "\<forall>q\<in>set pages. tr m q = None"
    using IH(4) ms(2) by (metis fun_upd_apply option.distinct(1))+
  moreover have "free s' = drop (Suc (j + k)) (free s)"
    using IH(7) j(1) f1(1) by (simp add: add.commute)
  ultimately show ?case using IH(1-3,5,8-10) ms(1-3) f1(1) in_take j(3)
    by (intro exI [of _ "f # fs"] exI [of _ "Suc (j + k)"]) auto
qed

text \<open>The loop succeeds when four frames are left for every page.\<close>

lemma map_range_total:
  assumes M: "mapper_ok M tr hp allocate"
  shows "inv s \<Longrightarrow> 4 * length pages \<le> length (free s) \<Longrightarrow> distinct pages \<Longrightarrow>
    (\<forall>p\<in>set pages. tr m p = None \<and> \<not> hp m p) \<Longrightarrow>
    \<exists>m' s'. map_range M allocate fl m s pages = Inr (Inr (), m', s')"
proof (induction pages arbitrary: m s)
  case Nil
  then show ?case by simp
next
  case (Cons p pages)
  obtain f fs where f: "free s = f # fs" using Cons.prems(2) by (cases "free s") auto
  obtain s1 where s1: "allocate s = Inr (Some f, s1)" "free s1 = fs" "inv s1"
    using allocate_some [OF Cons.prems(1) f] by blast
  have "3 \<le> length (free s1)" using Cons.prems(2) f s1(2) by simp
  then obtain t where "took allocate 3 s1 t" using took_ex s1(3) by blast
  then obtain m1 s2 where m1: "map_to M allocate m p f fl s1 = Inr (Inr (), m1, s2)"
    using mapper_progress [OF M, of m p] Cons.prems(4) by fastforce
  note ms = mapper_success [OF M m1]
  obtain k where k: "k \<le> 3" "free s2 = drop k (free s1)" "inv s2"
    using ms(4) took_free [OF s1(3)] by blast
  have "4 * length pages \<le> length (free s2)" using Cons.prems(2) f s1(2) k by simp
  moreover have "\<forall>q\<in>set pages. tr m1 q = None \<and> \<not> hp m1 q"
    using Cons.prems(3,4) ms(2,3) by auto
  ultimately obtain m' s' where "map_range M allocate fl m1 s2 pages = Inr (Inr (), m', s')"
    using Cons.IH [OF k(3), of m1] Cons.prems(3) by auto
  then show ?case using s1(1) m1 by auto
qed

end

section \<open>The heap's pages\<close>

lemma heap_pages_ok:
  assumes "x86_addr_ok X" shows "heap_pages X = Inr (page_list HEAP_START 512)"
proof -
  have c: "canonical HEAP_START" "canonical (HEAP_START + HEAP_SIZE)"
    "canonical (HEAP_START + HEAP_SIZE - 1)"
    by (simp_all add: canonical_def HEAP_START_def HEAP_SIZE_def)
  have e: "HEAP_START + HEAP_SIZE = 0xffffffff80000000" "HEAP_START = 0xffffffff7fe00000"
    by (simp_all add: HEAP_START_def HEAP_SIZE_def)
  have "virt_addr_add X HEAP_START HEAP_SIZE = Inr (HEAP_START + HEAP_SIZE)"
    by (rule virt_addr_add_ok [OF assms _ c(2)]) simp
  moreover have "virt_addr_sub X (HEAP_START + HEAP_SIZE) 1 = Inr (HEAP_START + HEAP_SIZE - 1)"
    by (rule virt_addr_sub_ok [OF assms _ c(3)]) (simp only: e(1), simp)
  moreover have "unat (page_containing X HEAP_START) = unat (0xffffffff7fe00000 :: u64)"
    using page_containing_unat [OF assms, of HEAP_START] by simp
  then have "page_containing X HEAP_START = 0xffffffff7fe00000" by (simp only: word_unat_eq_iff)
  moreover have "unat (page_containing X (HEAP_START + HEAP_SIZE - 1)) = unat (0xffffffff7ffff000 :: u64)"
    using page_containing_unat [OF assms, of "HEAP_START + HEAP_SIZE - 1"]
    by (simp add: HEAP_START_def HEAP_SIZE_def)
  then have "page_containing X (HEAP_START + HEAP_SIZE - 1) = 0xffffffff7ffff000"
    by (simp only: word_unat_eq_iff)
  moreover have "page_range_inclusive X 0xffffffff7fe00000 0xffffffff7ffff000 =
      page_list 0xffffffff7fe00000 512"
    using page_range_ok(1) [OF assms, of "0xffffffff7fe00000" "0xffffffff7ffff000"]
    by (simp add: same_half_def pages_between_def)
  ultimately show ?thesis
    using virt_addr_new_ok [OF assms c(1)] e by (simp add: heap_pages_def)
qed

lemma page_list_distinct: "unat s + 4096 * n \<le> 2 ^ 64 \<Longrightarrow> distinct (page_list s n)"
proof -
  assume "unat s + 4096 * n \<le> 2 ^ 64"
  then have "distinct (map unat (page_list s n))"
    by (simp only: page_list_unat) (simp add: distinct_map inj_on_def)
  then show ?thesis by (simp add: distinct_map)
qed

lemma map_upds_lookup:
  "length vs = length ks \<Longrightarrow> distinct ks \<Longrightarrow> i < length ks \<Longrightarrow> (m(ks [\<mapsto>] vs)) (ks ! i) = Some (vs ! i)"
proof (induction ks arbitrary: vs i m)
  case Nil
  then show ?case by simp
next
  case (Cons k ks)
  then obtain v ws where "vs = v # ws" by (cases vs) auto
  then show ?case using Cons by (cases i) auto
qed

text \<open>Mapping consecutive pages: each gets a fresh frame of its own, nothing else changes.\<close>

context frame_source
begin

lemma map_pages_ok:
  assumes M: "mapper_ok M tr hp allocate" and s: "inv s" "4 * n \<le> length (free s)"
    and a: "unat a + 4096 * n \<le> 2 ^ 64"
    and un: "\<forall>p\<in>set (page_list a n). tr m p = None \<and> \<not> hp m p"
  shows "\<exists>m' s' fs. map_range M allocate fl m s (page_list a n) = Inr (Inr (), m', s') \<and> inv s' \<and>
    length fs = n \<and> distinct fs \<and> set fs \<subseteq> set (free s) \<and> set fs \<inter> set (free s') = {} \<and>
    set (free s') \<subseteq> set (free s) \<and> length (free s) \<le> length (free s') + 4 * n \<and> hp m' = hp m \<and>
    (\<forall>i<n. tr m' (a + 4096 * of_nat i) = Some (fs ! i, fl)) \<and>
    (\<forall>p. p \<notin> set (page_list a n) \<longrightarrow> tr m' p = tr m p)"
proof -
  let ?ps = "page_list a n"
  have d: "distinct ?ps" by (rule page_list_distinct [OF a])
  obtain m' s' where r: "map_range M allocate fl m s ?ps = Inr (Inr (), m', s')"
    using map_range_total [OF M s(1) _ d un, of fl] s(2) by auto
  obtain fs k where f: "length fs = n"
    "tr m' = (tr m)(?ps [\<mapsto>] map (\<lambda>f. (f, fl)) fs)" "distinct fs"
    "set fs \<subseteq> set (take k (free s))" "free s' = drop k (free s)" "inv s'" "k \<le> 4 * n" "hp m' = hp m"
    using map_range_success [OF M s(1) r] by auto
  have "set fs \<inter> set (free s') = {}"
    using f(4,5) set_take_disj_set_drop_if_distinct [OF free_distinct [OF s(1)], of k k] by auto
  moreover have "tr m' (a + 4096 * of_nat i) = Some (fs ! i, fl)" if "i < n" for i
    using map_upds_lookup [of "map (\<lambda>f. (f, fl)) fs" ?ps i "tr m"] that f(1,2) d
    by (simp add: page_list_def)
  moreover have "tr m' p = tr m p" if "p \<notin> set ?ps" for p
    using f(2) that by (simp add: map_upds_apply_nontin)
  moreover have "set fs \<subseteq> set (free s)" using f(4) set_take_subset by fast
  moreover have "set (free s') \<subseteq> set (free s)" using f(5) by (simp add: set_drop_subset)
  moreover have "length (free s) \<le> length (free s') + 4 * n" using f(5,7) by simp
  ultimately show ?thesis using r f(1,3,6,8) by blast
qed

end

lemma init_heap_ok:
  assumes "boot_inv X s" and "mapper_ok M tr hp (boot_allocate_frame X)"
    and "2048 \<le> length (boot_free s)"
    and "\<forall>p\<in>set (page_list HEAP_START 512). tr m p = None \<and> \<not> hp m p"
  shows "\<exists>m' s' fs. init_heap X M (boot_allocate_frame X) m s allocator_new =
      Inr (Inr (), m', s', fresh_heap) \<and>
    length fs = 512 \<and> distinct fs \<and> set fs \<subseteq> set (boot_free s) \<and>
    set fs \<inter> set (boot_free s') = {} \<and>
    (\<forall>i<512. tr m' (HEAP_START + 4096 * of_nat i) = Some (fs ! i, {PRESENT, WRITABLE})) \<and>
    (\<forall>p. p \<notin> set (page_list HEAP_START 512) \<longrightarrow> tr m' p = tr m p) \<and>
    boot_inv X s' \<and> length (boot_free s) \<le> length (boot_free s') + 2048 \<and> hp m' = hp m"
proof -
  have X: "x86_addr_ok X" using assms(1) by (simp add: boot_inv_def)
  obtain m' s' fs where r: "map_range M (boot_allocate_frame X) {PRESENT, WRITABLE} m s
      (page_list HEAP_START 512) = Inr (Inr (), m', s')" "length fs = 512" "distinct fs"
    "set fs \<subseteq> set (boot_free s)" "set fs \<inter> set (boot_free s') = {}"
    "\<forall>i<512. tr m' (HEAP_START + 4096 * of_nat i) = Some (fs ! i, {PRESENT, WRITABLE})"
    "\<forall>p. p \<notin> set (page_list HEAP_START 512) \<longrightarrow> tr m' p = tr m p"
    "boot_inv X s'" "length (boot_free s) \<le> length (boot_free s') + 2048" "hp m' = hp m"
    using boot.map_pages_ok [OF assms(2,1) _ _ assms(4), of "{PRESENT, WRITABLE}"] assms(3) by auto
  have "init_heap X M (boot_allocate_frame X) m s allocator_new = Inr (Inr (), m', s', fresh_heap)"
    using r(1) by (simp add: init_heap_def heap_pages_ok [OF X] init_fresh)
  then show ?thesis using r(2-) by blast
qed

section \<open>Properties\<close>

text \<open>
  C17: with 2048 free frames, the heap's address range unmapped and not under huge pages,
  \<open>init_heap\<close> succeeds with the boot allocator: every one of the 512 heap pages is mapped present
  and writable, to frames that are pairwise different and no longer free, every other translation
  is as before, and the heap is the single free block that the allocator properties start from.
\<close>

theorem init_heap_maps_heap:
  assumes "boot_inv X s" and "mapper_ok M tr hp (boot_allocate_frame X)"
    and "2048 \<le> length (boot_free s)"
    and "\<forall>p\<in>set (page_list HEAP_START 512). tr m p = None \<and> \<not> hp m p"
  shows "\<exists>m' s' fs. init_heap X M (boot_allocate_frame X) m s allocator_new =
      Inr (Inr (), m', s', fresh_heap) \<and>
    length fs = 512 \<and> distinct fs \<and> set fs \<subseteq> set (boot_free s) \<and>
    set fs \<inter> set (boot_free s') = {} \<and>
    (\<forall>i<512. tr m' (HEAP_START + 4096 * of_nat i) = Some (fs ! i, {PRESENT, WRITABLE})) \<and>
    (\<forall>p. p \<notin> set (page_list HEAP_START 512) \<longrightarrow> tr m' p = tr m p)"
  using init_heap_ok [OF assms] by blast

text \<open>A memory map with 2048 usable frames.\<close>

definition big_map :: memory_regions where
  "big_map = [\<lparr>region_start = 0x100000, region_end = 0x900000, region_kind = Usable\<rparr>]"

lemma big_map_inv: "boot_inv x86_ref (boot_init big_map)"
  by (simp add: boot_inv_def boot_init_def x86_ref_ok mm_ok_def big_map_def usable_regions_def
      region_ok_def)

lemma big_map_length: "length (boot_free (boot_init big_map)) = 2048"
  by (simp add: boot_free_def boot_init_def frame_addresses_def big_map_def step_by_4096_def)

lemma big_map_ok: "mm_ok big_map"
  by (simp add: mm_ok_def big_map_def usable_regions_def region_ok_def)

lemma big_map_frames: "length (frame_addresses big_map) = 2048"
  by (simp add: frame_addresses_def big_map_def step_by_4096_def)

lemma big_frames_inv:
  "bitmap_inv x86_ref bitvec_ref (\<lambda>b. b) \<lparr>bm_memory_map = big_map, bm_bitmap = replicate 2048 False\<rparr>"
  by (simp add: bitmap_inv_def x86_ref_ok bitvec_ref_ok big_map_ok big_map_frames)

lemma zeros_replicate: "length fs = n \<Longrightarrow> zeros (replicate n False) fs = fs"
  by (induction fs arbitrary: n) (auto simp: zeros_def)

lemma big_frames_free:
  "length (bitmap_free (\<lambda>b. b) \<lparr>bm_memory_map = big_map, bm_bitmap = replicate 2048 False\<rparr>) = 2048"
  by (simp add: bitmap_free_def zeros_replicate big_map_frames)

theorem init_heap_maps_heap_witness:
  "\<exists>m' s' fs. init_heap x86_ref mapper_ref (boot_allocate_frame x86_ref) Map.empty
      (boot_init big_map) allocator_new = Inr (Inr (), m', s', fresh_heap) \<and>
    length fs = 512 \<and> distinct fs \<and>
    (\<forall>i<512. m' (HEAP_START + 4096 * of_nat i) = Some (fs ! i, {PRESENT, WRITABLE}))"
  using init_heap_maps_heap [OF big_map_inv mapper_ref_ok, of Map.empty] big_map_length by auto

end
