(* ===== verification/Pipe.thy ===== *)
theory Pipe
  imports Prelude
begin

text \<open>
  Files: \<open>kernel/src/vfs/mod.rs\<close> and \<open>kernel/src/vfs/pipe.rs\<close>. A \<open>Pipe\<close> is a bounded lock-free
  queue of bytes (\<open>ArrayQueue\<close> of the crate \<open>crossbeam_queue\<close>, a parameter): the keyboard interrupt
  pushes, the read system call pops and spins while the queue is empty. Each queue operation is
  atomic, so a run is an interleaving of the handler's writes and the iterations of the reader's
  inner loop.
\<close>

section \<open>The queue of the crate crossbeam\_queue\<close>

record 'q array_queue =
  aq_new :: "nat \<Rightarrow> 'q res"
  aq_push :: "'q \<Rightarrow> u8 \<Rightarrow> (u8 + unit) \<times> 'q"
  aq_pop :: "'q \<Rightarrow> u8 option \<times> 'q"

text \<open>
  Its documented behaviour, over the queued bytes and the capacity: \<open>new\<close> panics on capacity 0,
  \<open>push\<close> returns the element when the queue is full, \<open>pop\<close> takes the oldest element.
\<close>

definition array_queue_ok :: "'q array_queue \<Rightarrow> ('q \<Rightarrow> u8 list) \<Rightarrow> ('q \<Rightarrow> nat) \<Rightarrow> bool" where
  "array_queue_ok Q items cap \<longleftrightarrow>
     (\<forall>n. 0 < n \<longrightarrow> (\<exists>q. aq_new Q n = Inr q \<and> items q = [] \<and> cap q = n)) \<and>
     (\<exists>e. aq_new Q 0 = Inl e) \<and>
     (\<forall>q x. length (items q) < cap q \<longrightarrow>
        (\<exists>q'. aq_push Q q x = (Inr (), q') \<and> items q' = items q @ [x] \<and> cap q' = cap q)) \<and>
     (\<forall>q x. cap q \<le> length (items q) \<longrightarrow> (\<exists>q'. aq_push Q q x = (Inl x, q') \<and> items q' = items q)) \<and>
     (\<forall>q. items q = [] \<longrightarrow> aq_pop Q q = (None, q)) \<and>
     (\<forall>q x xs. items q = x # xs \<longrightarrow>
        (\<exists>q'. aq_pop Q q = (Some x, q') \<and> items q' = xs \<and> cap q' = cap q))"

definition queue_ref :: "(nat \<times> u8 list) array_queue" where
  "queue_ref =
     \<lparr>aq_new = (\<lambda>n. if n = 0 then Inl ExternalPanic else Inr (n, [])),
      aq_push = (\<lambda>(n, xs) x. if length xs < n then (Inr (), n, xs @ [x]) else (Inl x, n, xs)),
      aq_pop = (\<lambda>(n, xs). case xs of [] \<Rightarrow> (None, n, []) | y # ys \<Rightarrow> (Some y, n, ys))\<rparr>"

section \<open>Pipes\<close>

definition pipe_new :: "'q array_queue \<Rightarrow> nat \<Rightarrow> 'q res" where
  "pipe_new Q n = aq_new Q n"

text \<open>\<open>Pipe::write\<close>: the slice \<open>arr\<close> is the \<open>size\<close> bytes at \<open>buffer\<close>.\<close>

fun pipe_write :: "'q array_queue \<Rightarrow> 'q \<Rightarrow> u8 list \<Rightarrow> 'q res" where
  "pipe_write Q q [] = Inr q"
| "pipe_write Q q (c # arr) =
     (case aq_push Q q c of
        (Inl _, q') \<Rightarrow> Inl (Expect ''Pipe is full'')
      | (Inr _, q') \<Rightarrow> pipe_write Q q' arr)"

text \<open>
  \<open>Pipe::read\<close>: the slice it fills and the index \<open>i\<close> of its outer loop. \<open>pipe_read_step\<close> is one
  iteration of the inner loop; \<open>pipe_read\<close> is the whole call with nobody writing meanwhile.
\<close>

record reader =
  rd_arr :: "u8 list"
  rd_pos :: nat

definition pipe_read_step :: "'q array_queue \<Rightarrow> 'q \<Rightarrow> reader \<Rightarrow> 'q \<times> reader" where
  "pipe_read_step Q q r =
     (case aq_pop Q q of
        (Some c, q') \<Rightarrow> (q', r\<lparr>rd_arr := (rd_arr r)[rd_pos r := c], rd_pos := Suc (rd_pos r)\<rparr>)
      | (None, q') \<Rightarrow> (q', r))"

partial_function (option) pipe_read_loop ::
  "'q array_queue \<Rightarrow> 'q \<Rightarrow> reader \<Rightarrow> ('q \<times> u8 list) option" where
  "pipe_read_loop Q q r =
     (if rd_pos r < length (rd_arr r)
      then (case pipe_read_step Q q r of (q', r') \<Rightarrow> pipe_read_loop Q q' r')
      else Some (q, rd_arr r))"

definition pipe_read :: "'q array_queue \<Rightarrow> 'q \<Rightarrow> u8 list \<Rightarrow> ('q \<times> u8 list) option" where
  "pipe_read Q q arr = pipe_read_loop Q q \<lparr>rd_arr = arr, rd_pos = 0\<rparr>"

text \<open>
  A reader inside the call and the interrupts that arrive: \<open>Key c\<close> is the keyboard handler's
  \<open>write(0, 1, &c)\<close>, \<open>Spin\<close> is one iteration of the reader's inner loop, if it is still running.
\<close>

datatype pipe_event = Key u8 | Spin

fun pipe_run :: "'q array_queue \<Rightarrow> pipe_event list \<Rightarrow> 'q \<Rightarrow> reader \<Rightarrow> ('q \<times> reader) res" where
  "pipe_run Q [] q r = Inr (q, r)"
| "pipe_run Q (Key c # es) q r = rbind (pipe_write Q q [c]) (\<lambda>q'. pipe_run Q es q' r)"
| "pipe_run Q (Spin # es) q r =
     (if rd_pos r < length (rd_arr r)
      then (case pipe_read_step Q q r of (q', r') \<Rightarrow> pipe_run Q es q' r')
      else pipe_run Q es q r)"

fun keys :: "pipe_event list \<Rightarrow> u8 list" where
  "keys [] = []"
| "keys (Key c # es) = c # keys es"
| "keys (Spin # es) = keys es"

text \<open>Several writes in a row, for any kind of file.\<close>

fun write_all :: "('f \<Rightarrow> u8 list \<Rightarrow> 'f res) \<Rightarrow> 'f \<Rightarrow> u8 list list \<Rightarrow> 'f res" where
  "write_all w f [] = Inr f"
| "write_all w f (xs # xss) = rbind (w f xs) (\<lambda>f'. write_all w f' xss)"

section \<open>Lemmas\<close>

lemma queue_ref_ok: "array_queue_ok queue_ref snd fst"
  by (auto simp: array_queue_ok_def queue_ref_def split: list.splits)

lemma push_ok:
  "array_queue_ok Q items cap \<Longrightarrow> length (items q) < cap q \<Longrightarrow>
    \<exists>q'. aq_push Q q x = (Inr (), q') \<and> items q' = items q @ [x] \<and> cap q' = cap q"
  by (simp add: array_queue_ok_def)

lemma push_full:
  "array_queue_ok Q items cap \<Longrightarrow> cap q \<le> length (items q) \<Longrightarrow>
    \<exists>q'. aq_push Q q x = (Inl x, q') \<and> items q' = items q"
  by (simp add: array_queue_ok_def)

lemma pop_empty: "array_queue_ok Q items cap \<Longrightarrow> items q = [] \<Longrightarrow> aq_pop Q q = (None, q)"
  by (simp add: array_queue_ok_def)

lemma pop_cons:
  "array_queue_ok Q items cap \<Longrightarrow> items q = x # xs \<Longrightarrow>
    \<exists>q'. aq_pop Q q = (Some x, q') \<and> items q' = xs \<and> cap q' = cap q"
  by (simp add: array_queue_ok_def)

lemma pipe_write_ok:
  assumes Q: "array_queue_ok Q items cap"
  shows "length (items q) + length arr \<le> cap q \<Longrightarrow>
    \<exists>q'. pipe_write Q q arr = Inr q' \<and> items q' = items q @ arr \<and> cap q' = cap q"
proof (induction arr arbitrary: q)
  case Nil
  then show ?case by simp
next
  case (Cons c arr)
  then obtain q1 where q1: "aq_push Q q c = (Inr (), q1)" "items q1 = items q @ [c]" "cap q1 = cap q"
    using push_ok [OF Q, of q c] by auto
  then show ?case using Cons.IH [of q1] Cons.prems by auto
qed

lemma pipe_write_full:
  assumes Q: "array_queue_ok Q items cap"
  shows "cap q < length (items q) + length arr \<Longrightarrow> length (items q) \<le> cap q \<Longrightarrow>
    pipe_write Q q arr = Inl (Expect ''Pipe is full'')"
proof (induction arr arbitrary: q)
  case Nil
  then show ?case by simp
next
  case (Cons c arr)
  show ?case
  proof (cases "length (items q) < cap q")
    case True
    then obtain q1 where q1: "aq_push Q q c = (Inr (), q1)" "items q1 = items q @ [c]" "cap q1 = cap q"
      using push_ok [OF Q, of q c] by auto
    then show ?thesis using Cons.IH [of q1] Cons.prems True by auto
  next
    case False
    then show ?thesis using push_full [OF Q, of q c] by auto
  qed
qed

text \<open>One step of a reader that is not finished: it takes the oldest byte, or nothing.\<close>

lemma read_step_cases:
  assumes Q: "array_queue_ok Q items cap"
  shows "case items q of
      [] \<Rightarrow> pipe_read_step Q q r = (q, r)
    | x # xs \<Rightarrow> \<exists>q'. pipe_read_step Q q r =
          (q', r\<lparr>rd_arr := (rd_arr r)[rd_pos r := x], rd_pos := Suc (rd_pos r)\<rparr>) \<and>
        items q' = xs \<and> cap q' = cap q"
  using pop_empty [OF Q] pop_cons [OF Q, of q]
  by (auto simp: pipe_read_step_def split: list.splits)

lemma read_step_cap:
  assumes Q: "array_queue_ok Q items cap" and "pipe_read_step Q q r = (q', r')"
  shows "cap q' = cap q" "length (rd_arr r') = length (rd_arr r)"
    "take (rd_pos r) (rd_arr r) @ items q = take (rd_pos r') (rd_arr r') @ items q' \<or>
     length (rd_arr r) \<le> rd_pos r"
    "rd_pos r \<le> rd_pos r'"
    "rd_pos r < length (rd_arr r) \<Longrightarrow> rd_pos r' \<le> length (rd_arr r)"
proof -
  have *: "cap q' = cap q \<and> length (rd_arr r') = length (rd_arr r) \<and>
    (take (rd_pos r) (rd_arr r) @ items q = take (rd_pos r') (rd_arr r') @ items q' \<or>
     length (rd_arr r) \<le> rd_pos r) \<and> rd_pos r \<le> rd_pos r' \<and>
    (rd_pos r < length (rd_arr r) \<longrightarrow> rd_pos r' \<le> length (rd_arr r))"
    using read_step_cases [OF Q, of q r] assms(2)
    by (auto simp: take_Suc_conv_app_nth split: list.splits)
  then show "cap q' = cap q" "length (rd_arr r') = length (rd_arr r)"
    "take (rd_pos r) (rd_arr r) @ items q = take (rd_pos r') (rd_arr r') @ items q' \<or>
     length (rd_arr r) \<le> rd_pos r"
    "rd_pos r \<le> rd_pos r'"
    "rd_pos r < length (rd_arr r) \<Longrightarrow> rd_pos r' \<le> length (rd_arr r)"
    by auto
qed

lemma pipe_run_fifo:
  assumes Q: "array_queue_ok Q items cap"
  shows "pipe_run Q es q r = Inr (q', r') \<Longrightarrow> rd_pos r \<le> length (rd_arr r) \<Longrightarrow>
    take (rd_pos r') (rd_arr r') @ items q' = take (rd_pos r) (rd_arr r) @ items q @ keys es \<and>
    length (rd_arr r') = length (rd_arr r) \<and> rd_pos r' \<le> length (rd_arr r)"
proof (induction es arbitrary: q r)
  case Nil
  then show ?case by simp
next
  case (Cons e es)
  show ?case
  proof (cases e)
    case (Key c)
    then obtain q1 where q1: "pipe_write Q q [c] = Inr q1" "pipe_run Q es q1 r = Inr (q', r')"
      using Cons.prems(1) by (auto simp: panic_simps)
    have "length (items q) < cap q"
      using q1(1) push_full [OF Q, of q c] by (fastforce split: prod.splits sum.splits)
    then have "items q1 = items q @ [c]"
      using pipe_write_ok [OF Q, of q "[c]"] q1(1) by auto
    then show ?thesis using Cons.IH [OF q1(2) Cons.prems(2)] Key by simp
  next
    case Spin
    show ?thesis
    proof (cases "rd_pos r < length (rd_arr r)")
      case True
      obtain q1 r1 where s: "pipe_read_step Q q r = (q1, r1)" by (cases "pipe_read_step Q q r")
      note rs = read_step_cap [OF Q s]
      have "pipe_run Q es q1 r1 = Inr (q', r')" using Cons.prems(1) Spin True s by simp
      from Cons.IH [OF this] show ?thesis using rs True Spin by auto
    next
      case False
      then show ?thesis using Cons Spin by simp
    qed
  qed
qed

lemma pipe_run_total:
  assumes Q: "array_queue_ok Q items cap"
  shows "length (items q) + length (keys es) \<le> cap q \<Longrightarrow> \<exists>q' r'. pipe_run Q es q r = Inr (q', r')"
proof (induction es arbitrary: q r)
  case Nil
  then show ?case by simp
next
  case (Cons e es)
  show ?case
  proof (cases e)
    case (Key c)
    then obtain q1 where "pipe_write Q q [c] = Inr q1" "items q1 = items q @ [c]" "cap q1 = cap q"
      using pipe_write_ok [OF Q, of q "[c]"] Cons.prems by auto
    then show ?thesis using Cons.IH [of q1 r] Cons.prems Key
      by (auto simp del: pipe_write.simps)
  next
    case Spin
    obtain q1 r1 where s: "pipe_read_step Q q r = (q1, r1)" by (cases "pipe_read_step Q q r")
    have "length (items q1) \<le> length (items q)" "cap q1 = cap q"
      using read_step_cases [OF Q, of q r] s by (auto split: list.splits)
    then show ?thesis using Cons.IH [of q1 r1] Cons.IH [of q r] Cons.prems Spin s by auto
  qed
qed

lemma pipe_run_append:
  "pipe_run Q (xs @ ys) q r = rbind (pipe_run Q xs q r) (\<lambda>(q', r'). pipe_run Q ys q' r')"
proof (induction xs arbitrary: q r)
  case Nil
  then show ?case by simp
next
  case (Cons e xs)
  then show ?case
    by (cases e) (auto simp: rbind_def simp del: pipe_write.simps split: prod.splits sum.splits)
qed

lemma keys_append [simp]: "keys (xs @ ys) = keys xs @ keys ys"
  by (induction xs rule: keys.induct) auto

lemma keys_spins [simp]: "keys (replicate k Spin) = []"
  by (induction k) auto

lemma spins_finish:
  assumes Q: "array_queue_ok Q items cap"
  shows "rd_pos r \<le> length (rd_arr r) \<Longrightarrow> length (rd_arr r) - rd_pos r \<le> length (items q) \<Longrightarrow>
    length (rd_arr r) - rd_pos r \<le> k \<Longrightarrow>
    \<exists>q' r'. pipe_run Q (replicate k Spin) q r = Inr (q', r') \<and> rd_pos r' = length (rd_arr r)"
proof (induction k arbitrary: q r)
  case 0
  then show ?case by simp
next
  case (Suc k)
  show ?case
  proof (cases "rd_pos r < length (rd_arr r)")
    case True
    then obtain x xs where x: "items q = x # xs" using Suc.prems(2) by (cases "items q") auto
    let ?r = "r\<lparr>rd_arr := (rd_arr r)[rd_pos r := x], rd_pos := Suc (rd_pos r)\<rparr>"
    obtain q1 where q1: "pipe_read_step Q q r = (q1, ?r)" "items q1 = xs"
      using read_step_cases [OF Q, of q r] x by auto
    have "\<exists>q' r'. pipe_run Q (replicate k Spin) q1 ?r = Inr (q', r') \<and> rd_pos r' = length (rd_arr ?r)"
      using Suc.prems x q1(2) True by (intro Suc.IH) auto
    then show ?thesis using True q1(1) by simp
  next
    case False
    then have e: "rd_pos r = length (rd_arr r)" using Suc.prems(1) by simp
    then have "\<exists>q' r'. pipe_run Q (replicate k Spin) q r = Inr (q', r') \<and> rd_pos r' = length (rd_arr r)"
      by (intro Suc.IH) auto
    then show ?thesis using e by simp
  qed
qed

text \<open>The call without interference: it returns exactly if enough bytes are queued.\<close>

lemma pipe_read_loop_returns:
  assumes Q: "array_queue_ok Q items cap"
  shows "rd_pos r \<le> length (rd_arr r) \<Longrightarrow> length (rd_arr r) - rd_pos r \<le> length (items q) \<Longrightarrow>
    \<exists>q'. pipe_read_loop Q q r = Some (q', take (rd_pos r) (rd_arr r) @
        take (length (rd_arr r) - rd_pos r) (items q)) \<and>
      items q' = drop (length (rd_arr r) - rd_pos r) (items q) \<and> cap q' = cap q"
proof (induction "length (rd_arr r) - rd_pos r" arbitrary: q r)
  case 0
  then show ?case by (simp add: pipe_read_loop.simps)
next
  case (Suc n)
  then obtain x xs where x: "items q = x # xs" by (cases "items q") auto
  let ?r = "r\<lparr>rd_arr := (rd_arr r)[rd_pos r := x], rd_pos := Suc (rd_pos r)\<rparr>"
  obtain q1 where q1: "pipe_read_step Q q r = (q1, ?r)" "items q1 = xs" "cap q1 = cap q"
    using read_step_cases [OF Q, of q r] x by auto
  have lt: "rd_pos r < length (rd_arr r)" using Suc.hyps(2) by simp
  have n: "length (rd_arr r) - rd_pos r = Suc n" "length (rd_arr ?r) - rd_pos ?r = n"
    using Suc.hyps(2) lt by auto
  have "\<exists>q'. pipe_read_loop Q q1 ?r = Some (q', take (rd_pos ?r) (rd_arr ?r) @
        take (length (rd_arr ?r) - rd_pos ?r) (items q1)) \<and>
      items q' = drop (length (rd_arr ?r) - rd_pos ?r) (items q1) \<and> cap q' = cap q1"
    using Suc.prems lt q1(2) x n(2) by (intro Suc.hyps(1)) auto
  then show ?case using lt q1 x n
    by (subst pipe_read_loop.simps) (simp add: take_Suc_conv_app_nth)
qed

lemma pipe_read_loop_needs:
  assumes Q: "array_queue_ok Q items cap" and ret: "pipe_read_loop Q q r = Some res"
  shows "length (rd_arr r) - rd_pos r \<le> length (items q)"
proof -
  have "array_queue_ok Q items cap \<longrightarrow> length (rd_arr r) - rd_pos r \<le> length (items q)"
  proof (rule pipe_read_loop.raw_induct [where P = "\<lambda>Q q r res. array_queue_ok Q items cap \<longrightarrow>
        length (rd_arr r) - rd_pos r \<le> length (items q)", OF _ ret])
    fix f Q q r y
    assume IH: "\<And>Q q r y. f Q q r = Some y \<Longrightarrow>
        array_queue_ok Q items cap \<longrightarrow> length (rd_arr r) - rd_pos r \<le> length (items q)"
      and eq: "(if rd_pos r < length (rd_arr r)
        then case pipe_read_step Q q r of (q', r') \<Rightarrow> f Q q' r' else Some (q, rd_arr r)) = Some y"
    show "array_queue_ok Q items cap \<longrightarrow> length (rd_arr r) - rd_pos r \<le> length (items q)"
    proof
      assume Q: "array_queue_ok Q items cap"
      obtain q1 r1 where s: "pipe_read_step Q q r = (q1, r1)" by (cases "pipe_read_step Q q r")
      have "rd_pos r < length (rd_arr r) \<Longrightarrow> length (rd_arr r1) - rd_pos r1 \<le> length (items q1)"
        using eq IH Q s by auto
      then show "length (rd_arr r) - rd_pos r \<le> length (items q)"
        using read_step_cases [OF Q, of q r] s
        by (cases "rd_pos r < length (rd_arr r)") (auto split: list.splits)
    qed
  qed
  then show ?thesis using Q by simp
qed

section \<open>The interface of a file\<close>

text \<open>
  \<open>trait File\<close> of \<open>vfs/mod.rs\<close>, as the kernel uses it: \<open>write\<close> appends its bytes while there is
  room, \<open>read\<close> fills a slice with the oldest bytes. The offset argument is ignored by pipes.
\<close>

locale vfs_file =
  fixes read_op :: "'f \<Rightarrow> u8 list \<Rightarrow> ('f \<times> u8 list) option"
    and write_op :: "'f \<Rightarrow> u8 list \<Rightarrow> 'f res"
    and content :: "'f \<Rightarrow> u8 list"
    and room :: "'f \<Rightarrow> nat"
    and valid :: "'f \<Rightarrow> bool"
  assumes write_law: "valid f \<Longrightarrow> length (content f) + length xs \<le> room f \<Longrightarrow>
      \<exists>f'. write_op f xs = Inr f' \<and> content f' = content f @ xs \<and> room f' = room f \<and> valid f'"
    and read_law: "valid f \<Longrightarrow> length buf \<le> length (content f) \<Longrightarrow>
      \<exists>f'. read_op f buf = Some (f', take (length buf) (content f)) \<and>
        content f' = drop (length buf) (content f) \<and> room f' = room f \<and> valid f'"
begin

lemma write_all_appends:
  "valid f \<Longrightarrow> length (content f) + length (concat xss) \<le> room f \<Longrightarrow>
    \<exists>f'. write_all write_op f xss = Inr f' \<and> content f' = content f @ concat xss \<and>
      room f' = room f \<and> valid f'"
proof (induction xss arbitrary: f)
  case Nil
  then show ?case by simp
next
  case (Cons xs xss)
  then obtain f1 where "write_op f xs = Inr f1" "content f1 = content f @ xs" "room f1 = room f" "valid f1"
    using write_law [of f xs] by auto
  then show ?case using Cons.IH [of f1] Cons.prems(2) by auto
qed

lemma writes_then_read:
  assumes "valid f" "content f = []" "length (concat xss) \<le> room f" "length buf = length (concat xss)"
  shows "\<exists>f1 f2. write_all write_op f xss = Inr f1 \<and> read_op f1 buf = Some (f2, concat xss) \<and>
    content f2 = []"
proof -
  obtain f1 where f1: "write_all write_op f xss = Inr f1" "content f1 = concat xss" "valid f1"
    using write_all_appends [of f xss] assms by auto
  then show ?thesis using read_law [of f1 buf] assms(4) by auto
qed

end

interpretation pipe: vfs_file "pipe_read Q" "pipe_write Q" items cap
  "\<lambda>_. array_queue_ok Q items cap" for Q items cap
proof
  show "\<exists>f'. pipe_write Q f xs = Inr f' \<and> items f' = items f @ xs \<and> cap f' = cap f \<and>
      array_queue_ok Q items cap"
    if "array_queue_ok Q items cap" "length (items f) + length xs \<le> cap f" for f xs
    using pipe_write_ok [OF that] that(1) by blast
  show "\<exists>f'. pipe_read Q f buf = Some (f', take (length buf) (items f)) \<and>
      items f' = drop (length buf) (items f) \<and> cap f' = cap f \<and> array_queue_ok Q items cap"
    if "array_queue_ok Q items cap" "length buf \<le> length (items f)" for f buf
    using pipe_read_loop_returns [OF that(1), of "\<lparr>rd_arr = buf, rd_pos = 0\<rparr>" f] that
    by (simp add: pipe_read_def)
qed

section \<open>Properties\<close>

text \<open>
  C21: the pipe is a lossless FIFO between interrupt and system call: however the keyboard
  handler's writes and the iterations of a reader's loop interleave, the bytes the reader has
  received, followed by the bytes still queued, are the bytes queued at the start followed by the
  bytes typed, in order.
\<close>

theorem pipe_fifo:
  assumes "array_queue_ok Q items cap"
    and "pipe_run Q es q \<lparr>rd_arr = arr, rd_pos = 0\<rparr> = Inr (q', r')"
  shows "take (rd_pos r') (rd_arr r') @ items q' = items q @ keys es \<and>
    length (rd_arr r') = length arr"
  using pipe_run_fifo [OF assms] by simp

theorem pipe_fifo_witness:
  "\<exists>q' r'. pipe_run queue_ref [Spin, Key 104, Spin, Key 105, Key 33, Spin] (128, [])
      \<lparr>rd_arr = [0, 0], rd_pos = 0\<rparr> = Inr (q', r') \<and>
    take (rd_pos r') (rd_arr r') @ snd q' = [104, 105, 33]"
proof -
  have "\<exists>q' r'. pipe_run queue_ref [Spin, Key 104, Spin, Key 105, Key 33, Spin] (128, [])
      \<lparr>rd_arr = [0, 0], rd_pos = 0\<rparr> = Inr (q', r')"
    by (rule pipe_run_total [OF queue_ref_ok]) simp
  then obtain q' r' where r: "pipe_run queue_ref [Spin, Key 104, Spin, Key 105, Key 33, Spin]
      (128, []) \<lparr>rd_arr = [0, 0], rd_pos = 0\<rparr> = Inr (q', r')" by blast
  show ?thesis using pipe_fifo [OF queue_ref_ok r] r by (metis append_Nil keys.simps snd_conv)
qed

text \<open>
  A reader gets its bytes: if the bytes queued and typed are enough for its slice and fit the
  queue, then after as many iterations of its loop as it wants bytes the call is finished, and the
  slice holds the oldest of those bytes.
\<close>

theorem pipe_read_completes:
  assumes "array_queue_ok Q items cap"
    and "length (items q) + length (keys es) \<le> cap q"
    and "length arr \<le> length (items q) + length (keys es)"
    and "length arr \<le> k"
  shows "\<exists>q' r'. pipe_run Q (es @ replicate k Spin) q \<lparr>rd_arr = arr, rd_pos = 0\<rparr> = Inr (q', r') \<and>
    rd_pos r' = length arr \<and> rd_arr r' = take (length arr) (items q @ keys es)"
proof -
  let ?r = "\<lparr>rd_arr = arr, rd_pos = 0\<rparr>"
  obtain q1 r1 where r1: "pipe_run Q es q ?r = Inr (q1, r1)"
    using pipe_run_total [OF assms(1,2)] by blast
  have f: "take (rd_pos r1) (rd_arr r1) @ items q1 = items q @ keys es"
    "length (rd_arr r1) = length arr" "rd_pos r1 \<le> length arr"
    using pipe_run_fifo [OF assms(1) r1] by auto
  from arg_cong [OF f(1), of length]
  have "rd_pos r1 + length (items q1) = length (items q) + length (keys es)" using f(2,3) by simp
  then have "\<exists>q' r'. pipe_run Q (replicate k Spin) q1 r1 = Inr (q', r') \<and> rd_pos r' = length (rd_arr r1)"
    using assms(3,4) f by (intro spins_finish [OF assms(1)]) auto
  then obtain q' r' where r': "pipe_run Q (es @ replicate k Spin) q ?r = Inr (q', r')"
    "rd_pos r' = length arr"
    using r1 f(2) by (auto simp: pipe_run_append)
  have g: "take (rd_pos r') (rd_arr r') @ items q' = items q @ keys es" "length (rd_arr r') = length arr"
    using pipe_run_fifo [OF assms(1) r'(1)] by auto
  have "rd_arr r' = take (length arr) (items q @ keys es)"
    using g(2) r'(2) by (simp add: g(1) [symmetric])
  then show ?thesis using r' by blast
qed

theorem pipe_read_completes_witness:
  "\<exists>q' r'. pipe_run queue_ref ([Key 104, Spin, Key 105] @ replicate 2 Spin) (128, [])
      \<lparr>rd_arr = [0, 0], rd_pos = 0\<rparr> = Inr (q', r') \<and> rd_arr r' = [104, 105]"
  using pipe_read_completes [OF queue_ref_ok, of "(128, [])" "[Key 104, Spin, Key 105]" "[0, 0]" 2]
  by auto

text \<open>
  \<open>Pipe::write\<close> appends all its bytes if they fit the queue's capacity, and panics with
  ``Pipe is full'' otherwise.
\<close>

theorem pipe_write_capacity:
  assumes "array_queue_ok Q items cap" and "length (items q) \<le> cap q"
  shows "if length (items q) + length arr \<le> cap q
    then \<exists>q'. pipe_write Q q arr = Inr q' \<and> items q' = items q @ arr \<and> cap q' = cap q
    else pipe_write Q q arr = Inl (Expect ''Pipe is full'')"
  using pipe_write_ok [OF assms(1), of q arr] pipe_write_full [OF assms(1), of q arr] assms(2) by auto

theorem pipe_write_capacity_witness:
  "\<exists>q. pipe_write queue_ref (2, [1]) [7] = Inr q \<and>
    pipe_write queue_ref (2, [1]) [7, 8] = Inl (Expect ''Pipe is full'')"
  using pipe_write_capacity [OF queue_ref_ok, of "(2, [1])" "[7]"]
    pipe_write_capacity [OF queue_ref_ok, of "(2, [1])" "[7, 8]"] by auto

text \<open>
  Without interrupts \<open>Pipe::read\<close> returns exactly when the queue holds at least as many bytes
  as the slice; otherwise it spins for ever.
\<close>

theorem pipe_read_returns_iff:
  assumes "array_queue_ok Q items cap"
  shows "if length arr \<le> length (items q)
    then \<exists>q'. pipe_read Q q arr = Some (q', take (length arr) (items q)) \<and>
      items q' = drop (length arr) (items q)
    else pipe_read Q q arr = None"
proof (cases "length arr \<le> length (items q)")
  case True
  then show ?thesis using pipe.read_law [OF assms True] by auto
next
  case False
  then have "pipe_read Q q arr = None"
    using pipe_read_loop_needs [OF assms, of q "\<lparr>rd_arr = arr, rd_pos = 0\<rparr>"]
    by (cases "pipe_read Q q arr") (auto simp: pipe_read_def)
  then show ?thesis using False by simp
qed

theorem pipe_read_returns_iff_witness:
  "pipe_read queue_ref (128, [5]) [0, 0] = None"
  using pipe_read_returns_iff [OF queue_ref_ok, of "[0, 0]" "(128, [5])"] by simp

text \<open>
  Bytes written to an empty pipe in any number of writes come back, in order, from one read of
  their total length, and leave the pipe empty.
\<close>

theorem pipe_write_read_roundtrip:
  assumes "array_queue_ok Q items cap" and "0 < n"
    and "length (concat xss) \<le> n" and "length buf = length (concat xss)"
  shows "\<exists>q q1 q2. pipe_new Q n = Inr q \<and> write_all (pipe_write Q) q xss = Inr q1 \<and>
    pipe_read Q q1 buf = Some (q2, concat xss) \<and> items q2 = []"
proof -
  obtain q where q: "pipe_new Q n = Inr q" "items q = []" "cap q = n"
    using assms(1,2) by (auto simp: pipe_new_def array_queue_ok_def)
  then show ?thesis using pipe.writes_then_read [OF assms(1) q(2) _ assms(4)] assms(3) by auto
qed

theorem pipe_write_read_roundtrip_witness:
  "\<exists>q q1 q2. pipe_new queue_ref 128 = Inr q \<and>
    write_all (pipe_write queue_ref) q [[104], [105, 33]] = Inr q1 \<and>
    pipe_read queue_ref q1 [0, 0, 0] = Some (q2, [104, 105, 33])"
  using pipe_write_read_roundtrip [OF queue_ref_ok, of 128 "[[104], [105, 33]]" "[0, 0, 0]"] by auto

end
