(* ===== verification/Spin_Lock.thy ===== *)
theory Spin_Lock
  imports Prelude
begin

text \<open>
  The spin locks of the crate \<open>spinning_top\<close> (\<open>Spinlock\<close>, \<open>RwSpinlock\<close>), a parameter of the model.
\<close>

text \<open>
  One attempt to take a lock on the only CPU, with interrupts disabled: the lock's new state, or
  \<^term>\<open>None\<close> if the call never returns. The documented behaviour: a free lock is taken, a lock
  that is held is waited for, and nobody else is running that could release it.
\<close>

record spin =
  spin_acquire :: "bool \<Rightarrow> bool option"

definition spin_ok :: "spin \<Rightarrow> bool" where
  "spin_ok L \<longleftrightarrow> spin_acquire L False = Some True \<and> spin_acquire L True = None"

definition spin_ref :: spin where
  "spin_ref = \<lparr>spin_acquire = (\<lambda>held. if held then None else Some True)\<rparr>"

lemma spin_ref_ok: "spin_ok spin_ref"
  by (simp add: spin_ok_def spin_ref_def)

end
