(* ===== verification/Sched.thy ===== *)
theory Sched
  imports Spin_Lock
begin

text \<open>
  The scheduler: \<open>kernel/src/sched.rs\<close>. The process list and the index of the current process are
  two global cells, each behind a spin lock of the crate \<open>spinning_top\<close>; the timer interrupt calls
  \<open>schedule\<close>, which saves the stack pointer of the interrupted process and picks the next ready one
  in round-robin order. Locks are explicit, because \<open>schedule\<close> calls \<open>delete_process\<close> while it
  holds the process list.
\<close>

section \<open>Processes\<close>

datatype status = READY | RUNNING | DEAD

text \<open>
  The kernel stack is the address of its box, the mapper the number of the shared page table.
\<close>

record process =
  p_id :: u64
  p_status :: status
  p_rsp :: u64
  p_kernel_stack :: "u64 option"
  p_mapper :: "nat option"
  p_pages :: "u64 option"

record sched =
  proc_list :: "process list option"
  list_locked :: bool
  current_process :: "nat option"
  current_locked :: bool

definition sched_uninit :: sched where
  "sched_uninit =
     \<lparr>proc_list = None, list_locked = False, current_process = None, current_locked = False\<rparr>"

text \<open>\<open>init_once\<close> keeps a cell that is already initialised.\<close>

definition kernel_process :: process where
  "kernel_process =
     \<lparr>p_id = 0, p_status = RUNNING, p_rsp = 0, p_kernel_stack = None, p_mapper = None,
      p_pages = None\<rparr>"

definition sched_init :: "sched \<Rightarrow> sched" where
  "sched_init s =
     s\<lparr>proc_list := (case proc_list s of None \<Rightarrow> Some [kernel_process] | Some ps \<Rightarrow> Some ps),
       current_process := (case current_process s of None \<Rightarrow> Some 0 | Some c \<Rightarrow> Some c)\<rparr>"

definition acquire_list :: "spin \<Rightarrow> sched \<Rightarrow> (sched \<times> process list) run" where
  "acquire_list L s =
     (case proc_list s of
        None \<Rightarrow> Some (Inl UnwrapFailed)
      | Some ps \<Rightarrow>
          (case spin_acquire L (list_locked s) of
             None \<Rightarrow> None
           | Some b \<Rightarrow> Some (Inr (s\<lparr>list_locked := b\<rparr>, ps))))"

definition acquire_current :: "spin \<Rightarrow> sched \<Rightarrow> (sched \<times> nat) run" where
  "acquire_current L s =
     (case current_process s of
        None \<Rightarrow> Some (Inl UnwrapFailed)
      | Some c \<Rightarrow>
          (case spin_acquire L (current_locked s) of
             None \<Rightarrow> None
           | Some b \<Rightarrow> Some (Inr (s\<lparr>current_locked := b\<rparr>, c))))"

text \<open>The push at the end of \<open>add_process\<close> and \<open>add_user_process\<close>.\<close>

definition push_process :: "spin \<Rightarrow> sched \<Rightarrow> process \<Rightarrow> sched run" where
  "push_process L s p =
     runbind (acquire_list L s) (\<lambda>(s1, ps).
       Some (Inr (s1\<lparr>proc_list := Some (ps @ [p]), list_locked := False\<rparr>)))"

definition delete_process :: "spin \<Rightarrow> sched \<Rightarrow> nat \<Rightarrow> sched run" where
  "delete_process L s index =
     runbind (acquire_list L s) (\<lambda>(s1, ps).
       if index < length ps
       then Some (Inr (s1\<lparr>proc_list := Some (take index ps @ drop (Suc index) ps),
                          list_locked := False\<rparr>))
       else Some (Inl IndexOutOfBounds))"

definition mark_current_as_dead :: "spin \<Rightarrow> sched \<Rightarrow> sched run" where
  "mark_current_as_dead L s =
     runbind (acquire_list L s) (\<lambda>(s1, ps).
     runbind (acquire_current L s1) (\<lambda>(s2, index).
       if index < length ps
       then Some (Inr (s2\<lparr>proc_list := Some (ps[index := (ps ! index)\<lparr>p_status := DEAD\<rparr>]),
                          list_locked := False, current_locked := False\<rparr>))
       else Some (Inl IndexOutOfBounds)))"

text \<open>
  The loop of \<open>schedule\<close>. It does not end if no process is ready. (The index cannot overflow: the
  length of a vector is at most \<open>isize::MAX\<close>.)
\<close>

partial_function (option) schedule_loop ::
  "process list \<Rightarrow> nat \<Rightarrow> (process list \<times> nat) run" where
  "schedule_loop ps index =
     (let i = (if length ps \<le> index + 1 then 0 else index + 1)
      in if i < length ps
         then (if p_status (ps ! i) = READY
               then Some (Inr (ps[i := (ps ! i)\<lparr>p_status := RUNNING\<rparr>], i))
               else schedule_loop ps i)
         else Some (Inl IndexOutOfBounds))"

definition schedule :: "spin \<Rightarrow> sched \<Rightarrow> u64 \<Rightarrow> (sched \<times> u64) run" where
  "schedule L s rsp =
     runbind (acquire_current L s) (\<lambda>(s1, index).
     runbind (acquire_list L s1) (\<lambda>(s2, ps).
       if length ps \<le> index then Some (Inl IndexOutOfBounds)
       else
         let ps1 = ps[index := (ps ! index)\<lparr>p_rsp := rsp\<rparr>];
             s3 = s2\<lparr>proc_list := Some ps1\<rparr>
         in runbind
              (if p_status (ps1 ! index) \<noteq> DEAD
               then Some (Inr (s3\<lparr>proc_list :=
                      Some (ps1[index := (ps1 ! index)\<lparr>p_status := READY\<rparr>])\<rparr>))
               else delete_process L s3 index)
              (\<lambda>s4. case proc_list s4 of
                 None \<Rightarrow> Some (Inl UnwrapFailed)
               | Some ps2 \<Rightarrow>
                   runbind (schedule_loop ps2 index) (\<lambda>(ps3, i).
                     Some (Inr (s4\<lparr>proc_list := Some ps3, list_locked := False,
                                   current_process := Some i, current_locked := False\<rparr>,
                                p_rsp (ps3 ! i)))))))"

section \<open>Runs of the scheduler\<close>

text \<open>The timer interrupts with the given stack pointers; the stack pointers returned.\<close>

fun ticks :: "spin \<Rightarrow> sched \<Rightarrow> u64 list \<Rightarrow> (sched \<times> u64 list) run" where
  "ticks L s [] = Some (Inr (s, []))"
| "ticks L s (rsp # rsps) =
     runbind (schedule L s rsp) (\<lambda>(s', r).
     runbind (ticks L s' rsps) (\<lambda>(s'', rs). Some (Inr (s'', r # rs))))"

text \<open>
  What the scheduler keeps: the current process is the only one that is not ready. It is running,
  or it has been marked dead and waits for the next timer interrupt.
\<close>

definition sched_state :: "sched \<Rightarrow> process list \<Rightarrow> nat \<Rightarrow> bool" where
  "sched_state s ps c \<longleftrightarrow>
     proc_list s = Some ps \<and> current_process s = Some c \<and>
     \<not> list_locked s \<and> \<not> current_locked s \<and> c < length ps \<and>
     p_status (ps ! c) \<noteq> READY \<and> (\<forall>i<length ps. i \<noteq> c \<longrightarrow> p_status (ps ! i) = READY)"

inductive sched_step :: "spin \<Rightarrow> sched \<Rightarrow> sched \<Rightarrow> bool" for L where
  tick: "schedule L s rsp = Some (Inr (s', r)) \<Longrightarrow> sched_step L s s'"
| spawn: "p_status p = READY \<Longrightarrow> push_process L s p = Some (Inr s') \<Longrightarrow> sched_step L s s'"
| die: "mark_current_as_dead L s = Some (Inr s') \<Longrightarrow> sched_step L s s'"

inductive sched_reach :: "spin \<Rightarrow> sched \<Rightarrow> bool" for L where
  start: "sched_reach L (sched_init sched_uninit)"
| step: "sched_reach L s \<Longrightarrow> sched_step L s s' \<Longrightarrow> sched_reach L s'"

inductive_cases sched_stepE: "sched_step L s s'"


section \<open>The contract: round robin\<close>

lemma mod_shift: "(Suc c mod n + j + 1) mod n = (c + Suc j + 1) mod (n :: nat)"
  using mod_add_left_eq [of "Suc c" n "j + 1"] by (simp add: ac_simps)

text \<open>
  What the scheduler promises the timer interrupt: the saved stack pointers of the processes and
  the index of the running one; a tick stores the pointer of the interrupted process and resumes
  the next one.
\<close>

fun rr_tick :: "u64 list \<times> nat \<Rightarrow> u64 \<Rightarrow> (u64 list \<times> nat) \<times> u64" where
  "rr_tick (rs, c) rsp =
     (let rs' = rs[c := rsp]; c' = Suc c mod length rs in ((rs', c'), rs' ! c'))"

text \<open>The contract's view of the kernel's state, if a live process is running.\<close>

definition sched_view :: "sched \<Rightarrow> (u64 list \<times> nat) option" where
  "sched_view s =
     (case (proc_list s, current_process s) of
        (Some ps, Some c) \<Rightarrow>
          if \<not> list_locked s \<and> \<not> current_locked s \<and> c < length ps \<and>
             map p_status ps = (replicate (length ps) READY)[c := RUNNING]
          then Some (map p_rsp ps, c) else None
      | _ \<Rightarrow> None)"

locale round_robin =
  fixes view :: "'s \<Rightarrow> (u64 list \<times> nat) option"
    and tick :: "'s \<Rightarrow> u64 \<Rightarrow> ('s \<times> u64) run"
    and all_ticks :: "'s \<Rightarrow> u64 list \<Rightarrow> ('s \<times> u64 list) run"
  assumes view_bound: "view s = Some (rs, c) \<Longrightarrow> c < length rs"
    and tick_refines: "view s = Some v \<Longrightarrow>
      \<exists>s' v' r. tick s rsp = Some (Inr (s', r)) \<and> rr_tick v rsp = (v', r) \<and> view s' = Some v'"
    and all_ticks_Nil: "all_ticks s [] = Some (Inr (s, []))"
    and all_ticks_Cons: "all_ticks s (rsp # rsps) =
      runbind (tick s rsp) (\<lambda>(s', r).
        runbind (all_ticks s' rsps) (\<lambda>(s'', rs). Some (Inr (s'', r # rs))))"
begin

text \<open>
  Every sequence of ticks completes. Tick \<open>j\<close> resumes process \<open>c + j + 1\<close> (modulo \<open>n\<close>), with the
  pointer saved before the run during the first \<open>n - 1\<close> ticks, and later with the pointer that this
  process had when it was interrupted, \<open>n - 1\<close> ticks before.
\<close>

lemma ticks_resume:
  "view s = Some (rs, c) \<Longrightarrow>
    \<exists>s' rs' out. all_ticks s rsps = Some (Inr (s', out)) \<and>
      view s' = Some (rs', (c + length rsps) mod length rs) \<and> length rs' = length rs \<and>
      length out = length rsps \<and>
      (\<forall>j<length rsps. out ! j =
         (if j + 1 < length rs then rs ! ((c + j + 1) mod length rs)
          else rsps ! (j + 1 - length rs)))"
proof (induction rsps arbitrary: s rs c)
  case Nil
  then show ?case using view_bound [OF Nil] by (simp add: all_ticks_Nil)
next
  case (Cons x rsps)
  let ?n = "length rs" and ?rs1 = "rs[c := x]"
  have c: "c < ?n" by (rule view_bound [OF Cons.prems])
  let ?c1 = "Suc c mod ?n"
  obtain s1 where s1: "tick s x = Some (Inr (s1, ?rs1 ! ?c1))" "view s1 = Some (?rs1, ?c1)"
    using tick_refines [OF Cons.prems, of x] by (auto simp: Let_def)
  obtain s2 rs2 out where s2: "all_ticks s1 rsps = Some (Inr (s2, out))"
    "view s2 = Some (rs2, (?c1 + length rsps) mod ?n)" "length rs2 = ?n"
    "length out = length rsps"
    and out: "\<And>j. j < length rsps \<Longrightarrow> out ! j =
        (if j + 1 < ?n then ?rs1 ! ((?c1 + j + 1) mod ?n) else rsps ! (j + 1 - ?n))"
    using Cons.IH [OF s1(2)] by auto
  have all: "all_ticks s (x # rsps) = Some (Inr (s2, (?rs1 ! ?c1) # out))"
    by (simp add: all_ticks_Cons s1 s2)
  have cur: "(?c1 + length rsps) mod ?n = (c + length (x # rsps)) mod ?n"
    by (simp add: mod_simps)
  have "((?rs1 ! ?c1) # out) ! j =
      (if j + 1 < ?n then rs ! ((c + j + 1) mod ?n) else (x # rsps) ! (j + 1 - ?n))"
    if j: "j < length (x # rsps)" for j
  proof (cases j)
    case 0
    show ?thesis
    proof (cases "1 < ?n")
      case True
      then have "?c1 \<noteq> c" using c by (cases "Suc c = ?n") auto
      then show ?thesis using 0 True by simp
    next
      case False
      then have "?n = 1" "c = 0" using c by auto
      then show ?thesis using 0 by simp
    qed
  next
    case (Suc i)
    then have o: "out ! i =
        (if i + 1 < ?n then ?rs1 ! ((?c1 + i + 1) mod ?n) else rsps ! (i + 1 - ?n))"
      using out j by simp
    have m: "(?c1 + i + 1) mod ?n = (c + j + 1) mod ?n" unfolding Suc by (rule mod_shift)
    consider "j + 1 < ?n" | "j + 1 = ?n" | "?n < j + 1" by linarith
    then show ?thesis
    proof cases
      case 1
      have "(c + j + 1) mod ?n \<noteq> c"
        using 1 c by (cases "c + j + 1 < ?n") (auto simp: le_mod_geq)
      then show ?thesis using o m 1 Suc by simp
    next
      case 2
      then have "c + j + 1 = c + ?n" by linarith
      then have "(c + j + 1) mod ?n = c" using c by (simp only: mod_add_self2 mod_less)
      then show ?thesis using o m 2 Suc c by simp
    next
      case 3
      then show ?thesis using o Suc by (simp add: Suc_diff_le)
    qed
  qed
  then show ?case using all s2 cur by (intro exI [of _ s2] exI [of _ rs2] exI) auto
qed

end

section \<open>Lemmas\<close>

lemma acquire_list_free:
  "spin_ok L \<Longrightarrow> proc_list s = Some ps \<Longrightarrow> \<not> list_locked s \<Longrightarrow>
    acquire_list L s = Some (Inr (s\<lparr>list_locked := True\<rparr>, ps))"
  by (simp add: acquire_list_def spin_ok_def)

lemma acquire_list_held:
  "spin_ok L \<Longrightarrow> proc_list s = Some ps \<Longrightarrow> list_locked s \<Longrightarrow> acquire_list L s = None"
  by (simp add: acquire_list_def spin_ok_def)

lemma acquire_current_free:
  "spin_ok L \<Longrightarrow> current_process s = Some c \<Longrightarrow> \<not> current_locked s \<Longrightarrow>
    acquire_current L s = Some (Inr (s\<lparr>current_locked := True\<rparr>, c))"
  by (simp add: acquire_current_def spin_ok_def)

lemmas acquire_simps = acquire_list_free acquire_list_held acquire_current_free

lemma delete_process_deadlock:
  "spin_ok L \<Longrightarrow> proc_list s = Some ps \<Longrightarrow> list_locked s \<Longrightarrow> delete_process L s i = None"
  by (simp add: delete_process_def acquire_list_held)

subsection \<open>The search for the next ready process\<close>

lemma next_index:
  "c < n \<Longrightarrow> (if n \<le> c + 1 then 0 else c + 1) = Suc c mod n"
  by (auto simp: le_Suc_eq)

lemma schedule_loop_here:
  assumes "c < length ps" "p_status (ps ! (Suc c mod length ps)) = READY"
  shows "schedule_loop ps c =
    Some (Inr (ps[Suc c mod length ps := (ps ! (Suc c mod length ps))\<lparr>p_status := RUNNING\<rparr>],
               Suc c mod length ps))"
  using assms mod_less_divisor [of "length ps" "Suc c"]
  by (subst schedule_loop.simps) (simp only: next_index Let_def, auto)

lemma schedule_loop_skip:
  assumes "c < length ps" "p_status (ps ! (Suc c mod length ps)) \<noteq> READY"
  shows "schedule_loop ps c = schedule_loop ps (Suc c mod length ps)"
  using assms mod_less_divisor [of "length ps" "Suc c"]
  by (subst schedule_loop.simps) (simp only: next_index Let_def, auto)

lemma schedule_loop_first:
  "c < length ps \<Longrightarrow> p_status (ps ! ((c + k + 1) mod length ps)) = READY \<Longrightarrow>
    (\<And>j. j < k \<Longrightarrow> p_status (ps ! ((c + j + 1) mod length ps)) \<noteq> READY) \<Longrightarrow>
    schedule_loop ps c =
      Some (Inr (ps[(c + k + 1) mod length ps :=
                    (ps ! ((c + k + 1) mod length ps))\<lparr>p_status := RUNNING\<rparr>],
                 (c + k + 1) mod length ps))"
proof (induction k arbitrary: c)
  case 0
  then show ?case by (simp add: schedule_loop_here)
next
  case (Suc k)
  let ?n = "length ps" and ?c = "Suc c mod length ps"
  have n: "?c < ?n" using Suc.prems(1) by (intro mod_less_divisor) linarith
  have sh: "(?c + j + 1) mod ?n = (c + Suc j + 1) mod ?n" for j by (rule mod_shift)
  have skip: "schedule_loop ps c = schedule_loop ps ?c"
    using Suc.prems(1) Suc.prems(3) [of 0] by (simp add: schedule_loop_skip)
  have "schedule_loop ps ?c =
      Some (Inr (ps[(?c + k + 1) mod ?n := (ps ! ((?c + k + 1) mod ?n))\<lparr>p_status := RUNNING\<rparr>],
                 (?c + k + 1) mod ?n))"
  proof (rule Suc.IH [OF n])
    show "p_status (ps ! ((?c + k + 1) mod ?n)) = READY" using Suc.prems(2) by (simp only: sh)
    show "p_status (ps ! ((?c + j + 1) mod ?n)) \<noteq> READY" if "j < k" for j
      using Suc.prems(3) [of "Suc j"] that by (simp only: sh) simp
  qed
  then show ?case by (simp only: skip sh)
qed

lemma schedule_loop_returns:
  assumes "schedule_loop ps c = Some y" "ps \<noteq> []"
  shows "\<exists>i<length ps. p_status (ps ! i) = READY"
proof -
  have "ps \<noteq> [] \<longrightarrow> (\<exists>i<length ps. p_status (ps ! i) = READY)"
  proof (rule schedule_loop.raw_induct [OF _ assms(1)])
    fix f :: "process list \<Rightarrow> nat \<Rightarrow> (process list \<times> nat) run" and ps i z
    assume IH: "\<And>ps i z. f ps i = Some z \<Longrightarrow>
      ps \<noteq> [] \<longrightarrow> (\<exists>i<length ps. p_status (ps ! i) = READY)"
    assume "(let i = if length ps \<le> i + 1 then 0 else i + 1
       in if i < length ps then if p_status (ps ! i) = READY
            then Some (Inr (ps[i := (ps ! i)\<lparr>p_status := RUNNING\<rparr>], i)) else f ps i
          else Some (Inl IndexOutOfBounds)) = Some z"
    then show "ps \<noteq> [] \<longrightarrow> (\<exists>i<length ps. p_status (ps ! i) = READY)"
      using IH by (auto simp: Let_def split: if_splits)
  qed
  then show ?thesis using assms(2) by simp
qed


lemma schedule_loop_never:
  "ps \<noteq> [] \<Longrightarrow> (\<And>i. i < length ps \<Longrightarrow> p_status (ps ! i) \<noteq> READY) \<Longrightarrow> schedule_loop ps c = None"
  by (cases "schedule_loop ps c") (auto dest: schedule_loop_returns)

lemma cyclic_index:
  fixes i n :: nat
  assumes "i < n" "c < n" shows "\<exists>k<n. i = (c + k + 1) mod n"
proof (cases "c < i")
  case True
  then have "i = (c + (i - c - 1) + 1) mod n" using assms by simp
  then show ?thesis using assms by (intro exI [of _ "i - c - 1"]) auto
next
  case False
  then have "c + (n + i - c - 1) + 1 = i + n" using assms by linarith
  then have "i = (c + (n + i - c - 1) + 1) mod n" using assms by (simp only: mod_add_self2 mod_less)
  then show ?thesis using assms False by (intro exI [of _ "n + i - c - 1"]) auto
qed

subsection \<open>One tick\<close>

lemma sched_unlock:
  "\<not> list_locked s \<Longrightarrow> \<not> current_locked s \<Longrightarrow>
    s\<lparr>proc_list := a, list_locked := False, current_process := b, current_locked := False\<rparr> =
    s\<lparr>proc_list := a, current_process := b\<rparr>"
  by (cases s) simp

lemma schedule_live:
  fixes rsp :: u64
  assumes L: "spin_ok L" and st: "sched_state s ps c" and live: "p_status (ps ! c) \<noteq> DEAD"
  defines "c' \<equiv> Suc c mod length ps"
    and "ps1 \<equiv> ps[c := (ps ! c)\<lparr>p_rsp := rsp, p_status := READY\<rparr>]"
  shows "schedule L s rsp =
    Some (Inr (s\<lparr>proc_list := Some (ps1[c' := (ps1 ! c')\<lparr>p_status := RUNNING\<rparr>]),
                 current_process := Some c'\<rparr>, p_rsp (ps1 ! c')))"
proof -
  note s = st [unfolded sched_state_def]
  have c: "c < length ps" using s by simp
  have c': "c' < length ps" unfolding c'_def using c by (intro mod_less_divisor) linarith
  have "p_status (ps1 ! c') = READY"
    using s c' by (cases "c' = c") (auto simp: ps1_def)
  then have loop: "schedule_loop ps1 c =
      Some (Inr (ps1[c' := (ps1 ! c')\<lparr>p_status := RUNNING\<rparr>], c'))"
    using schedule_loop_here [of c ps1] c by (simp add: c'_def ps1_def)
  have upd: "ps[c := (ps ! c)\<lparr>p_rsp := rsp, p_status := READY\<rparr>] = ps1"
    by (simp add: ps1_def)
  have len: "length ps1 = length ps" by (simp add: ps1_def)
  show ?thesis
    using L s live c c' loop len unfolding schedule_def
    by (simp add: acquire_simps upd Let_def sched_unlock)
qed

lemma sched_state_live:
  fixes rsp :: u64
  assumes st: "sched_state s ps c"
  defines "c' \<equiv> Suc c mod length ps"
    and "ps1 \<equiv> ps[c := (ps ! c)\<lparr>p_rsp := rsp, p_status := READY\<rparr>]"
  shows "sched_state (s\<lparr>proc_list := Some (ps1[c' := (ps1 ! c')\<lparr>p_status := RUNNING\<rparr>]),
                 current_process := Some c'\<rparr>) (ps1[c' := (ps1 ! c')\<lparr>p_status := RUNNING\<rparr>]) c'"
proof -
  note s = st [unfolded sched_state_def]
  have c: "c < length ps" using s by simp
  have c': "c' < length ps" unfolding c'_def using c by (intro mod_less_divisor) linarith
  show ?thesis using s c c' by (auto simp: sched_state_def ps1_def nth_list_update)
qed

lemma schedule_dead:
  assumes "spin_ok L" "sched_state s ps c" "p_status (ps ! c) = DEAD"
  shows "schedule L s rsp = None"
  using assms unfolding schedule_def sched_state_def
  by (simp add: acquire_simps delete_process_deadlock [where ps = "ps[c := (ps ! c)\<lparr>p_rsp := rsp\<rparr>]"])

lemma mark_current_as_dead_state:
  assumes "spin_ok L" "sched_state s ps c"
  shows "mark_current_as_dead L s =
    Some (Inr (s\<lparr>proc_list := Some (ps[c := (ps ! c)\<lparr>p_status := DEAD\<rparr>])\<rparr>))"
    and "sched_state (s\<lparr>proc_list := Some (ps[c := (ps ! c)\<lparr>p_status := DEAD\<rparr>])\<rparr>)
      (ps[c := (ps ! c)\<lparr>p_status := DEAD\<rparr>]) c"
  using assms unfolding mark_current_as_dead_def sched_state_def
  by (auto simp: acquire_simps nth_list_update)

lemma push_process_state:
  assumes "spin_ok L" "sched_state s ps c" "p_status p = READY"
  shows "push_process L s p = Some (Inr (s\<lparr>proc_list := Some (ps @ [p])\<rparr>))"
    and "sched_state (s\<lparr>proc_list := Some (ps @ [p])\<rparr>) (ps @ [p]) c"
  using assms unfolding push_process_def sched_state_def
  by (auto simp: acquire_simps nth_append less_Suc_eq)

lemma sched_init_state: "sched_state (sched_init sched_uninit) [kernel_process] 0"
  by (simp add: sched_state_def sched_init_def sched_uninit_def kernel_process_def)

lemma sched_step_state:
  assumes "spin_ok L" "sched_step L s s'" "sched_state s ps c"
  shows "\<exists>ps' c'. sched_state s' ps' c'"
  using assms(2)
proof (cases rule: sched_step.cases)
  case (tick rsp r)
  then have "p_status (ps ! c) \<noteq> DEAD" using schedule_dead [OF assms(1,3)] by auto
  then show ?thesis
    using tick schedule_live [OF assms(1,3)] sched_state_live [OF assms(3)] by fastforce
next
  case (spawn p)
  then show ?thesis using push_process_state [OF assms(1,3)] by fastforce
next
  case die
  then show ?thesis using mark_current_as_dead_state [OF assms(1,3)] by fastforce
qed

lemma sched_reach_state: "sched_reach L s \<Longrightarrow> spin_ok L \<Longrightarrow> \<exists>ps c. sched_state s ps c"
proof (induction rule: sched_reach.induct)
  case start
  then show ?case using sched_init_state by blast
next
  case (step s s')
  then show ?case using sched_step_state by blast
qed

subsection \<open>The scheduler implements round robin\<close>

lemma running_statuses:
  assumes "c < length ps"
  shows "map p_status ps = (replicate (length ps) READY)[c := RUNNING] \<longleftrightarrow>
    p_status (ps ! c) = RUNNING \<and> (\<forall>i<length ps. i \<noteq> c \<longrightarrow> p_status (ps ! i) = READY)"
  using assms by (auto simp: list_eq_iff_nth_eq nth_list_update)

lemma sched_view_iff:
  "sched_view s = Some (rs, c) \<longleftrightarrow>
    (\<exists>ps. sched_state s ps c \<and> p_status (ps ! c) = RUNNING \<and> rs = map p_rsp ps)"
proof (cases "proc_list s")
  case None
  then show ?thesis by (simp add: sched_view_def sched_state_def)
next
  case (Some ps)
  then show ?thesis
    by (cases "current_process s")
      (auto simp: sched_view_def sched_state_def running_statuses)
qed

lemma map_rsp_status:
  "i < length ps \<Longrightarrow> map p_rsp (ps[i := (ps ! i)\<lparr>p_status := a\<rparr>]) = map p_rsp ps"
  by (simp add: map_update list_update_same_conv)

lemma schedule_refines:
  assumes L: "spin_ok L" and v: "sched_view s = Some v"
  shows "\<exists>s' v' r. schedule L s rsp = Some (Inr (s', r)) \<and> rr_tick v rsp = (v', r) \<and>
    sched_view s' = Some v'"
proof -
  obtain rs c where vc: "v = (rs, c)" by (cases v)
  obtain ps where ps: "sched_state s ps c" "p_status (ps ! c) = RUNNING" "rs = map p_rsp ps"
    using v by (auto simp: vc sched_view_iff)
  have c: "c < length ps" using ps(1) by (simp add: sched_state_def)
  let ?c = "Suc c mod length ps" and ?ps1 = "ps[c := (ps ! c)\<lparr>p_rsp := rsp, p_status := READY\<rparr>]"
  let ?ps2 = "?ps1[?c := (?ps1 ! ?c)\<lparr>p_status := RUNNING\<rparr>]"
  let ?s = "s\<lparr>proc_list := Some ?ps2, current_process := Some ?c\<rparr>"
  have c': "?c < length ps" using c by (intro mod_less_divisor) linarith
  have m: "map p_rsp ?ps2 = (map p_rsp ps)[c := rsp]"
    using c' by (simp only: map_rsp_status length_list_update) (simp add: map_update)
  have "sched_view ?s = Some (map p_rsp ?ps2, ?c)"
    using sched_state_live [OF ps(1), of rsp] c' by (auto simp: sched_view_iff)
  moreover have "rr_tick v rsp = ((map p_rsp ?ps2, ?c), p_rsp (?ps1 ! ?c))"
    unfolding vc ps(3) m rr_tick.simps Let_def length_map
    using c c' by (auto simp: nth_list_update)
  ultimately show ?thesis using schedule_live [OF L ps(1), of rsp] ps(2) by simp
qed


text \<open>With locks that work as documented, the kernel's scheduler is a round robin.\<close>

interpretation kernel_rr: round_robin "\<lambda>s. if spin_ok L then sched_view s else None"
  "schedule L" "ticks L" for L
proof
  show "c < length rs" if "(if spin_ok L then sched_view s else None) = Some (rs, c)" for s rs c
    using that by (auto simp: sched_view_iff sched_state_def split: if_splits)
  show "\<exists>s' v' r. schedule L s rsp = Some (Inr (s', r)) \<and> rr_tick v rsp = (v', r) \<and>
      (if spin_ok L then sched_view s' else None) = Some v'"
    if "(if spin_ok L then sched_view s else None) = Some v" for s v rsp
    using that schedule_refines [of L s v rsp] by (auto split: if_splits)
qed simp_all

section \<open>Properties\<close>

text \<open>Three processes, the second one running.\<close>

definition sample_process :: "u64 \<Rightarrow> status \<Rightarrow> u64 \<Rightarrow> process" where
  "sample_process n st r =
     \<lparr>p_id = n, p_status = st, p_rsp = r, p_kernel_stack = None, p_mapper = None, p_pages = None\<rparr>"

definition sample_sched :: sched where
  "sample_sched =
     \<lparr>proc_list = Some [sample_process 0 READY 0x1000, sample_process 1 RUNNING 0,
                        sample_process 2 READY 0x3000],
      list_locked = False, current_process = Some 1, current_locked = False\<rparr>"

lemma sample_sched_view: "sched_view sample_sched = Some ([0x1000, 0, 0x3000], 1)"
  by (simp add: sched_view_def sample_sched_def sample_process_def)

lemma sample_sched_state: "\<exists>ps. sched_state sample_sched ps 1 \<and> p_status (ps ! 1) = RUNNING"
  using sample_sched_view by (auto simp: sched_view_iff)

text \<open>
  C2: \<open>schedule\<close> refines one tick of a round robin: whenever a live process is running, it returns
  (no panic, no endless loop), it has stored the interrupted process's stack pointer, it returns
  the stored stack pointer of the next process in the list, which is now the running one, and
  every lock is free again.
\<close>

theorem schedule_round_robin:
  assumes "spin_ok L" "sched_view s = Some v"
  shows "\<exists>s' v' r. schedule L s rsp = Some (Inr (s', r)) \<and> rr_tick v rsp = (v', r) \<and>
    sched_view s' = Some v'"
  using kernel_rr.tick_refines [of L s v rsp] assms by simp

theorem schedule_round_robin_witness:
  "\<exists>s' v' r. schedule spin_ref sample_sched 0x2000 = Some (Inr (s', r)) \<and>
    rr_tick ([0x1000, 0, 0x3000], 1) 0x2000 = (v', r) \<and> sched_view s' = Some v'"
  by (rule schedule_round_robin [OF spin_ref_ok sample_sched_view])

text \<open>
  C15: fairness and resumption. With \<open>n\<close> processes, every sequence of timer interrupts completes;
  interrupt \<open>j\<close> switches to process \<open>(c + j + 1) mod n\<close>, and from the \<open>n\<close>-th interrupt on it resumes
  that process with the very stack pointer that was saved when it was interrupted \<open>n - 1\<close>
  interrupts earlier. So every process runs once in every \<open>n\<close> interrupts, at its own context.
\<close>

theorem schedule_fair_resume:
  assumes "spin_ok L" "sched_view s = Some (rs, c)"
  shows "\<exists>s' rs' out. ticks L s rsps = Some (Inr (s', out)) \<and>
    sched_view s' = Some (rs', (c + length rsps) mod length rs) \<and> length rs' = length rs \<and>
    length out = length rsps \<and>
    (\<forall>j<length rsps. out ! j =
       (if j + 1 < length rs then rs ! ((c + j + 1) mod length rs)
        else rsps ! (j + 1 - length rs)))"
  using kernel_rr.ticks_resume [of L s rs c rsps] assms by simp

theorem schedule_fair_resume_witness:
  "\<exists>s'. ticks spin_ref sample_sched [0x2000, 0x3008, 0x1008] =
    Some (Inr (s', [0x3000, 0x1000, 0x2000]))"
proof -
  obtain s' out where r: "ticks spin_ref sample_sched [0x2000, 0x3008, 0x1008] = Some (Inr (s', out))"
    "length out = 3"
    and o: "\<forall>j<3. out ! j = (if j + 1 < 3 then [0x1000, 0, 0x3000] ! ((1 + j + 1) mod 3)
        else [0x2000, 0x3008, 0x1008] ! (j + 1 - 3))"
    using schedule_fair_resume [OF spin_ref_ok sample_sched_view, of "[0x2000, 0x3008, 0x1008]"]
    by auto
  have "out = [0x3000, 0x1000, 0x2000]"
  proof (rule nth_equalityI)
    show "out ! j = [0x3000, 0x1000, 0x2000] ! j" if j: "j < length out" for j
    proof -
      consider "j = 0" | "j = 1" | "j = 2" using j r(2) by linarith
      then show ?thesis by cases (simp_all add: o)
    qed
  qed (simp add: r(2))
  then show ?thesis using r(1) by blast
qed

text \<open>
  C24: the scheduler's invariant. In every state that initialisation, timer interrupts, new
  processes and \<open>mark_current_as_dead\<close> can produce, both locks are free, the current index is in
  range, and the current process is the only one that is not ready; while it is not dead the next
  timer interrupt returns, and the new state is reachable again.
\<close>

theorem sched_reachable_ok:
  assumes "spin_ok L" "sched_reach L s"
  shows "\<exists>ps c. sched_state s ps c \<and>
    (p_status (ps ! c) \<noteq> DEAD \<longrightarrow>
       (\<exists>s' r. schedule L s rsp = Some (Inr (s', r)) \<and> sched_reach L s'))"
proof -
  obtain ps c where st: "sched_state s ps c" using sched_reach_state assms by blast
  then show ?thesis
    using schedule_live [OF assms(1) st, of rsp] sched_reach.step [OF assms(2) sched_step.tick]
    by blast
qed

theorem sched_reachable_ok_witness:
  "\<exists>ps c. sched_state (sched_init sched_uninit) ps c \<and>
    (p_status (ps ! c) \<noteq> DEAD \<longrightarrow>
       (\<exists>s' r. schedule spin_ref (sched_init sched_uninit) 0x8000 = Some (Inr (s', r)) \<and>
          sched_reach spin_ref s'))"
  by (rule sched_reachable_ok [OF spin_ref_ok sched_reach.start])

text \<open>
  C36: a process that is marked dead hangs the kernel. \<open>mark_current_as_dead\<close> itself returns, but
  the next timer interrupt never does: \<open>schedule\<close> holds the lock of the process list when it calls
  \<open>delete_process\<close>, which takes the same lock.
\<close>

theorem dead_process_deadlock:
  assumes "spin_ok L" "sched_state s ps c"
  shows "\<exists>s'. mark_current_as_dead L s = Some (Inr s') \<and> schedule L s' rsp = None"
proof -
  have "c < length ps" using assms(2) by (simp add: sched_state_def)
  then show ?thesis
    using mark_current_as_dead_state [OF assms]
      schedule_dead [OF assms(1) mark_current_as_dead_state(2) [OF assms], of rsp] by simp
qed

theorem dead_process_deadlock_witness:
  "\<exists>s'. mark_current_as_dead spin_ref (sched_init sched_uninit) = Some (Inr s') \<and>
    schedule spin_ref s' 0x8000 = None"
  by (rule dead_process_deadlock [OF spin_ref_ok sched_init_state])

text \<open>
  The search of \<open>schedule\<close> ends exactly if some process is ready, and then it picks the first
  ready one after the given index in cyclic order, and changes nothing but its status.
\<close>

theorem schedule_loop_picks_next:
  assumes "c < length ps"
  shows "(\<exists>k<length ps. p_status (ps ! ((c + k + 1) mod length ps)) = READY \<and>
            (\<forall>j<k. p_status (ps ! ((c + j + 1) mod length ps)) \<noteq> READY) \<and>
            schedule_loop ps c =
              Some (Inr (ps[(c + k + 1) mod length ps :=
                            (ps ! ((c + k + 1) mod length ps))\<lparr>p_status := RUNNING\<rparr>],
                         (c + k + 1) mod length ps)))
       \<or> READY \<notin> p_status ` set ps \<and> schedule_loop ps c = None"
proof (cases "\<exists>i<length ps. p_status (ps ! i) = READY")
  case True
  then obtain k where k: "k < length ps" "p_status (ps ! ((c + k + 1) mod length ps)) = READY"
    using cyclic_index [OF _ assms] by metis
  let ?P = "\<lambda>k. p_status (ps ! ((c + k + 1) mod length ps)) = READY"
  have "?P (Least ?P)" "Least ?P \<le> k" "\<And>j. j < Least ?P \<Longrightarrow> \<not> ?P j"
    by (rule LeastI [of ?P, OF k(2)], rule Least_le [of ?P, OF k(2)], rule not_less_Least)
  then show ?thesis
    using schedule_loop_first [OF assms, of "Least ?P"] k(1)
    by (intro disjI1 exI [of _ "Least ?P"]) auto
next
  case False
  then have "READY \<notin> p_status ` set ps" by (metis image_iff in_set_conv_nth)
  moreover have "schedule_loop ps c = None"
    using False assms by (intro schedule_loop_never) auto
  ultimately show ?thesis by blast
qed

theorem schedule_loop_picks_next_witness:
  "schedule_loop [sample_process 0 DEAD 0, sample_process 1 DEAD 0] 0 = None \<and>
   schedule_loop [sample_process 0 READY 7, sample_process 1 DEAD 0] 0 =
     Some (Inr ([sample_process 0 RUNNING 7, sample_process 1 DEAD 0], 0))"
  using schedule_loop_picks_next [of 0 "[sample_process 0 DEAD 0, sample_process 1 DEAD 0]"]
    schedule_loop_picks_next [of 0 "[sample_process 0 READY 7, sample_process 1 DEAD 0]"]
  by (auto simp: sample_process_def less_Suc_eq numeral_2_eq_2)

end
