(* ===== verification/Framebuffer.thy ===== *)
theory Framebuffer
  imports Spin_Lock
begin

text \<open>
  The screen: \<open>kernel/src/framebuffer.rs\<close> and the panic handler of \<open>kernel/src/main.rs\<close>. A
  \<open>FrameBufferWriter\<close> draws characters into the bytes of the framebuffer at a cursor, wraps lines
  and clears the screen when it is full; the \<open>Logger\<close> wraps it in a spin lock. An operation that
  panics leaves the writer as it is at that moment, because the panic handler logs through the same
  logger, whose lock nobody releases (the kernel does not unwind).
\<close>

section \<open>Pixels and fonts\<close>

text \<open>
  \<open>FrameBufferInfo\<close> and \<open>PixelFormat\<close> of \<open>bootloader_api\<close>, the fields the kernel reads. The font is
  the crate \<open>noto_sans_mono_bitmap\<close>, a parameter: the raster of a character (Rust's \<open>char\<close>, its code
  point) if the font has it, and the two constants \<open>CHAR_RASTER_WIDTH\<close> and \<open>CHAR_RASTER_HEIGHT.val()\<close>.
\<close>

datatype pixel_format = Rgb | Bgr | U8 | Unknown u8 u8 u8

record fb_info =
  fi_width :: usize
  fi_height :: usize
  fi_format :: pixel_format
  fi_bytes_per_pixel :: usize
  fi_stride :: usize

record rasterized_char =
  rc_raster :: "u8 list list"
  rc_width :: usize

record font =
  get_raster :: "u32 \<Rightarrow> rasterized_char option"
  char_raster_width :: usize
  char_raster_height :: usize

record fb_writer =
  fw_buf :: "u8 list"
  fw_info :: fb_info
  fw_x :: usize
  fw_y :: usize

abbreviation (input) LINE_SPACING :: usize where "LINE_SPACING \<equiv> 2"
abbreviation (input) LETTER_SPACING :: usize where "LETTER_SPACING \<equiv> 0"
abbreviation (input) BORDER_PADDING :: usize where "BORDER_PADDING \<equiv> 1"
abbreviation (input) BACKUP_CHAR :: u32 where "BACKUP_CHAR \<equiv> 0xFFFD"

text \<open>A panic together with the writer it leaves behind.\<close>

type_synonym 'a wres = "(panic \<times> fb_writer) + 'a"

definition at_writer :: "fb_writer \<Rightarrow> 'a res \<Rightarrow> 'a wres" where
  "at_writer w m = (case m of Inl e \<Rightarrow> Inl (e, w) | Inr x \<Rightarrow> Inr x)"

section \<open>The writer\<close>

definition get_char_raster :: "font \<Rightarrow> u32 \<Rightarrow> rasterized_char res" where
  "get_char_raster F c =
     (case get_raster F c of
        Some r \<Rightarrow> Inr r
      | None \<Rightarrow> runwrap (Expect ''Should get raster of backup char.'') (get_raster F BACKUP_CHAR))"

definition carriage_return :: "fb_writer \<Rightarrow> fb_writer" where
  "carriage_return w = w\<lparr>fw_x := BORDER_PADDING\<rparr>"

definition newline :: "font \<Rightarrow> fb_writer \<Rightarrow> fb_writer wres" where
  "newline F w =
     rbind (at_writer w (add_chk (char_raster_height F) LINE_SPACING)) (\<lambda>d.
     rbind (at_writer w (add_chk (fw_y w) d)) (\<lambda>y.
       Inr (carriage_return (w\<lparr>fw_y := y\<rparr>))))"

definition clear :: "fb_writer \<Rightarrow> fb_writer" where
  "clear w =
     w\<lparr>fw_x := BORDER_PADDING, fw_y := BORDER_PADDING,
       fw_buf := replicate (length (fw_buf w)) 0\<rparr>"

definition fb_writer_new :: "u8 list \<Rightarrow> fb_info \<Rightarrow> fb_writer" where
  "fb_writer_new buf info = clear \<lparr>fw_buf = buf, fw_info = info, fw_x = 0, fw_y = 0\<rparr>"

fun color :: "pixel_format \<Rightarrow> u8 \<Rightarrow> u8 list res" where
  "color Rgb i = Inr [i, i, i div 2, 0]"
| "color Bgr i = Inr [i div 2, i, i, 0]"
| "color U8 i = Inr [if 200 < i then 0xf else 0, 0, 0, 0]"
| "color (Unknown r g b) i = Inl (PanicMsg ''pixel format not supported in logger'')"

text \<open>
  \<open>write_pixel\<close>. The two slices of the assignment panic when they are out of range, the volatile
  read at the end panics when its index is.
\<close>

definition write_pixel :: "fb_writer \<Rightarrow> usize \<Rightarrow> usize \<Rightarrow> u8 \<Rightarrow> fb_writer wres" where
  "write_pixel w x y intensity =
     rbind (at_writer w (mul_chk y (fi_stride (fw_info w)))) (\<lambda>row.
     rbind (at_writer w (add_chk row x)) (\<lambda>pixel_offset.
     rbind (at_writer (w\<lparr>fw_info := (fw_info w)\<lparr>fi_format := Rgb\<rparr>\<rparr>)
              (color (fi_format (fw_info w)) intensity)) (\<lambda>color.
     let bytes_per_pixel = fi_bytes_per_pixel (fw_info w) in
     rbind (at_writer w (mul_chk pixel_offset bytes_per_pixel)) (\<lambda>byte_offset.
     rbind (at_writer w (add_chk byte_offset bytes_per_pixel)) (\<lambda>byte_end.
       if length (fw_buf w) < unat byte_end \<or> length color < unat bytes_per_pixel
       then Inl (IndexOutOfBounds, w)
       else
         let w' = w\<lparr>fw_buf := take (unat byte_offset) (fw_buf w) @
                              take (unat bytes_per_pixel) color @
                              drop (unat byte_end) (fw_buf w)\<rparr>
         in if unat byte_offset < length (fw_buf w') then Inr w'
            else Inl (IndexOutOfBounds, w'))))))"

fun write_row :: "fb_writer \<Rightarrow> nat \<Rightarrow> nat \<Rightarrow> u8 list \<Rightarrow> fb_writer wres" where
  "write_row w y x [] = Inr w"
| "write_row w y x (byte # row) =
     rbind (at_writer w (add_chk (fw_x w) (of_nat x))) (\<lambda>px.
     rbind (at_writer w (add_chk (fw_y w) (of_nat y))) (\<lambda>py.
     rbind (write_pixel w px py byte) (\<lambda>w'. write_row w' y (Suc x) row)))"

fun write_rows :: "fb_writer \<Rightarrow> nat \<Rightarrow> u8 list list \<Rightarrow> fb_writer wres" where
  "write_rows w y [] = Inr w"
| "write_rows w y (row # rows) =
     rbind (write_row w y 0 row) (\<lambda>w'. write_rows w' (Suc y) rows)"

definition write_rendered_char :: "fb_writer \<Rightarrow> rasterized_char \<Rightarrow> fb_writer wres" where
  "write_rendered_char w r =
     rbind (write_rows w 0 (rc_raster r)) (\<lambda>w'.
     rbind (at_writer w' (add_chk (rc_width r) LETTER_SPACING)) (\<lambda>d.
     rbind (at_writer w' (add_chk (fw_x w') d)) (\<lambda>x. Inr (w'\<lparr>fw_x := x\<rparr>))))"

definition write_char :: "font \<Rightarrow> fb_writer \<Rightarrow> u32 \<Rightarrow> fb_writer wres" where
  "write_char F w c =
     (if c = 10 then newline F w
      else if c = 13 then Inr (carriage_return w)
      else
        rbind (at_writer w (add_chk (fw_x w) (char_raster_width F))) (\<lambda>new_xpos.
        rbind (if fi_width (fw_info w) \<le> new_xpos then newline F w else Inr w) (\<lambda>w1.
        rbind (at_writer w1 (add_chk (fw_y w1) (char_raster_height F))) (\<lambda>y.
        rbind (at_writer w1 (add_chk y BORDER_PADDING)) (\<lambda>new_ypos.
        let w2 = (if fi_height (fw_info w1) \<le> new_ypos then clear w1 else w1) in
        rbind (at_writer w2 (get_char_raster F c)) (\<lambda>r.
          write_rendered_char w2 r))))))"

fun write_str :: "font \<Rightarrow> fb_writer \<Rightarrow> u32 list \<Rightarrow> fb_writer wres" where
  "write_str F w [] = Inr w"
| "write_str F w (c # s) = rbind (write_char F w c) (\<lambda>w'. write_str F w' s)"

section \<open>The logger and the panic handler\<close>

record logger =
  lg_writer :: fb_writer
  lg_locked :: bool

definition logger_new :: "u8 list \<Rightarrow> fb_info \<Rightarrow> logger" where
  "logger_new buf info = \<lparr>lg_writer = fb_writer_new buf info, lg_locked = False\<rparr>"

text \<open>
  \<open>Logger::log\<close>: the macro \<open>writeln!\<close> with the format string \<open>{:5}: {}\<close> writes the level, padded to
  five characters, the separator, the pieces of the message and the newline. A panic in between
  leaves the lock held.
\<close>

definition pad5 :: "u32 list \<Rightarrow> u32 list" where
  "pad5 s = s @ replicate (5 - length s) 32"

fun write_strs :: "('w \<Rightarrow> u32 list \<Rightarrow> 'e + 'w) \<Rightarrow> 'w \<Rightarrow> u32 list list \<Rightarrow> 'e + 'w" where
  "write_strs wr w [] = Inr w"
| "write_strs wr w (s # ss) = rbind (wr w s) (\<lambda>w'. write_strs wr w' ss)"

definition log :: "spin \<Rightarrow> font \<Rightarrow> logger \<Rightarrow> u32 list \<Rightarrow> u32 list list \<Rightarrow>
    ((panic \<times> logger) + logger) option" where
  "log L F lg level args =
     (case spin_acquire L (lg_locked lg) of
        None \<Rightarrow> None
      | Some b \<Rightarrow>
          (case write_strs (write_str F) (lg_writer lg) ([pad5 level, [58, 32]] @ args @ [[10]]) of
             Inl (e, w) \<Rightarrow> Some (Inl (e, lg\<lparr>lg_writer := w, lg_locked := b\<rparr>))
           | Inr w \<Rightarrow> Some (Inr (lg\<lparr>lg_writer := w, lg_locked := False\<rparr>))))"

text \<open>
  The panic handler logs the panic's message at level error and stops the machine: the logger
  when it halts. A panic inside the handler aborts before it halts.
\<close>

definition panic_handler :: "spin \<Rightarrow> font \<Rightarrow> logger \<Rightarrow> u32 list list \<Rightarrow>
    ((panic \<times> logger) + logger) option" where
  "panic_handler L F lg info = log L F lg [69, 82, 82, 79, 82] info"

section \<open>Well-formed screens\<close>

text \<open>
  What the font crate documents for a monospaced font: every raster is \<open>CHAR_RASTER_HEIGHT\<close> rows of
  \<open>CHAR_RASTER_WIDTH\<close> bytes, and the replacement character is there (feature \<open>unicode-specials\<close>).
\<close>

definition font_ok :: "font \<Rightarrow> bool" where
  "font_ok F \<longleftrightarrow>
     get_raster F BACKUP_CHAR \<noteq> None \<and> unat (char_raster_height F) < 2 ^ 32 \<and>
     (\<forall>c r. get_raster F c = Some r \<longrightarrow>
        rc_width r = char_raster_width F \<and> length (rc_raster r) = unat (char_raster_height F) \<and>
        (\<forall>row\<in>set (rc_raster r). length row = unat (char_raster_width F)))"

text \<open>
  What the boot loader hands over: rows of at least \<open>width\<close> pixels, one to four bytes each, all
  inside the buffer (a slice is shorter than 2 to the 63), in a format that the logger supports, on
  a screen with room for one character and the border.
\<close>

definition screen_fits :: "font \<Rightarrow> fb_writer \<Rightarrow> bool" where
  "screen_fits F w \<longleftrightarrow>
     (let i = fw_info w in
      0 < unat (fi_bytes_per_pixel i) \<and> unat (fi_bytes_per_pixel i) \<le> 4 \<and>
      unat (fi_width i) \<le> unat (fi_stride i) \<and>
      unat (fi_height i) * unat (fi_stride i) * unat (fi_bytes_per_pixel i) \<le> length (fw_buf w) \<and>
      length (fw_buf w) < 2 ^ 63 \<and>
      unat (char_raster_width F) + 1 < unat (fi_width i) \<and>
      unat (char_raster_height F) + 2 < unat (fi_height i))"

definition supported :: "pixel_format \<Rightarrow> bool" where
  "supported f \<longleftrightarrow> f = Rgb \<or> f = Bgr \<or> f = U8"

definition screen_ok :: "font \<Rightarrow> fb_writer \<Rightarrow> bool" where
  "screen_ok F w \<longleftrightarrow> screen_fits F w \<and> supported (fi_format (fw_info w))"

lemmas screen_defs = screen_ok_def screen_fits_def supported_def Let_def

text \<open>The bytes of one pixel, and those of an intensity.\<close>

definition pixel :: "fb_writer \<Rightarrow> nat \<Rightarrow> nat \<Rightarrow> u8 list" where
  "pixel w x y =
     take (unat (fi_bytes_per_pixel (fw_info w)))
       (drop ((y * unat (fi_stride (fw_info w)) + x) * unat (fi_bytes_per_pixel (fw_info w)))
         (fw_buf w))"

definition shade :: "fb_info \<Rightarrow> u8 \<Rightarrow> u8 list" where
  "shade i b =
     (case color (fi_format i) b of Inl _ \<Rightarrow> [] | Inr c \<Rightarrow> take (unat (fi_bytes_per_pixel i)) c)"

text \<open>
  Where the next character goes: the end of the line wraps, the end of the screen clears it.
\<close>

definition next_cell :: "font \<Rightarrow> fb_writer \<Rightarrow> nat \<times> nat \<times> bool" where
  "next_cell F w =
     (let cw = unat (char_raster_width F); ch = unat (char_raster_height F);
          (x, y) = (if unat (fw_x w) + cw < unat (fi_width (fw_info w))
                    then (unat (fw_x w), unat (fw_y w)) else (1, unat (fw_y w) + ch + 2))
      in if y + ch + 1 < unat (fi_height (fw_info w)) then (x, y, False) else (1, 1, True))"

text \<open>
  The writer's invariant, with a budget of \<open>n\<close> more characters: the cursor is left of the right
  edge, and \<open>n\<close> newlines cannot take it past the largest \<open>usize\<close>.
\<close>

definition cursor_inv :: "font \<Rightarrow> nat \<Rightarrow> fb_writer \<Rightarrow> bool" where
  "cursor_inv F n w \<longleftrightarrow>
     font_ok F \<and> screen_fits F w \<and> unat (fw_x w) < unat (fi_width (fw_info w)) \<and>
     max (unat (fw_y w)) (unat (fi_height (fw_info w))) +
       (unat (char_raster_height F) + 2) * (n + 1) + unat (char_raster_height F) + 1 < 2 ^ 64"

definition writer_inv :: "font \<Rightarrow> nat \<Rightarrow> fb_writer \<Rightarrow> bool" where
  "writer_inv F n w \<longleftrightarrow> cursor_inv F n w \<and> supported (fi_format (fw_info w))"

section \<open>Pixels\<close>

lemma at_writer_simps [simp]:
  "at_writer w (Inl e) = Inl (e, w)"
  "at_writer w (Inr x) = Inr x"
  by (simp_all add: at_writer_def)

lemma block_update:
  assumes len: "length c = b" and i: "i * b + b \<le> length l"
  shows "take b (drop (j * b) (take (i * b) l @ c @ drop (i * b + b) l)) =
    (if j = i then c else take b (drop (j * b) l))"
proof -
  consider "j < i" | "j = i" | "i < j" by linarith
  then show ?thesis
  proof cases
    case 1
    then have "j * b + b \<le> i * b" by (metis Suc_leI add.commute mult_Suc mult_le_mono1)
    moreover have "i * b \<le> length l" using i by simp
    ultimately show ?thesis using 1 by (auto simp: drop_take min_def)
  next
    case 2
    have "min (length l) (i * b) = i * b" using i by simp
    then show ?thesis using 2 len by simp
  next
    case 3
    then have le: "i * b + b \<le> j * b" by (metis Suc_leI add.commute mult_Suc mult_le_mono1)
    have "min (length l) (i * b) = i * b" using i by simp
    then have "drop (j * b) (take (i * b) l @ c @ drop (i * b + b) l) =
        drop (j * b - i * b - b) (drop (i * b + b) l)"
      using le len 3 by simp
    also have "\<dots> = drop (j * b) l" using le by (simp add: add.commute)
    finally show ?thesis using 3 by simp
  qed
qed

lemma pixel_index_inj:
  fixes s :: nat
  assumes "x < s" "x' < s" shows "y * s + x = y' * s + x' \<longleftrightarrow> x = x' \<and> y = y'"
proof
  assume e: "y * s + x = y' * s + x'"
  then have "(y * s + x) mod s = (y' * s + x') mod s" "(y * s + x) div s = (y' * s + x') div s"
    by simp_all
  then show "x = x' \<and> y = y'" using assms by simp
qed simp

lemma color_shade:
  assumes "screen_ok F w"
  shows "\<exists>c. color (fi_format (fw_info w)) b = Inr c \<and> length c = 4 \<and>
    take (unat (fi_bytes_per_pixel (fw_info w))) c = shade (fw_info w) b"
  using assms by (auto simp: screen_defs shade_def)

lemma length_shade:
  "screen_ok F w \<Longrightarrow> length (shade (fw_info w) b) = unat (fi_bytes_per_pixel (fw_info w))"
  by (auto simp: screen_defs shade_def)

lemma pixel_inside:
  fixes x y s b h :: nat
  assumes "x < s" "y < h" shows "(y * s + x) * b + b \<le> h * s * b"
proof -
  have "Suc (y * s + x) \<le> (y + 1) * s" using assms by simp
  also have "\<dots> \<le> h * s" using assms by (intro mult_le_mono1) simp
  finally have "Suc (y * s + x) * b \<le> h * s * b" by (rule mult_le_mono1)
  then show ?thesis by (simp add: add.commute)
qed

lemma write_pixel_ok:
  assumes sc: "screen_ok F w"
    and x: "unat x < unat (fi_width (fw_info w))" and y: "unat y < unat (fi_height (fw_info w))"
  shows "\<exists>buf'. write_pixel w x y b = Inr (w\<lparr>fw_buf := buf'\<rparr>) \<and>
    length buf' = length (fw_buf w) \<and>
    (\<forall>x' y'. x' < unat (fi_stride (fw_info w)) \<longrightarrow>
       pixel (w\<lparr>fw_buf := buf'\<rparr>) x' y' =
         (if x' = unat x \<and> y' = unat y then shade (fw_info w) b else pixel w x' y'))"
proof -
  define s h bp where "s = unat (fi_stride (fw_info w))" and "h = unat (fi_height (fw_info w))"
    and "bp = unat (fi_bytes_per_pixel (fw_info w))"
  define i where "i = unat y * s + unat x"
  note ok = sc [unfolded screen_defs, folded s_def h_def bp_def]
  have xs: "unat x < s" using x ok by linarith
  have fits: "i * bp + bp \<le> length (fw_buf w)"
    using pixel_inside [OF xs, of "unat y" h bp] y ok by (simp add: h_def i_def)
  have bp: "0 < bp" "bp \<le> 4" "length (fw_buf w) < 2 ^ 63" using ok by auto
  have "i \<le> i * bp" using bp by simp
  then have "i \<le> length (fw_buf w)" using fits by linarith
  then have lim: "unat y * s + unat x < 2 ^ 64" "i * bp + bp < 2 ^ 64"
    using fits bp by (simp_all add: i_def [symmetric])
  let ?row = "y * fi_stride (fw_info w)"
  have row: "mul_chk y (fi_stride (fw_info w)) = Inr ?row" "unat ?row = unat y * s"
    using lim by (simp_all add: mul_chk_ok unat_mul_noovf s_def)
  have off: "add_chk ?row x = Inr (?row + x)" "unat (?row + x) = i"
    using lim row(2) by (simp_all add: add_chk_ok unat_add_noovf i_def)
  let ?bo = "(?row + x) * fi_bytes_per_pixel (fw_info w)"
  have bo: "mul_chk (?row + x) (fi_bytes_per_pixel (fw_info w)) = Inr ?bo" "unat ?bo = i * bp"
    using lim off(2) by (simp_all add: mul_chk_ok unat_mul_noovf bp_def)
  have be: "add_chk ?bo (fi_bytes_per_pixel (fw_info w)) = Inr (?bo + fi_bytes_per_pixel (fw_info w))"
    "unat (?bo + fi_bytes_per_pixel (fw_info w)) = i * bp + bp"
    using lim bo(2) by (simp_all add: add_chk_ok unat_add_noovf bp_def)
  obtain c where c: "color (fi_format (fw_info w)) b = Inr c" "length c = 4"
    "take bp c = shade (fw_info w) b"
    using color_shade [OF sc] by (auto simp: bp_def)
  let ?buf = "take (i * bp) (fw_buf w) @ shade (fw_info w) b @ drop (i * bp + bp) (fw_buf w)"
  have ls: "length (shade (fw_info w) b) = bp" using length_shade [OF sc] by (simp add: bp_def)
  have len: "length ?buf = length (fw_buf w)" using fits ls by simp
  have wp: "write_pixel w x y b = Inr (w\<lparr>fw_buf := ?buf\<rparr>)"
    unfolding write_pixel_def Let_def
    using fits bp c len
    by (simp add: row off bo be bp_def [symmetric] del: length_append)
  have "pixel (w\<lparr>fw_buf := ?buf\<rparr>) x' y' =
      (if x' = unat x \<and> y' = unat y then shade (fw_info w) b else pixel w x' y')"
    if "x' < s" for x' y'
    using block_update [OF ls fits, of "y' * s + x'"] pixel_index_inj [OF that xs, of y' "unat y"]
    by (simp add: pixel_def s_def [symmetric] bp_def [symmetric] i_def)
  then show ?thesis using wp len by (intro exI [of _ ?buf]) (simp add: s_def)
qed

section \<open>Characters\<close>

lemma screen_ok_buf [simp]:
  "length buf = length (fw_buf w) \<Longrightarrow> screen_ok F (w\<lparr>fw_buf := buf\<rparr>) = screen_ok F w"
  by (simp add: screen_defs)

lemma screen_ok_cursor [simp]:
  "screen_ok F (w\<lparr>fw_x := x\<rparr>) = screen_ok F w" "screen_ok F (w\<lparr>fw_y := y\<rparr>) = screen_ok F w"
  by (simp_all add: screen_defs)

lemma screen_fits_simps [simp]:
  "length buf = length (fw_buf w) \<Longrightarrow> screen_fits F (w\<lparr>fw_buf := buf\<rparr>) = screen_fits F w"
  "screen_fits F (w\<lparr>fw_x := x\<rparr>) = screen_fits F w" "screen_fits F (w\<lparr>fw_y := y\<rparr>) = screen_fits F w"
  by (simp_all add: screen_defs)

lemma pixel_cursor [simp]:
  "pixel (w\<lparr>fw_x := u\<rparr>) x y = pixel w x y" "pixel (w\<lparr>fw_y := u\<rparr>) x y = pixel w x y"
  by (simp_all add: pixel_def)

lemma add_offset_chk:
  assumes "unat a + n < 2 ^ 64"
  shows "add_chk a (of_nat n) = Inr (a + of_nat n :: usize)" "unat (a + of_nat n :: usize) = unat a + n"
proof -
  have "unat (of_nat n :: usize) = n" using assms by (simp add: unsigned_of_nat take_bit_nat_eq_self)
  then show "add_chk a (of_nat n) = Inr (a + of_nat n :: usize)"
    "unat (a + of_nat n :: usize) = unat a + n"
    using assms by (simp_all add: add_chk_ok unat_add_noovf)
qed

lemma usize_lt: "unat (a :: usize) < 2 ^ 64" by simp

lemma write_row_ok:
  assumes "screen_ok F w" "unat (fw_x w) + n + length row \<le> unat (fi_width (fw_info w))"
    "unat (fw_y w) + y < unat (fi_height (fw_info w))"
  shows "\<exists>buf'. write_row w y n row = Inr (w\<lparr>fw_buf := buf'\<rparr>) \<and> length buf' = length (fw_buf w) \<and>
    (\<forall>x' y'. x' < unat (fi_stride (fw_info w)) \<longrightarrow>
       pixel (w\<lparr>fw_buf := buf'\<rparr>) x' y' =
         (if y' = unat (fw_y w) + y \<and> unat (fw_x w) + n \<le> x' \<and> x' < unat (fw_x w) + n + length row
          then shade (fw_info w) (row ! (x' - (unat (fw_x w) + n))) else pixel w x' y'))"
  using assms
proof (induction row arbitrary: w n)
  case Nil
  then show ?case by (intro exI [of _ "fw_buf w"]) auto
next
  case (Cons b row)
  let ?x = "fw_x w + of_nat n" and ?y = "fw_y w + of_nat y"
  have "unat (fw_x w) + n < unat (fi_width (fw_info w))" using Cons.prems(2) by simp
  note lim = less_trans [OF this usize_lt] less_trans [OF Cons.prems(3) usize_lt]
  note xy = add_offset_chk [OF lim(1)] add_offset_chk [OF lim(2)]
  obtain b1 where b1: "write_pixel w ?x ?y b = Inr (w\<lparr>fw_buf := b1\<rparr>)" "length b1 = length (fw_buf w)"
    and p1: "\<And>x' y'. x' < unat (fi_stride (fw_info w)) \<Longrightarrow> pixel (w\<lparr>fw_buf := b1\<rparr>) x' y' =
      (if x' = unat (fw_x w) + n \<and> y' = unat (fw_y w) + y then shade (fw_info w) b else pixel w x' y')"
    using write_pixel_ok [OF Cons.prems(1), of ?x ?y b] Cons.prems xy by auto
  obtain b2 where b2: "write_row (w\<lparr>fw_buf := b1\<rparr>) y (Suc n) row = Inr (w\<lparr>fw_buf := b2\<rparr>)"
    "length b2 = length (fw_buf w)"
    and p2: "\<And>x' y'. x' < unat (fi_stride (fw_info w)) \<Longrightarrow> pixel (w\<lparr>fw_buf := b2\<rparr>) x' y' =
      (if y' = unat (fw_y w) + y \<and> unat (fw_x w) + Suc n \<le> x' \<and>
          x' < unat (fw_x w) + Suc n + length row
       then shade (fw_info w) (row ! (x' - (unat (fw_x w) + Suc n)))
       else pixel (w\<lparr>fw_buf := b1\<rparr>) x' y')"
    using Cons.IH [of "w\<lparr>fw_buf := b1\<rparr>" "Suc n"] Cons.prems b1(2) by auto
  have "write_row w y n (b # row) = Inr (w\<lparr>fw_buf := b2\<rparr>)" using b1 b2 xy by simp
  moreover have "pixel (w\<lparr>fw_buf := b2\<rparr>) x' y' =
      (if y' = unat (fw_y w) + y \<and> unat (fw_x w) + n \<le> x' \<and>
          x' < unat (fw_x w) + n + length (b # row)
       then shade (fw_info w) ((b # row) ! (x' - (unat (fw_x w) + n))) else pixel w x' y')"
    if "x' < unat (fi_stride (fw_info w))" for x' y'
    using p1 [OF that, of y'] p2 [OF that, of y'] by (auto simp: nth_Cons' Suc_le_eq)
  ultimately show ?case using b2(2) by blast
qed

lemma write_rows_ok:
  assumes "screen_ok F w" "unat (fw_x w) + cw \<le> unat (fi_width (fw_info w))"
    "unat (fw_y w) + n + length rows \<le> unat (fi_height (fw_info w))"
    "\<forall>row\<in>set rows. length row = cw"
  shows "\<exists>buf'. write_rows w n rows = Inr (w\<lparr>fw_buf := buf'\<rparr>) \<and> length buf' = length (fw_buf w) \<and>
    (\<forall>x' y'. x' < unat (fi_stride (fw_info w)) \<longrightarrow>
       pixel (w\<lparr>fw_buf := buf'\<rparr>) x' y' =
         (if unat (fw_y w) + n \<le> y' \<and> y' < unat (fw_y w) + n + length rows \<and>
             unat (fw_x w) \<le> x' \<and> x' < unat (fw_x w) + cw
          then shade (fw_info w) (rows ! (y' - (unat (fw_y w) + n)) ! (x' - unat (fw_x w)))
          else pixel w x' y'))"
  using assms
proof (induction rows arbitrary: w n)
  case Nil
  then show ?case by (intro exI [of _ "fw_buf w"]) auto
next
  case (Cons row rows)
  have len: "length row = cw" using Cons.prems(4) by simp
  obtain b1 where b1: "write_row w n 0 row = Inr (w\<lparr>fw_buf := b1\<rparr>)" "length b1 = length (fw_buf w)"
    and p1: "\<And>x' y'. x' < unat (fi_stride (fw_info w)) \<Longrightarrow> pixel (w\<lparr>fw_buf := b1\<rparr>) x' y' =
      (if y' = unat (fw_y w) + n \<and> unat (fw_x w) \<le> x' \<and> x' < unat (fw_x w) + cw
       then shade (fw_info w) (row ! (x' - unat (fw_x w))) else pixel w x' y')"
    using write_row_ok [OF Cons.prems(1), of 0 row n] Cons.prems(2,3) len by auto
  obtain b2 where b2: "write_rows (w\<lparr>fw_buf := b1\<rparr>) (Suc n) rows = Inr (w\<lparr>fw_buf := b2\<rparr>)"
    "length b2 = length (fw_buf w)"
    and p2: "\<And>x' y'. x' < unat (fi_stride (fw_info w)) \<Longrightarrow> pixel (w\<lparr>fw_buf := b2\<rparr>) x' y' =
      (if unat (fw_y w) + Suc n \<le> y' \<and> y' < unat (fw_y w) + Suc n + length rows \<and>
          unat (fw_x w) \<le> x' \<and> x' < unat (fw_x w) + cw
       then shade (fw_info w) (rows ! (y' - (unat (fw_y w) + Suc n)) ! (x' - unat (fw_x w)))
       else pixel (w\<lparr>fw_buf := b1\<rparr>) x' y')"
    using Cons.IH [of "w\<lparr>fw_buf := b1\<rparr>" "Suc n"] Cons.prems b1(2) by auto
  have "write_rows w n (row # rows) = Inr (w\<lparr>fw_buf := b2\<rparr>)" using b1 b2 by simp
  moreover have "pixel (w\<lparr>fw_buf := b2\<rparr>) x' y' =
      (if unat (fw_y w) + n \<le> y' \<and> y' < unat (fw_y w) + n + length (row # rows) \<and>
          unat (fw_x w) \<le> x' \<and> x' < unat (fw_x w) + cw
       then shade (fw_info w) ((row # rows) ! (y' - (unat (fw_y w) + n)) ! (x' - unat (fw_x w)))
       else pixel w x' y')"
    if "x' < unat (fi_stride (fw_info w))" for x' y'
    using p1 [OF that, of y'] p2 [OF that, of y'] by (auto simp: nth_Cons' Suc_le_eq)
  ultimately show ?case using b2(2) by blast
qed

text \<open>The raster that a character is drawn with.\<close>

definition glyph :: "font \<Rightarrow> u32 \<Rightarrow> rasterized_char" where
  "glyph F c =
     (case get_raster F c of Some r \<Rightarrow> r | None \<Rightarrow> the (get_raster F BACKUP_CHAR))"

lemma get_char_raster_glyph:
  assumes "font_ok F"
  shows "get_char_raster F c = Inr (glyph F c)" "rc_width (glyph F c) = char_raster_width F"
    "length (rc_raster (glyph F c)) = unat (char_raster_height F)"
    "\<forall>row\<in>set (rc_raster (glyph F c)). length row = unat (char_raster_width F)"
  using assms
  by (auto simp: font_ok_def get_char_raster_def glyph_def split: option.splits)

lemma newline_ok:
  assumes "unat (fw_y w) + unat (char_raster_height F) + 2 < 2 ^ 64"
  shows "newline F w = Inr (w\<lparr>fw_x := 1, fw_y := fw_y w + (char_raster_height F + 2)\<rparr>)"
    "unat (fw_y w + (char_raster_height F + 2)) = unat (fw_y w) + unat (char_raster_height F) + 2"
proof -
  have h: "add_chk (char_raster_height F) 2 = Inr (char_raster_height F + 2)"
    "unat (char_raster_height F + 2) = unat (char_raster_height F) + 2"
    using assms by (simp_all add: add_chk_ok unat_add_noovf)
  then have y: "add_chk (fw_y w) (char_raster_height F + 2) = Inr (fw_y w + (char_raster_height F + 2))"
    using assms by (simp add: add_chk_ok)
  show "newline F w = Inr (w\<lparr>fw_x := 1, fw_y := fw_y w + (char_raster_height F + 2)\<rparr>)"
    using h(1) y by (simp add: newline_def carriage_return_def)
  show "unat (fw_y w + (char_raster_height F + 2)) = unat (fw_y w) + unat (char_raster_height F) + 2"
    using h(2) assms by (simp add: unat_add_noovf)
qed

text \<open>The part of \<open>write_char\<close> before the drawing moves the cursor to the next cell.\<close>

lemma write_char_cell:
  assumes inv: "cursor_inv F (Suc n) w" and c: "c \<noteq> 10" "c \<noteq> 13"
    and cell: "next_cell F w = (x0, y0, clean)"
  shows "\<exists>w2. write_char F w c = write_rendered_char w2 (glyph F c) \<and> fw_info w2 = fw_info w \<and>
    fw_buf w2 = (if clean then replicate (length (fw_buf w)) 0 else fw_buf w) \<and>
    unat (fw_x w2) = x0 \<and> unat (fw_y w2) = y0 \<and>
    x0 + unat (char_raster_width F) < unat (fi_width (fw_info w)) \<and>
    y0 + unat (char_raster_height F) + 1 < unat (fi_height (fw_info w))"
proof -
  define cw ch W H where "cw = unat (char_raster_width F)" and "ch = unat (char_raster_height F)"
    and "W = unat (fi_width (fw_info w))" and "H = unat (fi_height (fw_info w))"
  have font: "font_ok F" and room: "cw + 1 < W" "ch + 2 < H"
    and lim: "unat (fw_x w) < W" "unat (fw_y w) + (ch + 2) * (n + 2) + ch + 1 < 2 ^ 64"
      "W \<le> length (fw_buf w)" "length (fw_buf w) < 2 ^ 63"
  proof -
    show "font_ok F" "cw + 1 < W" "ch + 2 < H" "unat (fw_x w) < W" "length (fw_buf w) < 2 ^ 63"
      "unat (fw_y w) + (ch + 2) * (n + 2) + ch + 1 < 2 ^ 64"
      using inv by (auto simp: cursor_inv_def screen_defs cw_def ch_def W_def H_def)
    have "W \<le> unat (fi_stride (fw_info w))" "0 < H" "0 < unat (fi_bytes_per_pixel (fw_info w))"
      "H * unat (fi_stride (fw_info w)) * unat (fi_bytes_per_pixel (fw_info w)) \<le> length (fw_buf w)"
      using inv by (auto simp: cursor_inv_def screen_defs W_def H_def)
    moreover from this have "unat (fi_stride (fw_info w)) \<le>
        H * unat (fi_stride (fw_info w)) * unat (fi_bytes_per_pixel (fw_info w))"
      by (metis Suc_leI mult.commute mult.right_neutral mult_le_mono One_nat_def order_refl)
    ultimately show "W \<le> length (fw_buf w)" by linarith
  qed
  have "unat (fw_x w) + cw < 2 ^ 64" using lim room by simp
  then have x: "add_chk (fw_x w) (char_raster_width F) = Inr (fw_x w + char_raster_width F)"
    "unat (fw_x w + char_raster_width F) = unat (fw_x w) + cw"
    by (simp_all add: add_chk_ok unat_add_noovf cw_def)
  have yl: "unat (fw_y w) + ch + 2 + ch + 1 < 2 ^ 64"
  proof -
    have "unat (fw_y w) + (ch + 2) * 1 + ch + 1 \<le> unat (fw_y w) + (ch + 2) * (n + 2) + ch + 1"
      by (intro add_mono order_refl mult_le_mono2) simp
    also note lim(2)
    finally show ?thesis by simp
  qed
  have nl: "newline F w = Inr (w\<lparr>fw_x := 1, fw_y := fw_y w + (char_raster_height F + 2)\<rparr>)"
    "unat (fw_y w + (char_raster_height F + 2)) = unat (fw_y w) + ch + 2"
    using newline_ok [of w F] yl by (simp_all add: ch_def)
  define w1 where "w1 = (if unat (fw_x w) + cw < W then w
    else w\<lparr>fw_x := 1, fw_y := fw_y w + (char_raster_height F + 2)\<rparr>)"
  have w1: "(if fi_width (fw_info w) \<le> fw_x w + char_raster_width F then newline F w else Inr w) = Inr w1"
    using nl by (simp add: w1_def word_le_nat_alt x(2) W_def not_less)
  have w1s: "fw_info w1 = fw_info w" "fw_buf w1 = fw_buf w"
    "unat (fw_x w1) = (if unat (fw_x w) + cw < W then unat (fw_x w) else 1)"
    "unat (fw_y w1) = (if unat (fw_x w) + cw < W then unat (fw_y w) else unat (fw_y w) + ch + 2)"
    by (simp_all add: w1_def nl(2))
  have y: "add_chk (fw_y w1) (char_raster_height F) = Inr (fw_y w1 + char_raster_height F)"
    "unat (fw_y w1 + char_raster_height F) = unat (fw_y w1) + ch"
    using yl w1s(4) by (auto simp: add_chk_ok unat_add_noovf ch_def)
  have y': "add_chk (fw_y w1 + char_raster_height F) 1 = Inr (fw_y w1 + char_raster_height F + 1)"
    "unat (fw_y w1 + char_raster_height F + 1) = unat (fw_y w1) + ch + 1"
    using yl w1s(4) y(2) by (auto simp: add_chk_ok unat_add_noovf)
  define w2 where "w2 = (if unat (fw_y w1) + ch + 1 < H then w1 else clear w1)"
  have w2: "(if fi_height (fw_info w1) \<le> fw_y w1 + char_raster_height F + 1 then clear w1 else w1) = w2"
    by (simp add: w2_def word_le_nat_alt y'(2) H_def not_less w1s(1))
  have "write_char F w c = write_rendered_char w2 (glyph F c)"
    using c x(1) w1 y(1) y'(1) get_char_raster_glyph(1) [OF font]
    by (simp add: write_char_def Let_def w2)
  moreover have "fw_info w2 = fw_info w"
    "fw_buf w2 = (if clean then replicate (length (fw_buf w)) 0 else fw_buf w)"
    "unat (fw_x w2) = x0" "unat (fw_y w2) = y0" "x0 + cw < W" "y0 + ch + 1 < H"
    using cell w1s room
    by (auto simp: w2_def clear_def next_cell_def Let_def cw_def ch_def W_def H_def split: if_splits)
  ultimately show ?thesis unfolding cw_def ch_def W_def H_def by (intro exI [of _ w2]) simp
qed

text \<open>
  The whole effect of \<open>write_char\<close> on a printable character: the next cell shows its glyph, every
  other pixel is what it was, or zero if the screen has been cleared; the cursor is right of it.
\<close>

definition painted :: "font \<Rightarrow> fb_writer \<Rightarrow> u32 \<Rightarrow> fb_writer \<Rightarrow> bool" where
  "painted F w c w' \<longleftrightarrow>
     (case next_cell F w of (x0, y0, clean) \<Rightarrow>
        fw_info w' = fw_info w \<and> length (fw_buf w') = length (fw_buf w) \<and>
        unat (fw_x w') = x0 + unat (char_raster_width F) \<and> unat (fw_y w') = y0 \<and>
        (\<forall>x<unat (fi_stride (fw_info w)). \<forall>y<unat (fi_height (fw_info w)).
           pixel w' x y =
             (if x0 \<le> x \<and> x < x0 + unat (char_raster_width F) \<and>
                 y0 \<le> y \<and> y < y0 + unat (char_raster_height F)
              then shade (fw_info w) (rc_raster (glyph F c) ! (y - y0) ! (x - x0))
              else if clean then replicate (unat (fi_bytes_per_pixel (fw_info w))) 0
              else pixel w x y)))"

lemma pixel_cleared:
  assumes sc: "screen_ok F w" and xy: "x < unat (fi_stride (fw_info w))" "y < unat (fi_height (fw_info w))"
    and w': "fw_info w' = fw_info w" "fw_buf w' = replicate (length (fw_buf w)) 0"
  shows "pixel w' x y = replicate (unat (fi_bytes_per_pixel (fw_info w))) 0"
proof -
  have "unat (fi_height (fw_info w)) * unat (fi_stride (fw_info w)) *
      unat (fi_bytes_per_pixel (fw_info w)) \<le> length (fw_buf w)"
    using sc by (auto simp: screen_defs)
  then show ?thesis
    using pixel_inside [OF xy, of "unat (fi_bytes_per_pixel (fw_info w))"] w'
    by (simp add: pixel_def min_def)
qed

lemma write_rendered_char_ok:
  assumes "screen_ok F w" "rc_width r = char_raster_width F"
    "\<forall>row\<in>set (rc_raster r). length row = unat (char_raster_width F)"
    "unat (fw_x w) + unat (char_raster_width F) < unat (fi_width (fw_info w))"
    "unat (fw_y w) + length (rc_raster r) < unat (fi_height (fw_info w))"
  shows "\<exists>buf' x'. write_rendered_char w r = Inr (w\<lparr>fw_buf := buf', fw_x := x'\<rparr>) \<and>
    unat x' = unat (fw_x w) + unat (char_raster_width F) \<and> length buf' = length (fw_buf w) \<and>
    (\<forall>x y. x < unat (fi_stride (fw_info w)) \<longrightarrow>
       pixel (w\<lparr>fw_buf := buf'\<rparr>) x y =
         (if unat (fw_y w) \<le> y \<and> y < unat (fw_y w) + length (rc_raster r) \<and>
             unat (fw_x w) \<le> x \<and> x < unat (fw_x w) + unat (char_raster_width F)
          then shade (fw_info w) (rc_raster r ! (y - unat (fw_y w)) ! (x - unat (fw_x w)))
          else pixel w x y))"
proof -
  obtain buf' where b: "write_rows w 0 (rc_raster r) = Inr (w\<lparr>fw_buf := buf'\<rparr>)"
    "length buf' = length (fw_buf w)"
    "\<forall>x y. x < unat (fi_stride (fw_info w)) \<longrightarrow>
       pixel (w\<lparr>fw_buf := buf'\<rparr>) x y =
         (if unat (fw_y w) \<le> y \<and> y < unat (fw_y w) + length (rc_raster r) \<and>
             unat (fw_x w) \<le> x \<and> x < unat (fw_x w) + unat (char_raster_width F)
          then shade (fw_info w) (rc_raster r ! (y - unat (fw_y w)) ! (x - unat (fw_x w)))
          else pixel w x y)"
    using write_rows_ok [OF assms(1) less_imp_le [OF assms(4)], of 0 "rc_raster r"] assms(3)
      less_imp_le [OF assms(5)] by auto
  have z: "add_chk (rc_width r) 0 = Inr (char_raster_width F)"
    using assms(2) by (simp add: add_chk_ok)
  have "unat (fw_x w) + unat (char_raster_width F) < 2 ^ 64"
    by (rule less_trans [OF assms(4) usize_lt])
  then have x: "add_chk (fw_x w) (char_raster_width F) = Inr (fw_x w + char_raster_width F)"
    "unat (fw_x w + char_raster_width F) = unat (fw_x w) + unat (char_raster_width F)"
    by (simp_all add: add_chk_ok unat_add_noovf)
  have "write_rendered_char w r = Inr (w\<lparr>fw_buf := buf', fw_x := fw_x w + char_raster_width F\<rparr>)"
    using b(1) z x(1) by (simp add: write_rendered_char_def)
  then show ?thesis using b(2,3) x(2) by blast
qed

lemma write_char_paints_glyph:
  assumes inv: "writer_inv F (Suc n) w" and c: "c \<noteq> 10" "c \<noteq> 13"
  shows "\<exists>w'. write_char F w c = Inr w' \<and> painted F w c w' \<and> writer_inv F n w'"
proof -
  obtain x0 y0 clean where cell: "next_cell F w = (x0, y0, clean)" by (cases "next_cell F w")
  have font: "font_ok F" and sc: "screen_ok F w" using inv by (simp_all add: writer_inv_def cursor_inv_def screen_ok_def)
  note g = get_char_raster_glyph [OF font, of c]
  obtain w2 where w2: "write_char F w c = write_rendered_char w2 (glyph F c)" "fw_info w2 = fw_info w"
      "fw_buf w2 = (if clean then replicate (length (fw_buf w)) 0 else fw_buf w)"
      "unat (fw_x w2) = x0" "unat (fw_y w2) = y0"
      "x0 + unat (char_raster_width F) < unat (fi_width (fw_info w))"
      "y0 + unat (char_raster_height F) + 1 < unat (fi_height (fw_info w))"
    using write_char_cell [OF _ c cell] inv unfolding writer_inv_def by blast
  have len: "length (fw_buf w2) = length (fw_buf w)" by (simp add: w2(3))
  have sc2: "screen_ok F w2" using sc by (simp add: screen_defs w2(2) len)
  obtain b x' where b: "write_rendered_char w2 (glyph F c) = Inr (w2\<lparr>fw_buf := b, fw_x := x'\<rparr>)"
      "unat x' = x0 + unat (char_raster_width F)" "length b = length (fw_buf w)"
    and px: "\<And>x y. x < unat (fi_stride (fw_info w)) \<Longrightarrow>
       pixel (w2\<lparr>fw_buf := b\<rparr>) x y =
         (if y0 \<le> y \<and> y < y0 + unat (char_raster_height F) \<and>
             x0 \<le> x \<and> x < x0 + unat (char_raster_width F)
          then shade (fw_info w) (rc_raster (glyph F c) ! (y - y0) ! (x - x0)) else pixel w2 x y)"
    using write_rendered_char_ok [OF sc2 g(2,4)] w2 g(3) len by fastforce
  let ?w = "w2\<lparr>fw_buf := b, fw_x := x'\<rparr>"
  have old: "pixel w2 x y = (if clean then replicate (unat (fi_bytes_per_pixel (fw_info w))) 0
      else pixel w x y)"
    if "x < unat (fi_stride (fw_info w))" "y < unat (fi_height (fw_info w))" for x y
    using pixel_cleared [OF sc that w2(2)] w2(2,3) by (auto simp: pixel_def)
  have "painted F w c ?w"
    unfolding painted_def cell using b w2 px old by simp
  moreover have "writer_inv F n ?w"
  proof -
    have "screen_ok F ?w" using sc2 b(3) len by simp
    moreover have "max (unat (fw_y ?w)) (unat (fi_height (fw_info ?w))) +
        (unat (char_raster_height F) + 2) * (n + 1) + unat (char_raster_height F) + 1 < 2 ^ 64"
      using inv w2 by (simp add: writer_inv_def cursor_inv_def screen_ok_def max_def algebra_simps split: if_splits)
    ultimately show ?thesis using font w2 b(2) by (simp add: writer_inv_def cursor_inv_def screen_ok_def)
  qed
  ultimately show ?thesis using w2(1) b(1) by auto
qed

lemma budget_step:
  fixes N :: nat
  shows "a \<le> b + h + 2 \<Longrightarrow> b + (h + 2) * (n + 1) + 2 * h + 3 < N \<Longrightarrow>
    a + (h + 2) * (n + 1) + h + 1 < N"
  by linarith

lemma write_char_ok:
  assumes inv: "writer_inv F (Suc n) w"
  shows "\<exists>w'. write_char F w c = Inr w' \<and> writer_inv F n w'"
proof -
  have lim: "max (unat (fw_y w)) (unat (fi_height (fw_info w))) +
      (unat (char_raster_height F) + 2) * (n + 1) + 2 * unat (char_raster_height F) + 3 < 2 ^ 64"
    using inv by (simp add: writer_inv_def cursor_inv_def algebra_simps)
  have w: "1 < unat (fi_width (fw_info w))" using inv by (simp add: writer_inv_def cursor_inv_def screen_defs)
  consider "c = 10" | "c = 13" | "c \<noteq> 10" "c \<noteq> 13" by blast
  then show ?thesis
  proof cases
    case 1
    have "unat (fw_y w) + unat (char_raster_height F) + 2 < 2 ^ 64"
      using lim by (simp add: algebra_simps)
    note nl = newline_ok [OF this]
    let ?w = "w\<lparr>fw_x := 1, fw_y := fw_y w + (char_raster_height F + 2)\<rparr>"
    have "max (unat (fw_y ?w)) (unat (fi_height (fw_info w))) \<le>
        max (unat (fw_y w)) (unat (fi_height (fw_info w))) + unat (char_raster_height F) + 2"
      by (simp add: nl(2))
    note budget_step [OF this lim]
    then have "writer_inv F n ?w" using inv w by (simp add: writer_inv_def cursor_inv_def screen_ok_def)
    then show ?thesis using 1 nl(1) by (simp add: write_char_def)
  next
    case 2
    have "writer_inv F n (carriage_return w)"
      using inv lim w by (simp add: writer_inv_def cursor_inv_def carriage_return_def)
    then show ?thesis using 2 by (simp add: write_char_def)
  next
    case 3
    then show ?thesis using write_char_paints_glyph [OF inv 3] by blast
  qed
qed

section \<open>Strings and the logger\<close>

text \<open>
  The trait \<open>fmt::Write\<close>, which the macro \<open>writeln!\<close> of the logger drives: writing succeeds within a
  budget of characters, and two strings in a row are their concatenation.
\<close>

locale fmt_write =
  fixes wr :: "'w \<Rightarrow> u32 list \<Rightarrow> 'e + 'w"
    and inv :: "nat \<Rightarrow> 'w \<Rightarrow> bool"
  assumes wr_ok: "inv n w \<Longrightarrow> length s \<le> n \<Longrightarrow> \<exists>w'. wr w s = Inr w' \<and> inv (n - length s) w'"
    and wr_Nil: "wr w [] = Inr w"
    and wr_append: "wr w (s @ t) = rbind (wr w s) (\<lambda>w'. wr w' t)"
begin

lemma write_strs_concat: "write_strs wr w ss = wr w (concat ss)"
  by (induction ss arbitrary: w) (simp_all add: wr_Nil wr_append)

lemma write_strs_ok:
  "inv n w \<Longrightarrow> length (concat ss) \<le> n \<Longrightarrow>
    \<exists>w'. write_strs wr w ss = Inr w' \<and> inv (n - length (concat ss)) w'"
  using wr_ok by (simp add: write_strs_concat)

end

lemma write_str_append: "write_str F w (s @ t) = rbind (write_str F w s) (\<lambda>w'. write_str F w' t)"
  by (induction s arbitrary: w) (simp_all add: rbind_assoc)

lemma write_str_ok:
  "writer_inv F n w \<Longrightarrow> length s \<le> n \<Longrightarrow>
    \<exists>w'. write_str F w s = Inr w' \<and> writer_inv F (n - length s) w'"
proof (induction s arbitrary: n w)
  case Nil
  then show ?case by simp
next
  case (Cons c s)
  then obtain m where m: "n = Suc m" by (cases n) auto
  obtain w1 where w1: "write_char F w c = Inr w1" "writer_inv F m w1"
    using write_char_ok Cons.prems(1) unfolding m by blast
  then show ?case using Cons.IH [OF w1(2)] Cons.prems(2) by (simp add: m)
qed

interpretation screen: fmt_write "write_str F" "writer_inv F" for F
  by unfold_locales (auto intro: write_str_ok simp: write_str_append)

text \<open>The text of a log line.\<close>

definition log_line :: "u32 list \<Rightarrow> u32 list list \<Rightarrow> u32 list" where
  "log_line level args = pad5 level @ [58, 32] @ concat args @ [10]"

lemma log_free:
  assumes "spin_ok L" "\<not> lg_locked lg"
  shows "log L F lg level args =
    (case write_str F (lg_writer lg) (log_line level args) of
       Inl (e, w) \<Rightarrow> Some (Inl (e, lg\<lparr>lg_writer := w, lg_locked := True\<rparr>))
     | Inr w \<Rightarrow> Some (Inr (lg\<lparr>lg_writer := w, lg_locked := False\<rparr>)))"
  using assms unfolding log_def screen.write_strs_concat
  by (simp add: spin_ok_def log_line_def)

lemma log_held: "spin_ok L \<Longrightarrow> lg_locked lg \<Longrightarrow> log L F lg level args = None"
  by (simp add: log_def spin_ok_def)

lemma clear_inv:
  assumes "font_ok F" "screen_ok F w" "(unat (char_raster_height F) + 2) * (n + 2) < 2 ^ 63"
  shows "writer_inv F n (clear w)"
proof -
  have "screen_ok F (clear w)" using assms(2) by (simp add: screen_defs clear_def)
  moreover have "unat (fi_height (fw_info w)) < 2 ^ 63"
  proof -
    have "0 < unat (fi_stride (fw_info w)) * unat (fi_bytes_per_pixel (fw_info w))"
      "unat (fi_height (fw_info w)) * (unat (fi_stride (fw_info w)) *
         unat (fi_bytes_per_pixel (fw_info w))) < 2 ^ 63"
      using assms(2) by (auto simp: screen_defs mult.assoc)
    then show ?thesis
      by (metis One_nat_def Suc_leI le_less_trans mult.right_neutral mult_le_mono2)
  qed
  moreover have "1 < unat (fi_width (fw_info w))" "1 < unat (fi_height (fw_info w))"
    using assms(2) by (auto simp: screen_defs)
  ultimately show ?thesis using assms(1,3) by (simp add: writer_inv_def cursor_inv_def screen_ok_def clear_def max_def algebra_simps)
qed

subsection \<open>A pixel format that the logger does not support\<close>

lemma write_pixel_unsupported:
  assumes "screen_fits F w" "fi_format (fw_info w) = Unknown a b d"
    "unat x < unat (fi_width (fw_info w))" "unat y < unat (fi_height (fw_info w))"
  shows "write_pixel w x y i = Inl (PanicMsg ''pixel format not supported in logger'',
    w\<lparr>fw_info := (fw_info w)\<lparr>fi_format := Rgb\<rparr>\<rparr>)"
proof -
  define s h bp where "s = unat (fi_stride (fw_info w))" and "h = unat (fi_height (fw_info w))"
    and "bp = unat (fi_bytes_per_pixel (fw_info w))"
  have ok: "0 < bp" "h * s * bp \<le> length (fw_buf w)" "length (fw_buf w) < 2 ^ 63" "unat x < s"
    using assms by (auto simp: screen_defs s_def h_def bp_def)
  have "(unat y * s + unat x) * bp + bp \<le> length (fw_buf w)"
    using pixel_inside [OF ok(4), of "unat y" h bp] assms(4) ok(2) by (simp add: h_def)
  moreover have "unat y * s + unat x \<le> (unat y * s + unat x) * bp" using ok(1) by simp
  ultimately have "unat y * s + unat x \<le> length (fw_buf w)" by linarith
  then have lim: "unat y * s + unat x < 2 ^ 64" using ok(3) by simp
  let ?row = "y * fi_stride (fw_info w)"
  have row: "mul_chk y (fi_stride (fw_info w)) = Inr ?row" "unat ?row = unat y * s"
    using lim by (simp_all add: mul_chk_ok unat_mul_noovf s_def)
  then have "add_chk ?row x = Inr (?row + x)" using lim by (simp add: add_chk_ok)
  then show ?thesis using row assms(2) by (simp add: write_pixel_def)
qed

lemma write_char_unsupported:
  assumes inv: "cursor_inv F (Suc n) w" and c: "c \<noteq> 10" "c \<noteq> 13"
    and fmt: "fi_format (fw_info w) = Unknown a b d"
    and size: "0 < char_raster_width F" "0 < char_raster_height F"
  shows "\<exists>w'. write_char F w c = Inl (PanicMsg ''pixel format not supported in logger'', w')"
proof -
  obtain x0 y0 clean where cell: "next_cell F w = (x0, y0, clean)" by (cases "next_cell F w")
  have font: "font_ok F" and sc: "screen_fits F w" using inv by (simp_all add: cursor_inv_def)
  note g = get_char_raster_glyph [OF font, of c]
  obtain w2 where w2: "write_char F w c = write_rendered_char w2 (glyph F c)" "fw_info w2 = fw_info w"
      "fw_buf w2 = (if clean then replicate (length (fw_buf w)) 0 else fw_buf w)"
      "unat (fw_x w2) + unat (char_raster_width F) < unat (fi_width (fw_info w))"
      "unat (fw_y w2) + unat (char_raster_height F) + 1 < unat (fi_height (fw_info w))"
    using write_char_cell [OF inv c cell] by blast
  have sc2: "screen_fits F w2" using sc by (simp add: screen_defs w2)
  obtain i row rows where r: "rc_raster (glyph F c) = (i # row) # rows"
  proof -
    obtain row' rows where rw: "rc_raster (glyph F c) = row' # rows"
      using g(3) size(2) by (cases "rc_raster (glyph F c)") (auto simp: word_less_nat_alt)
    moreover obtain i row where "row' = i # row"
      using g(4) rw size(1) by (cases row') (auto simp: word_less_nat_alt)
    ultimately show thesis using that by blast
  qed
  have "write_pixel w2 (fw_x w2) (fw_y w2) i =
      Inl (PanicMsg ''pixel format not supported in logger'',
        w2\<lparr>fw_info := (fw_info w2)\<lparr>fi_format := Rgb\<rparr>\<rparr>)"
    using write_pixel_unsupported [OF sc2, of a b d "fw_x w2" "fw_y w2" i] w2 fmt by simp
  then show ?thesis
    using w2(1) r by (simp add: write_rendered_char_def add_chk_ok)
qed

section \<open>Properties\<close>

text \<open>
  A font with one glyph, two pixels wide and one high, for every character, and a screen of eight
  by six pixels with three bytes each.
\<close>

definition sample_font :: font where
  "sample_font =
     \<lparr>get_raster = (\<lambda>c. Some \<lparr>rc_raster = [[0, 255]], rc_width = 2\<rparr>),
      char_raster_width = 2, char_raster_height = 1\<rparr>"

definition sample_info :: "pixel_format \<Rightarrow> fb_info" where
  "sample_info f =
     \<lparr>fi_width = 8, fi_height = 6, fi_format = f, fi_bytes_per_pixel = 3, fi_stride = 8\<rparr>"

lemma sample_font_ok: "font_ok sample_font"
  by (simp add: font_ok_def sample_font_def)

lemma sample_fits: "screen_fits sample_font (fb_writer_new (replicate 144 7) (sample_info f))"
  by (simp add: screen_fits_def fb_writer_new_def clear_def sample_font_def sample_info_def)

lemma sample_cursor: "cursor_inv sample_font 9 (fb_writer_new (replicate 144 7) (sample_info f))"
  using sample_fits [of f] sample_font_ok
  by (simp add: cursor_inv_def fb_writer_new_def clear_def sample_font_def sample_info_def)

lemma sample_inv: "writer_inv sample_font 9 (fb_writer_new (replicate 144 7) (sample_info Rgb))"
  using sample_cursor
  by (simp add: writer_inv_def supported_def fb_writer_new_def clear_def sample_info_def)

lemma sample_long_inv: "writer_inv sample_font 99 (fb_writer_new (replicate 144 7) (sample_info Rgb))"
  using sample_inv
  by (simp add: writer_inv_def cursor_inv_def fb_writer_new_def clear_def sample_font_def sample_info_def)

text \<open>
  C12: drawing a character is exact. On a supported screen, \<open>write_char\<close> of a printable character
  never panics; it draws the character's glyph (or the replacement glyph) in the next free cell,
  after wrapping the line or clearing the full screen, changes no other pixel of the framebuffer,
  padding included, moves the cursor right of the glyph and keeps the writer's invariant.
\<close>

theorem write_char_paints:
  assumes "writer_inv F (Suc n) w" "c \<noteq> 10" "c \<noteq> 13"
  shows "\<exists>w'. write_char F w c = Inr w' \<and> painted F w c w' \<and> writer_inv F n w'"
  using write_char_paints_glyph [OF assms] .

theorem write_char_paints_witness:
  "\<exists>w'. write_char sample_font (fb_writer_new (replicate 144 7) (sample_info Rgb)) 65 = Inr w' \<and>
    painted sample_font (fb_writer_new (replicate 144 7) (sample_info Rgb)) 65 w' \<and>
    writer_inv sample_font 8 w'"
  using write_char_paints [of sample_font 8 "fb_writer_new (replicate 144 7) (sample_info Rgb)" 65]
    sample_inv by simp

text \<open>The log calls of a run, each with its level and the pieces of its message.\<close>

fun logs :: "spin \<Rightarrow> font \<Rightarrow> logger \<Rightarrow> (u32 list \<times> u32 list list) list \<Rightarrow>
    ((panic \<times> logger) + logger) option" where
  "logs L F lg [] = Some (Inr lg)"
| "logs L F lg ((level, args) # rs) =
     (case log L F lg level args of
        None \<Rightarrow> None
      | Some (Inl e) \<Rightarrow> Some (Inl e)
      | Some (Inr lg') \<Rightarrow> logs L F lg' rs)"

lemma logs_ok:
  assumes L: "spin_ok L"
  shows "writer_inv F n (lg_writer lg) \<Longrightarrow> \<not> lg_locked lg \<Longrightarrow>
    (\<Sum>(level, args)\<leftarrow>rs. length (log_line level args)) \<le> n \<Longrightarrow>
    \<exists>lg'. logs L F lg rs = Some (Inr lg') \<and> \<not> lg_locked lg' \<and>
      Inr (lg_writer lg') =
        write_str F (lg_writer lg) (concat (map (\<lambda>(level, args). log_line level args) rs))"
proof (induction rs arbitrary: lg n)
  case Nil
  then show ?case by simp
next
  case (Cons r rs)
  obtain level args where r: "r = (level, args)" by (cases r)
  obtain w where w: "write_str F (lg_writer lg) (log_line level args) = Inr w"
    "writer_inv F (n - length (log_line level args)) w"
    using screen.wr_ok [OF Cons.prems(1), of "log_line level args"] Cons.prems(3) r by auto
  let ?lg = "lg\<lparr>lg_writer := w, lg_locked := False\<rparr>"
  have "(\<Sum>(level, args)\<leftarrow>rs. length (log_line level args)) \<le> n - length (log_line level args)"
    using Cons.prems(3) r by simp
  then obtain lg' where lg': "logs L F ?lg rs = Some (Inr lg')" "\<not> lg_locked lg'"
    "Inr (lg_writer lg') = write_str F w (concat (map (\<lambda>(level, args). log_line level args) rs))"
    using Cons.IH [of "n - length (log_line level args)" ?lg] w(2) by auto
  then show ?case
    using w Cons.prems(2) by (simp add: r log_free [OF L] screen.wr_append)
qed

text \<open>
  C25: logging is safe. From the boot on, on a supported screen, every sequence of log calls
  returns: no index is out of range, no addition overflows, the logger's lock is free after every
  call, and the screen is what writing the lines one after the other gives. The bound on the text
  (its length times the line height stays below 2 to the 63) is what keeps the vertical cursor
  from overflowing.
\<close>

theorem logging_never_panics:
  assumes "spin_ok L" "font_ok F" "screen_ok F (fb_writer_new buf info)"
    "(unat (char_raster_height F) + 2) *
       ((\<Sum>(level, args)\<leftarrow>rs. length (log_line level args)) + 2) < 2 ^ 63"
  shows "\<exists>lg'. logs L F (logger_new buf info) rs = Some (Inr lg') \<and> \<not> lg_locked lg' \<and>
    Inr (lg_writer lg') =
      write_str F (fb_writer_new buf info) (concat (map (\<lambda>(level, args). log_line level args) rs))"
proof -
  have "clear (fb_writer_new buf info) = fb_writer_new buf info"
    by (simp add: fb_writer_new_def clear_def)
  then have "writer_inv F (\<Sum>(level, args)\<leftarrow>rs. length (log_line level args)) (fb_writer_new buf info)"
    using clear_inv [OF assms(2-4)] by simp
  then show ?thesis using logs_ok [OF assms(1), of F _ "logger_new buf info" rs]
    by (simp add: logger_new_def)
qed

theorem logging_never_panics_witness:
  "\<exists>lg'. logs spin_ref sample_font (logger_new (replicate 144 7) (sample_info Bgr))
      [([73, 78, 70, 79], [[66, 65, 89, 79, 83]])] = Some (Inr lg') \<and> \<not> lg_locked lg'"
proof -
  have "screen_ok sample_font (fb_writer_new (replicate 144 7) (sample_info Bgr))"
    using sample_fits [of Bgr]
    by (simp add: screen_ok_def supported_def fb_writer_new_def clear_def sample_info_def)
  then show ?thesis
    using logging_never_panics [OF spin_ref_ok sample_font_ok, of "replicate 144 7" "sample_info Bgr"
        "[([73, 78, 70, 79], [[66, 65, 89, 79, 83]])]"]
    by (auto simp: log_line_def pad5_def sample_font_def)
qed

text \<open>
  C39: on a framebuffer whose pixel format the logger does not support, the first visible character
  of a log line panics, as written, but the panic handler then never prints and never reaches its
  halting loop: the panicking call still holds the logger's lock, so the format it set \<open>to avoid a
  double panic\<close> is never used.
\<close>

theorem unsupported_format_hangs:
  assumes "spin_ok L" "cursor_inv F (Suc n) (lg_writer lg)" "\<not> lg_locked lg"
    "fi_format (fw_info (lg_writer lg)) = Unknown r g b"
    "0 < char_raster_width F" "0 < char_raster_height F"
    "c \<noteq> 10" "c \<noteq> 13"
  shows "\<exists>lg'. log L F lg (c # level) args =
      Some (Inl (PanicMsg ''pixel format not supported in logger'', lg')) \<and>
    panic_handler L F lg' info = None"
proof -
  obtain w where "write_char F (lg_writer lg) c =
      Inl (PanicMsg ''pixel format not supported in logger'', w)"
    using write_char_unsupported [OF assms(2) assms(7,8) assms(4-6)] by blast
  then have "log L F lg (c # level) args = Some (Inl (PanicMsg ''pixel format not supported in logger'',
      lg\<lparr>lg_writer := w, lg_locked := True\<rparr>))"
    using assms(1,3) by (simp add: log_free log_line_def pad5_def)
  then show ?thesis using assms(1) by (simp add: panic_handler_def log_held)
qed

theorem unsupported_format_hangs_witness:
  "\<exists>lg'. log spin_ref sample_font (logger_new (replicate 144 7) (sample_info (Unknown 0 8 16)))
      [73, 78, 70, 79] [[66, 65, 89, 79, 83]] =
      Some (Inl (PanicMsg ''pixel format not supported in logger'', lg')) \<and>
    panic_handler spin_ref sample_font lg' [] = None"
  using unsupported_format_hangs [OF spin_ref_ok, of sample_font 8
      "logger_new (replicate 144 7) (sample_info (Unknown 0 8 16))" 0 8 16 73 "[78, 70, 79]"
      "[[66, 65, 89, 79, 83]]" "[]"] sample_cursor [of "Unknown 0 8 16"]
  by (simp add: logger_new_def) (simp add: sample_font_def fb_writer_new_def clear_def sample_info_def)

end
