(* ===== verification/Elf.thy ===== *)
theory Elf
  imports X86_Addr
begin

text \<open>
  ELF files in memory: \<open>kernel/src/elf.rs\<close>. The two structures are \<open>repr(C, packed)\<close>, so their fields
  lie one after the other, little-endian, without padding; reading a field through a pointer reads
  its bytes. Memory is a function from addresses to bytes.
\<close>

section \<open>Bytes and words\<close>

type_synonym bytes_mem = "u64 \<Rightarrow> u8"

definition mem_bytes :: "bytes_mem \<Rightarrow> u64 \<Rightarrow> nat \<Rightarrow> u8 list" where
  "mem_bytes m a n = map (\<lambda>i. m (a + of_nat i)) [0..<n]"

fun le_word :: "u8 list \<Rightarrow> 'a::len word" where
  "le_word [] = 0"
| "le_word (b # bs) = ucast b OR push_bit 8 (le_word bs)"

definition le_bytes :: "nat \<Rightarrow> 'a::len word \<Rightarrow> u8 list" where
  "le_bytes n w = map (\<lambda>i. ucast (drop_bit (8 * i) w)) [0..<n]"

definition store_bytes :: "bytes_mem \<Rightarrow> u64 \<Rightarrow> u8 list \<Rightarrow> bytes_mem" where
  "store_bytes m a bs = (\<lambda>x. if unat (x - a) < length bs then bs ! unat (x - a) else m x)"

section \<open>The structures\<close>

record elf_header =
  e_ident :: "u8 list"
  e_type :: u16
  e_machine :: u16
  e_version :: u32
  e_entry :: u64
  e_phoff :: u64
  e_shoff :: u64
  e_flags :: u32
  e_ehsize :: u16
  e_phentsize :: u16
  e_phnum :: u16
  e_shentsize :: u16
  e_shnum :: u16
  e_shstrndx :: u16

record elf_program =
  p_type :: u32
  p_flags :: u32
  p_offset :: u64
  p_vaddr :: u64
  p_paddr :: u64
  p_filesz :: u64
  p_memsz :: u64
  p_align :: u64

definition read_header :: "bytes_mem \<Rightarrow> u64 \<Rightarrow> elf_header" where
  "read_header m a =
     \<lparr>e_ident = mem_bytes m a 16,
      e_type = le_word (mem_bytes m (a + 16) 2),
      e_machine = le_word (mem_bytes m (a + 18) 2),
      e_version = le_word (mem_bytes m (a + 20) 4),
      e_entry = le_word (mem_bytes m (a + 24) 8),
      e_phoff = le_word (mem_bytes m (a + 32) 8),
      e_shoff = le_word (mem_bytes m (a + 40) 8),
      e_flags = le_word (mem_bytes m (a + 48) 4),
      e_ehsize = le_word (mem_bytes m (a + 52) 2),
      e_phentsize = le_word (mem_bytes m (a + 54) 2),
      e_phnum = le_word (mem_bytes m (a + 56) 2),
      e_shentsize = le_word (mem_bytes m (a + 58) 2),
      e_shnum = le_word (mem_bytes m (a + 60) 2),
      e_shstrndx = le_word (mem_bytes m (a + 62) 2)\<rparr>"

definition read_program :: "bytes_mem \<Rightarrow> u64 \<Rightarrow> elf_program" where
  "read_program m a =
     \<lparr>p_type = le_word (mem_bytes m a 4),
      p_flags = le_word (mem_bytes m (a + 4) 4),
      p_offset = le_word (mem_bytes m (a + 8) 8),
      p_vaddr = le_word (mem_bytes m (a + 16) 8),
      p_paddr = le_word (mem_bytes m (a + 24) 8),
      p_filesz = le_word (mem_bytes m (a + 32) 8),
      p_memsz = le_word (mem_bytes m (a + 40) 8),
      p_align = le_word (mem_bytes m (a + 48) 8)\<rparr>"

text \<open>The file format: the bytes of a header and of a program header.\<close>

definition header_bytes :: "elf_header \<Rightarrow> u8 list" where
  "header_bytes h =
     e_ident h @ le_bytes 2 (e_type h) @ le_bytes 2 (e_machine h) @ le_bytes 4 (e_version h) @
     le_bytes 8 (e_entry h) @ le_bytes 8 (e_phoff h) @ le_bytes 8 (e_shoff h) @
     le_bytes 4 (e_flags h) @ le_bytes 2 (e_ehsize h) @ le_bytes 2 (e_phentsize h) @
     le_bytes 2 (e_phnum h) @ le_bytes 2 (e_shentsize h) @ le_bytes 2 (e_shnum h) @
     le_bytes 2 (e_shstrndx h)"

definition program_bytes :: "elf_program \<Rightarrow> u8 list" where
  "program_bytes p =
     le_bytes 4 (p_type p) @ le_bytes 4 (p_flags p) @ le_bytes 8 (p_offset p) @
     le_bytes 8 (p_vaddr p) @ le_bytes 8 (p_paddr p) @ le_bytes 8 (p_filesz p) @
     le_bytes 8 (p_memsz p) @ le_bytes 8 (p_align p)"

section \<open>Lemmas\<close>

lemma length_le_bytes [simp]: "length (le_bytes n w) = n"
  by (simp add: le_bytes_def)

lemma length_mem_bytes [simp]: "length (mem_bytes m a n) = n"
  by (simp add: mem_bytes_def)

lemma le_bytes_Suc: "le_bytes (Suc n) w = ucast w # le_bytes n (drop_bit 8 w)"
proof -
  have "[0..<Suc n] = 0 # map Suc [0..<n]" by (simp only: upt_conv_Cons map_Suc_upt)
  then show ?thesis by (simp add: le_bytes_def add.commute)
qed

lemma le_word_le_bytes_take: "le_word (le_bytes n w) = take_bit (8 * n) (w :: 'a::len word)"
proof (induction n arbitrary: w)
  case 0
  then show ?case by (simp add: le_bytes_def)
next
  case (Suc n)
  have "ucast (ucast w :: u8) OR push_bit 8 (take_bit (8 * n) (drop_bit 8 w)) = take_bit (8 + 8 * n) w"
    by (rule bit_word_eqI) (auto simp: bit_simps)
  then show ?case by (simp add: le_bytes_Suc Suc)
qed

lemma le_word_le_bytes: "LENGTH('a) \<le> 8 * n \<Longrightarrow> le_word (le_bytes n w) = (w :: 'a::len word)"
  by (simp add: le_word_le_bytes_take take_bit_word_eq_self)

lemma mem_bytes_part:
  assumes "i + n \<le> k"
  shows "mem_bytes m (a + of_nat i) n = take n (drop i (mem_bytes m a k))"
  using assms by (intro nth_equalityI) (simp_all add: mem_bytes_def add.assoc)

lemma mem_bytes_numeral:
  assumes "numeral i + n \<le> k"
  shows "mem_bytes m (a + numeral i) n = take n (drop (numeral i) (mem_bytes m a k))"
  using mem_bytes_part [OF assms, of m a] by simp


lemma mem_bytes_store:
  assumes "length bs < 2 ^ 64" shows "mem_bytes (store_bytes m a bs) a (length bs) = bs"
proof (rule nth_equalityI)
  show "mem_bytes (store_bytes m a bs) a (length bs) ! i = bs ! i"
    if "i < length (mem_bytes (store_bytes m a bs) a (length bs))" for i
  proof -
    have "unat (of_nat i :: u64) = i"
      using that assms by (simp add: unsigned_of_nat take_bit_nat_eq_self)
    then show ?thesis using that by (simp add: mem_bytes_def store_bytes_def)
  qed
qed simp

lemma length_header_bytes: "length (e_ident h) = 16 \<Longrightarrow> length (header_bytes h) = 64"
  by (simp add: header_bytes_def)

lemma length_program_bytes: "length (program_bytes p) = 56"
  by (simp add: program_bytes_def)

lemma read_header_bytes:
  assumes "length (e_ident h) = 16" "mem_bytes m a 64 = header_bytes h"
  shows "read_header m a = h"
proof -
  have e: "mem_bytes m a 16 = take 16 (header_bytes h)"
    using mem_bytes_part [of 0 16 64 m a] assms(2) by simp
  show ?thesis
    unfolding read_header_def e
    using assms
    by (simp add: mem_bytes_numeral [where k = 64] header_bytes_def le_word_le_bytes)
qed

lemma read_program_bytes:
  assumes "mem_bytes m a 56 = program_bytes p"
  shows "read_program m a = p"
proof -
  have e: "mem_bytes m a 4 = take 4 (program_bytes p)"
    using mem_bytes_part [of 0 4 56 m a] assms by simp
  show ?thesis
    unfolding read_program_def e
    using assms
    by (simp add: mem_bytes_numeral [where k = 56] program_bytes_def le_word_le_bytes)
qed

section \<open>Properties\<close>

text \<open>
  The structures have the layout of the file format: a header or a program header that is
  stored in memory in the order and widths of the ELF specification is read back field by field.
\<close>

theorem elf_layout_roundtrip:
  assumes "length (e_ident h) = 16"
  shows "read_header (store_bytes m a (header_bytes h)) a = h \<and>
    read_program (store_bytes m a (program_bytes p)) a = p"
  using read_header_bytes [OF assms, of "store_bytes m a (header_bytes h)" a]
    read_program_bytes [of "store_bytes m a (program_bytes p)" a p]
    mem_bytes_store [of "header_bytes h" m a] mem_bytes_store [of "program_bytes p" m a]
  by (simp add: length_header_bytes [OF assms] length_program_bytes)

definition sample_header :: elf_header where
  "sample_header =
     \<lparr>e_ident = [0x7f, 69, 76, 70, 2, 1, 1, 0, 0, 0, 0, 0, 0, 0, 0, 0], e_type = 2, e_machine = 62,
      e_version = 1, e_entry = 0x401000, e_phoff = 64, e_shoff = 0, e_flags = 0, e_ehsize = 64,
      e_phentsize = 56, e_phnum = 1, e_shentsize = 0, e_shnum = 0, e_shstrndx = 0\<rparr>"

definition sample_program :: elf_program where
  "sample_program =
     \<lparr>p_type = 1, p_flags = 5, p_offset = 0x1000, p_vaddr = 0x401000, p_paddr = 0x401000,
      p_filesz = 3, p_memsz = 8, p_align = 0x1000\<rparr>"

theorem elf_layout_roundtrip_witness:
  "read_header (store_bytes (\<lambda>a. 0) 0x10000 (header_bytes sample_header)) 0x10000 = sample_header \<and>
    read_program (store_bytes (\<lambda>a. 0) 0x10000 (program_bytes sample_program)) 0x10000 = sample_program"
  by (rule elf_layout_roundtrip) (simp add: sample_header_def)

end
