(* ===== verification/Syscall.thy ===== *)
theory Syscall
  imports Paging Pipe Sched Framebuffer Elf
begin

text \<open>
  System calls: \<open>kernel/src/syscall.rs\<close>, from the dispatch in \<open>syscall_handler\<close> down. The kernel's
  shared cells are explicit: the process list and the current index, the one page table (behind the
  lock that every process shares), the bitmap frame allocator, the input pipe and the logger.
  Loads and stores through user pointers go through the CPU's page tables: they are a parameter,
  and an access that the page table does not allow ends in the page fault handler, a panic.
\<close>

section \<open>The state\<close>

record ('m, 'u) user_mem =
  um_load :: "'m \<Rightarrow> 'u \<Rightarrow> u64 \<Rightarrow> nat \<Rightarrow> u8 list res"
  um_store :: "'m \<Rightarrow> 'u \<Rightarrow> u64 \<Rightarrow> u8 list \<Rightarrow> 'u res"

record ('m, 'b, 'q, 'u) sysk =
  sk_sched :: sched
  sk_mapper :: 'm
  sk_mapper_locked :: bool
  sk_frames :: "'b bitmap_allocator option"
  sk_frames_locked :: bool
  sk_pipe :: "'q option"
  sk_logger :: "logger option"
  sk_mem :: 'u

text \<open>The code outside the repository that the system calls use.\<close>

record ('m, 'b, 'q, 'u) sys_ops =
  so_spin :: spin
  so_x86 :: x86_addr
  so_mapper :: "('m, 'b bitmap_allocator) mapper"
  so_bitvec :: "'b bitvec"
  so_queue :: "'q array_queue"
  so_font :: font
  so_mem :: "('m, 'u) user_mem"

definition lift_res :: "'a res \<Rightarrow> 'a run" where
  "lift_res m = Some m"

definition acquire :: "spin \<Rightarrow> bool \<Rightarrow> unit run" where
  "acquire L held = (case spin_acquire L held of None \<Rightarrow> None | Some _ \<Rightarrow> Some (Inr ()))"

text \<open>
  Interrupts during a system call. The calls that read and write run with interrupts enabled: an
  interrupt may come at each of their numbered points, and change the state. \<open>no_irq\<close> is a call
  during which none comes. The allocation call runs with interrupts disabled, in one step.
\<close>

type_synonym ('m, 'b, 'q, 'u) irqs = "nat \<Rightarrow> ('m, 'b, 'q, 'u) sysk \<Rightarrow> ('m, 'b, 'q, 'u) sysk run"

definition no_irq :: "('m, 'b, 'q, 'u) irqs" where
  "no_irq t k = Some (Inr k)"

text \<open>The eight bytes of a word in memory, lowest first.\<close>

definition bytes_of :: "u64 \<Rightarrow> u8 list" where
  "bytes_of v = map (\<lambda>i. ucast (drop_bit (8 * i) v)) [0..<8]"

section \<open>The calls\<close>

text \<open>
  \<open>anon_allocate_syscall\<close>. All locks are released at its end; a panic stops the machine.
\<close>

definition anon_allocate_syscall ::
  "('m, 'b, 'q, 'u) sys_ops \<Rightarrow> ('m, 'b, 'q, 'u) sysk \<Rightarrow> u64 \<Rightarrow> u64 \<Rightarrow> ('m, 'b, 'q, 'u) sysk run" where
  "anon_allocate_syscall S k sz ptr =
     (let L = so_spin S; X = so_x86 S in
      runbind (acquire_list L (sk_sched k)) (\<lambda>(s1, ps).
      runbind (acquire_current L s1) (\<lambda>(s2, cur).
      runbind (lift_res (rindex ps cur)) (\<lambda>proc.
      runbind (lift_res (runwrap UnwrapFailed (p_pages proc))) (\<lambda>page_range_start.
      runbind (lift_res (virt_addr_new X page_range_start)) (\<lambda>range_start.
      runbind (lift_res (virt_addr_add X range_start sz)) (\<lambda>e.
      runbind (lift_res (virt_addr_sub X e 1)) (\<lambda>range_end.
      let start_page = page_containing X range_start; end_page = page_containing X range_end in
      runbind (lift_res (runwrap UnwrapFailed (p_mapper proc))) (\<lambda>_.
      runbind (acquire L (sk_mapper_locked k)) (\<lambda>_.
      runbind (lift_res (runwrap UnwrapFailed (sk_frames k))) (\<lambda>frames.
      runbind (acquire L (sk_frames_locked k)) (\<lambda>_.
      runbind (lift_res (map_range (so_mapper S) (bitmap_allocate_frame X (so_bitvec S))
                 {PRESENT, WRITABLE, USER_ACCESSIBLE} (sk_mapper k) frames
                 (page_range_inclusive X start_page end_page))) (\<lambda>(r, m', frames').
      case r of
        Inl _ \<Rightarrow> Some (Inl UnwrapFailed)
      | Inr _ \<Rightarrow>
          runbind (lift_res (um_store (so_mem S) m' (sk_mem k) ptr (bytes_of page_range_start))) (\<lambda>u'.
          runbind (lift_res (add_chk page_range_start (page_range_size X start_page end_page))) (\<lambda>next.
            Some (Inr (k\<lparr>sk_sched := s2\<lparr>proc_list := Some (ps[cur := proc\<lparr>p_pages := Some next\<rparr>]),
                                         list_locked := False, current_locked := False\<rparr>,
                         sk_mapper := m', sk_mapper_locked := False,
                         sk_frames := Some frames', sk_frames_locked := False,
                         sk_mem := u'\<rparr>)))))))))))))))))"

text \<open>
  \<open>read_syscall\<close>: \<open>Pipe::read\<close> pops one byte after the other, spinning while there is none, and
  stores it at the next address of the user's buffer. \<open>read_poll\<close> is one iteration of the inner
  loop and tells whether it got a byte; before each iteration there may be an interrupt. A call
  that waits for ever is \<^term>\<open>None\<close>.
\<close>

definition read_poll ::
  "('m, 'b, 'q, 'u) sys_ops \<Rightarrow> ('m, 'b, 'q, 'u) sysk \<Rightarrow> u64 \<Rightarrow> (bool \<times> ('m, 'b, 'q, 'u) sysk) res" where
  "read_poll S k a =
     rbind (runwrap UnwrapFailed (sk_pipe k)) (\<lambda>q.
       case pipe_read_step (so_queue S) q \<lparr>rd_arr = [0], rd_pos = 0\<rparr> of (q', r) \<Rightarrow>
         if rd_pos r = 0 then Inr (False, k\<lparr>sk_pipe := Some q'\<rparr>)
         else rbind (um_store (so_mem S) (sk_mapper k) (sk_mem k) a (rd_arr r)) (\<lambda>u'.
           Inr (True, k\<lparr>sk_pipe := Some q', sk_mem := u'\<rparr>)))"

partial_function (option) read_loop ::
  "('m, 'b, 'q, 'u) sys_ops \<Rightarrow> ('m, 'b, 'q, 'u) irqs \<Rightarrow> nat \<Rightarrow> ('m, 'b, 'q, 'u) sysk \<Rightarrow> u64 \<Rightarrow> nat \<Rightarrow>
   ('m, 'b, 'q, 'u) sysk run" where
  "read_loop S J t k a n =
     (if n = 0 then Some (Inr k)
      else
        (case J t k of
           None \<Rightarrow> None
         | Some (Inl e) \<Rightarrow> Some (Inl e)
         | Some (Inr k1) \<Rightarrow>
             (case read_poll S k1 a of
                Inl e \<Rightarrow> Some (Inl e)
              | Inr (got, k2) \<Rightarrow>
                  if got then read_loop S J (Suc t) k2 (a + 1) (n - 1)
                  else read_loop S J (Suc t) k2 a n)))"

definition read_syscall_irq ::
  "('m, 'b, 'q, 'u) irqs \<Rightarrow> ('m, 'b, 'q, 'u) sys_ops \<Rightarrow> ('m, 'b, 'q, 'u) sysk \<Rightarrow> u64 \<Rightarrow> u64 \<Rightarrow> u64 \<Rightarrow>
   ('m, 'b, 'q, 'u) sysk run" where
  "read_syscall_irq J S k fd buf cnt =
     (if fd = 0
      then runbind (lift_res (runwrap UnwrapFailed (sk_pipe k))) (\<lambda>_. read_loop S J 0 k buf (unat cnt))
      else Some (Inr k))"

definition read_syscall ::
  "('m, 'b, 'q, 'u) sys_ops \<Rightarrow> ('m, 'b, 'q, 'u) sysk \<Rightarrow> u64 \<Rightarrow> u64 \<Rightarrow> u64 \<Rightarrow> ('m, 'b, 'q, 'u) sysk run" where
  "read_syscall = read_syscall_irq no_irq"

text \<open>
  \<open>core::str::from_utf8\<close> and the characters of its result: \<^term>\<open>None\<close> for bytes that are not
  well-formed UTF-8 (overlong forms, surrogates and code points above 0x10FFFF included).
\<close>

definition cont :: "u8 \<Rightarrow> bool" where
  "cont b \<longleftrightarrow> b AND 0xC0 = 0x80"

definition low6 :: "u8 \<Rightarrow> u32" where
  "low6 b = ucast (b AND 0x3F)"

fun from_utf8 :: "u8 list \<Rightarrow> u32 list option" where
  "from_utf8 [] = Some []"
| "from_utf8 (a # s) =
     (if a < 0x80 then map_option ((#) (ucast a)) (from_utf8 s)
      else case s of
        [] \<Rightarrow> None
      | b # s2 \<Rightarrow>
          if 0xC2 \<le> a \<and> a \<le> 0xDF
          then (if cont b
                then map_option ((#) (push_bit 6 (ucast (a AND 0x1F)) OR low6 b)) (from_utf8 s2)
                else None)
          else case s2 of
            [] \<Rightarrow> None
          | c # s3 \<Rightarrow>
              if 0xE0 \<le> a \<and> a \<le> 0xEF
              then (if cont b \<and> cont c \<and> (a = 0xE0 \<longrightarrow> 0xA0 \<le> b) \<and> (a = 0xED \<longrightarrow> b \<le> 0x9F)
                    then map_option ((#) (push_bit 12 (ucast (a AND 0x0F)) OR push_bit 6 (low6 b) OR low6 c))
                           (from_utf8 s3)
                    else None)
              else case s3 of
                [] \<Rightarrow> None
              | d # s4 \<Rightarrow>
                  if 0xF0 \<le> a \<and> a \<le> 0xF4 \<and> cont b \<and> cont c \<and> cont d \<and>
                     (a = 0xF0 \<longrightarrow> 0x90 \<le> b) \<and> (a = 0xF4 \<longrightarrow> b \<le> 0x8F)
                  then map_option ((#) (push_bit 18 (ucast (a AND 0x07)) OR push_bit 12 (low6 b) OR
                                        push_bit 6 (low6 c) OR low6 d)) (from_utf8 s4)
                  else None)"

text \<open>
  \<open>write_syscall\<close>: the logger is locked while the text is drawn, one character after the other,
  and an interrupt may come when the lock has been taken (point 0) and after each character; it
  finds the lock held. The lock is released at the end.
\<close>

fun draw_irq ::
  "('m, 'b, 'q, 'u) sys_ops \<Rightarrow> ('m, 'b, 'q, 'u) irqs \<Rightarrow> nat \<Rightarrow> u32 list \<Rightarrow> ('m, 'b, 'q, 'u) sysk \<Rightarrow>
   ('m, 'b, 'q, 'u) sysk run" where
  "draw_irq S J i [] k = Some (Inr k)"
| "draw_irq S J i (c # s) k =
     runbind (lift_res (runwrap UnwrapFailed (sk_logger k))) (\<lambda>lg.
       case write_char (so_font S) (lg_writer lg) c of
         Inl (e, w) \<Rightarrow> Some (Inl e)
       | Inr w \<Rightarrow> runbind (J i (k\<lparr>sk_logger := Some (lg\<lparr>lg_writer := w\<rparr>)\<rparr>)) (draw_irq S J (Suc i) s))"

definition write_syscall_irq ::
  "('m, 'b, 'q, 'u) irqs \<Rightarrow> ('m, 'b, 'q, 'u) sys_ops \<Rightarrow> ('m, 'b, 'q, 'u) sysk \<Rightarrow> u64 \<Rightarrow> u64 \<Rightarrow> u64 \<Rightarrow>
   ('m, 'b, 'q, 'u) sysk run" where
  "write_syscall_irq J S k fd buf cnt =
     (if fd = 1
      then runbind (lift_res (runwrap UnwrapFailed (sk_logger k))) (\<lambda>lg.
           runbind (acquire (so_spin S) (lg_locked lg)) (\<lambda>_.
           runbind (J 0 (k\<lparr>sk_logger := Some (lg\<lparr>lg_locked := True\<rparr>)\<rparr>)) (\<lambda>k1.
           runbind (lift_res (um_load (so_mem S) (sk_mapper k1) (sk_mem k1) buf (unat cnt))) (\<lambda>bytes.
           runbind (case from_utf8 bytes of None \<Rightarrow> Some (Inr k1) | Some s \<Rightarrow> draw_irq S J 1 s k1) (\<lambda>k2.
             Some (Inr (k2\<lparr>sk_logger := map_option (\<lambda>lg. lg\<lparr>lg_locked := False\<rparr>) (sk_logger k2)\<rparr>)))))))
      else Some (Inr k))"

definition write_syscall ::
  "('m, 'b, 'q, 'u) sys_ops \<Rightarrow> ('m, 'b, 'q, 'u) sysk \<Rightarrow> u64 \<Rightarrow> u64 \<Rightarrow> u64 \<Rightarrow> ('m, 'b, 'q, 'u) sysk run" where
  "write_syscall = write_syscall_irq no_irq"

text \<open>
  \<open>syscall_handler\<close>. An unknown number is logged: the pieces of the message, the number being
  formatted by \<open>core::fmt\<close> in hexadecimal. (No interrupt is modelled while that line is logged.)
\<close>

fun hex_digit :: "nat \<Rightarrow> u32" where
  "hex_digit d = of_nat (if d < 10 then 48 + d else 87 + d)"

fun hex :: "nat \<Rightarrow> u32 list" where
  "hex n = (if n < 16 then [hex_digit n] else hex (n div 16) @ [hex_digit (n mod 16)])"

definition unknown_syscall_text :: "u32 list" where
  "unknown_syscall_text = map (\<lambda>c. of_nat (of_char c)) ''unknown syscall ''"

definition info_level :: "u32 list" where
  "info_level = map (\<lambda>c. of_nat (of_char c)) ''INFO''"

definition syscall_handler_irq ::
  "('m, 'b, 'q, 'u) irqs \<Rightarrow> ('m, 'b, 'q, 'u) sys_ops \<Rightarrow> ('m, 'b, 'q, 'u) sysk \<Rightarrow> u64 \<Rightarrow> u64 \<Rightarrow> u64 \<Rightarrow> u64 \<Rightarrow>
   u64 \<Rightarrow> u64 \<Rightarrow> u64 \<Rightarrow> ('m, 'b, 'q, 'u) sysk run" where
  "syscall_handler_irq J S k index arg0 arg1 arg2 arg3 arg4 arg5 =
     (if index = 0 then read_syscall_irq J S k arg0 arg1 arg2
      else if index = 1 then write_syscall_irq J S k arg0 arg1 arg2
      else if index = 2 then anon_allocate_syscall S k arg0 arg1
      else
        (case sk_logger k of
           None \<Rightarrow> Some (Inr k)
         | Some lg \<Rightarrow>
             (case log (so_spin S) (so_font S) lg info_level
                     [unknown_syscall_text, hex (unat index)] of
                None \<Rightarrow> None
              | Some (Inl (e, lg')) \<Rightarrow> Some (Inl e)
              | Some (Inr lg') \<Rightarrow> Some (Inr (k\<lparr>sk_logger := Some lg'\<rparr>)))))"

definition syscall_handler ::
  "('m, 'b, 'q, 'u) sys_ops \<Rightarrow> ('m, 'b, 'q, 'u) sysk \<Rightarrow> u64 \<Rightarrow> u64 \<Rightarrow> u64 \<Rightarrow> u64 \<Rightarrow>
   u64 \<Rightarrow> u64 \<Rightarrow> u64 \<Rightarrow> ('m, 'b, 'q, 'u) sysk run" where
  "syscall_handler = syscall_handler_irq no_irq"

section \<open>Lemmas\<close>

lemma acquire_free [simp]: "spin_ok L \<Longrightarrow> acquire L False = Some (Inr ())"
  by (simp add: acquire_def spin_ok_def)

lemma acquire_held [simp]: "spin_ok L \<Longrightarrow> acquire L True = None"
  by (simp add: acquire_def spin_ok_def)

text \<open>The calls without interrupts: the text is drawn as by \<open>write_str\<close>.\<close>

lemma draw_no_irq:
  "sk_logger k = Some lg \<Longrightarrow> draw_irq S no_irq i s k =
    (case write_str (so_font S) (lg_writer lg) s of
       Inl (e, w) \<Rightarrow> Some (Inl e)
     | Inr w \<Rightarrow> Some (Inr (k\<lparr>sk_logger := Some (lg\<lparr>lg_writer := w\<rparr>)\<rparr>)))"
proof (induction s arbitrary: i k lg)
  case Nil
  then show ?case by (cases k) simp
next
  case (Cons c s)
  then show ?case
    by (cases "write_char (so_font S) (lg_writer lg) c")
      (auto simp: lift_res_def no_irq_def split: sum.splits)
qed

lemma write_syscall_unfold:
  "write_syscall S k fd buf cnt =
     (if fd = 1
      then runbind (lift_res (runwrap UnwrapFailed (sk_logger k))) (\<lambda>lg.
           runbind (acquire (so_spin S) (lg_locked lg)) (\<lambda>_.
           runbind (lift_res (um_load (so_mem S) (sk_mapper k) (sk_mem k) buf (unat cnt))) (\<lambda>bytes.
             case from_utf8 bytes of
               None \<Rightarrow> Some (Inr (k\<lparr>sk_logger := Some (lg\<lparr>lg_locked := False\<rparr>)\<rparr>))
             | Some s \<Rightarrow>
                 (case write_str (so_font S) (lg_writer lg) s of
                    Inl (e, w) \<Rightarrow> Some (Inl e)
                  | Inr w \<Rightarrow>
                      Some (Inr (k\<lparr>sk_logger := Some (lg\<lparr>lg_writer := w, lg_locked := False\<rparr>)\<rparr>))))))
      else Some (Inr k))"
proof (cases "fd = 1 \<and> sk_logger k \<noteq> None")
  case True
  then obtain lg where lg: "fd = 1" "sk_logger k = Some lg" by blast
  let ?k = "k\<lparr>sk_logger := Some (lg\<lparr>lg_locked := True\<rparr>)\<rparr>"
  have d: "draw_irq S no_irq i s ?k = (case write_str (so_font S) (lg_writer lg) s of
       Inl (e, w) \<Rightarrow> Some (Inl e)
     | Inr w \<Rightarrow> Some (Inr (k\<lparr>sk_logger := Some (lg\<lparr>lg_writer := w, lg_locked := True\<rparr>)\<rparr>)))" for i s
    using draw_no_irq [of ?k "lg\<lparr>lg_locked := True\<rparr>"] by (cases lg) (simp split: sum.split)
  have e: "lg\<lparr>lg_writer := w, lg_locked := b\<rparr> = lg\<lparr>lg_locked := b, lg_writer := w\<rparr>" for w b
    by (cases lg) simp
  show ?thesis
    using lg
    by (cases "um_load (so_mem S) (sk_mapper k) (sk_mem k) buf (unat cnt)")
      (auto simp: write_syscall_def write_syscall_irq_def no_irq_def [of 0] lift_res_def d e
        acquire_def split: option.split sum.split)
next
  case False
  then show ?thesis by (auto simp: write_syscall_def write_syscall_irq_def lift_res_def)
qed

lemma syscall_handler_read [simp]: "syscall_handler S k 0 a0 a1 a2 a3 a4 a5 = read_syscall S k a0 a1 a2"
  by (simp add: syscall_handler_def syscall_handler_irq_def read_syscall_def)

lemma syscall_handler_write [simp]: "syscall_handler S k 1 a0 a1 a2 a3 a4 a5 = write_syscall S k a0 a1 a2"
  by (simp add: syscall_handler_def syscall_handler_irq_def write_syscall_def)

text \<open>The pages of the range that starts at a page boundary.\<close>

definition page_count :: "u64 \<Rightarrow> nat" where
  "page_count sz = (unat sz + 4095) div 4096"

lemma anon_range:
  assumes X: "x86_addr_ok X" and a: "4096 dvd unat a" "0 < unat a" and lim: "unat a + unat sz < 2 ^ 47"
  shows "virt_addr_new X a = Inr a" "virt_addr_add X a sz = Inr (a + sz)"
    "virt_addr_sub X (a + sz) 1 = Inr (a + sz - 1)" "page_containing X a = a"
    "page_range_inclusive X a (page_containing X (a + sz - 1)) = page_list a (page_count sz)"
    "page_range_size X a (page_containing X (a + sz - 1)) = 4096 * of_nat (page_count sz)"
proof -
  have s: "unat (a + sz) = unat a + unat sz" using lim by (simp add: unat_add_noovf)
  have one: "1 \<le> a + sz" using s a(2) by (simp add: word_le_nat_alt)
  have e: "unat (a + sz - 1) = unat a + unat sz - 1" using one s by (simp add: unat_sub_le)
  have c: "canonical a" "canonical (a + sz)" "canonical (a + sz - 1)"
    using lim s by (simp_all add: canonical_def e) linarith
  show "virt_addr_new X a = Inr a" by (rule virt_addr_new_ok [OF X c(1)])
  show "virt_addr_add X a sz = Inr (a + sz)"
    using lim by (intro virt_addr_add_ok [OF X _ c(2)]) simp
  show "virt_addr_sub X (a + sz) 1 = Inr (a + sz - 1)" by (rule virt_addr_sub_ok [OF X one c(3)])
  show pa: "page_containing X a = a"
    using page_containing_unat [OF X, of a] a(1) by (simp add: word_unat_eq_iff)
  let ?e = "page_containing X (a + sz - 1)"
  have pe: "unat ?e = (unat a + unat sz - 1) div 4096 * 4096"
    using page_containing_unat [OF X, of "a + sz - 1"] e by simp
  obtain q where q: "unat a = 4096 * q" using a(1) by blast
  have "pages_between a ?e = page_count sz"
  proof (cases "unat sz = 0")
    case True
    have "(4096 * q - 1) div 4096 < q" using a(2) q by (intro less_mult_imp_div_less) simp
    then have "?e < a" using pe q True by (simp add: word_less_nat_alt)
    then show ?thesis using True by (simp add: pages_between_def page_count_def)
  next
    case False
    then have d: "(unat a + unat sz - 1) div 4096 = q + (unat sz - 1) div 4096" using q by simp
    then have "\<not> ?e < a" using pe q by (simp add: word_less_nat_alt)
    moreover have "(unat sz - 1) div 4096 + 1 = page_count sz"
      using False by (simp add: page_count_def)
    ultimately show ?thesis using pe d q by (simp add: pages_between_def)
  qed
  moreover have "unat ?e \<le> unat a + unat sz" using pe by (simp add: minus_mod_eq_div_mult [symmetric])
  then have "same_half a ?e" using lim by (simp add: same_half_def)
  moreover have "4096 dvd unat ?e" using pe by simp
  ultimately show "page_range_inclusive X a ?e = page_list a (page_count sz)"
    "page_range_size X a ?e = 4096 * of_nat (page_count sz)"
    using page_range_ok [OF X a(1)] by simp_all
qed

text \<open>The current process may allocate: a user process with a page-aligned cursor.\<close>

definition anon_ready :: "('m, 'b, 'q, 'u) sys_ops \<Rightarrow> ('m, 'b, 'q, 'u) sysk \<Rightarrow> process list \<Rightarrow> nat \<Rightarrow>
    'b bitmap_allocator \<Rightarrow> u64 \<Rightarrow> bool" where
  "anon_ready S k ps cur frames start \<longleftrightarrow>
     spin_ok (so_spin S) \<and> x86_addr_ok (so_x86 S) \<and>
     sched_state (sk_sched k) ps cur \<and> \<not> sk_mapper_locked k \<and>
     sk_frames k = Some frames \<and> \<not> sk_frames_locked k \<and>
     p_pages (ps ! cur) = Some start \<and> p_mapper (ps ! cur) \<noteq> None \<and>
     4096 dvd unat start \<and> 0 < unat start"

lemma anon_allocate_unfold:
  assumes r: "anon_ready S k ps cur frames start" and lim: "unat start + unat sz < 2 ^ 47"
  shows "anon_allocate_syscall S k sz ptr =
    runbind (Some (map_range (so_mapper S) (bitmap_allocate_frame (so_x86 S) (so_bitvec S))
        {PRESENT, WRITABLE, USER_ACCESSIBLE} (sk_mapper k) frames (page_list start (page_count sz))))
      (\<lambda>(r, m', frames'). case r of
         Inl _ \<Rightarrow> Some (Inl UnwrapFailed)
       | Inr _ \<Rightarrow>
          runbind (Some (um_store (so_mem S) m' (sk_mem k) ptr (bytes_of start))) (\<lambda>u'.
          runbind (Some (add_chk start (4096 * of_nat (page_count sz)))) (\<lambda>next.
            Some (Inr (k\<lparr>sk_sched := (sk_sched k)\<lparr>proc_list :=
                           Some (ps[cur := (ps ! cur)\<lparr>p_pages := Some next\<rparr>])\<rparr>,
                         sk_mapper := m', sk_frames := Some frames', sk_mem := u'\<rparr>)))))"
proof -
  note r' = r [unfolded anon_ready_def sched_state_def]
  have c: "cur < length ps" using r' by simp
  have unlock: "(sk_sched k)\<lparr>proc_list := x, list_locked := False, current_locked := False\<rparr> =
      (sk_sched k)\<lparr>proc_list := x\<rparr>" for x
    using r' by (cases "sk_sched k") simp
  have upd: "k\<lparr>sk_sched := s, sk_mapper := m, sk_mapper_locked := False, sk_frames := f,
      sk_frames_locked := False, sk_mem := u\<rparr> =
      k\<lparr>sk_sched := s, sk_mapper := m, sk_frames := f, sk_mem := u\<rparr>" for s m f u
    using r' by (cases k) simp
  obtain t where t: "p_mapper (ps ! cur) = Some t" using r' by auto
  note rng = anon_range [OF _ _ _ lim, of "so_x86 S"]
  show ?thesis
    unfolding anon_allocate_syscall_def Let_def
    using r' c rng t
    by (simp add: acquire_simps lift_res_def upd unlock cong: sum.case_cong)
qed

text \<open>What a successful call leaves behind: the process can allocate again, further up.\<close>

lemma anon_next_ready:
  assumes r: "anon_ready S k ps cur frames start"
    and lim: "unat start + 4096 * page_count sz < 2 ^ 47"
  defines "next \<equiv> start + 4096 * of_nat (page_count sz)"
  shows "add_chk start (4096 * of_nat (page_count sz)) = Inr next"
    "unat next = unat start + 4096 * page_count sz"
    "anon_ready S (k\<lparr>sk_sched := (sk_sched k)\<lparr>proc_list :=
         Some (ps[cur := (ps ! cur)\<lparr>p_pages := Some next\<rparr>])\<rparr>,
       sk_mapper := m', sk_frames := Some frames', sk_mem := u'\<rparr>)
       (ps[cur := (ps ! cur)\<lparr>p_pages := Some next\<rparr>]) cur frames' next"
proof -
  have n: "unat (4096 * of_nat (page_count sz) :: u64) = 4096 * page_count sz"
    using lim by (simp add: unat_mul_noovf unsigned_of_nat take_bit_nat_eq_self)
  then show "add_chk start (4096 * of_nat (page_count sz)) = Inr next"
    and u: "unat next = unat start + 4096 * page_count sz"
    using lim by (simp_all add: add_chk_ok unat_add_noovf next_def)
  show "anon_ready S (k\<lparr>sk_sched := (sk_sched k)\<lparr>proc_list :=
         Some (ps[cur := (ps ! cur)\<lparr>p_pages := Some next\<rparr>])\<rparr>,
       sk_mapper := m', sk_frames := Some frames', sk_mem := u'\<rparr>)
       (ps[cur := (ps ! cur)\<lparr>p_pages := Some next\<rparr>]) cur frames' next"
    using r u by (auto simp: anon_ready_def sched_state_def nth_list_update)
qed

lemma page_count_covers: "unat sz \<le> 4096 * page_count sz" "4096 * page_count sz < unat sz + 4096"
proof -
  have "4096 * ((unat sz + 4095) div 4096) + (unat sz + 4095) mod 4096 = unat sz + 4095" by simp
  moreover have "(unat sz + 4095) mod 4096 \<le> 4095" by (simp add: less_Suc_eq_le [symmetric])
  ultimately show "unat sz \<le> 4096 * page_count sz" "4096 * page_count sz < unat sz + 4096"
    unfolding page_count_def by linarith+
qed

lemma anon_allocate_success:
  assumes r: "anon_ready S k ps cur frames start"
    and lim: "unat start + 4096 * page_count sz < 2 ^ 47"
    and k': "anon_allocate_syscall S k sz ptr = Some (Inr k')"
  shows "\<exists>ps' frames'. anon_ready S k' ps' cur frames' (start + 4096 * of_nat (page_count sz))"
proof -
  have "unat start + unat sz < 2 ^ 47" using lim page_count_covers(1) [of sz] by linarith
  then show ?thesis
    using k' anon_next_ready(1,3) [OF r lim]
    by (auto simp: anon_allocate_unfold [OF r] panic_simps split: sum.splits) blast+
qed

section \<open>Sequences of allocations\<close>

text \<open>
  The calls of one process, with the ranges it gets: each starts at the address that the process
  finds at the pointer it passed to the call, when the call has returned.
\<close>

fun anon_calls :: "('m, 'b, 'q, 'u) sys_ops \<Rightarrow> ('m, 'b, 'q, 'u) sysk \<Rightarrow> (u64 \<times> u64) list \<Rightarrow>
    (('m, 'b, 'q, 'u) sysk \<times> block list) run" where
  "anon_calls S k [] = Some (Inr (k, []))"
| "anon_calls S k ((sz, ptr) # cs) =
     runbind (anon_allocate_syscall S k sz ptr) (\<lambda>k'.
     runbind (lift_res (um_load (so_mem S) (sk_mapper k') (sk_mem k') ptr 8)) (\<lambda>bytes.
     runbind (anon_calls S k' cs) (\<lambda>(k'', bs).
       Some (Inr (k'', (unat (le_word bytes :: u64), 4096 * page_count sz) # bs)))))"

text \<open>Pointers to words that the process can write and read back.\<close>

definition user_cells :: "('m, 'u) user_mem \<Rightarrow> u64 set \<Rightarrow> bool" where
  "user_cells U ptrs \<longleftrightarrow>
     (\<forall>ptr\<in>ptrs. \<forall>m u a. \<exists>u'. um_store U m u ptr (bytes_of a) = Inr u' \<and>
        um_load U m u' ptr 8 = Inr (bytes_of a))"

lemma bytes_of_le: "bytes_of v = le_bytes 8 v"
  by (simp add: bytes_of_def le_bytes_def)

definition user_mapped :: "('m \<Rightarrow> translation) \<Rightarrow> 'm \<Rightarrow> block \<Rightarrow> bool" where
  "user_mapped tr m b \<longleftrightarrow> (\<forall>p\<in>set (page_list (of_nat (fst b)) (snd b div 4096)).
     \<exists>f. tr m p = Some (f, {PRESENT, WRITABLE, USER_ACCESSIBLE}))"

lemma anon_allocate_mapped:
  assumes ready: "anon_ready S k ps cur frames start"
    and inv: "bitmap_inv (so_x86 S) (so_bitvec S) bits frames"
    and M: "mapper_ok (so_mapper S) tr hp (bitmap_allocate_frame (so_x86 S) (so_bitvec S))"
    and lim: "unat start + 4096 * page_count sz < 2 ^ 47"
    and room: "4 * page_count sz \<le> length (bitmap_free bits frames)"
    and un: "\<forall>p\<in>set (page_list start (page_count sz)). tr (sk_mapper k) p = None \<and> \<not> hp (sk_mapper k) p"
    and store: "\<And>m'. \<exists>u'. um_store (so_mem S) m' (sk_mem k) ptr (bytes_of start) = Inr u'"
  shows "\<exists>k' frames' fs. anon_allocate_syscall S k sz ptr = Some (Inr k') \<and>
    length fs = page_count sz \<and> distinct fs \<and> set fs \<subseteq> set (bitmap_free bits frames) \<and>
    set fs \<inter> set (bitmap_free bits frames') = {} \<and>
    bitmap_inv (so_x86 S) (so_bitvec S) bits frames' \<and> hp (sk_mapper k') = hp (sk_mapper k) \<and>
    length (bitmap_free bits frames) \<le> length (bitmap_free bits frames') + 4 * page_count sz \<and>
    (\<forall>i<page_count sz. tr (sk_mapper k') (start + 4096 * of_nat i) =
       Some (fs ! i, {PRESENT, WRITABLE, USER_ACCESSIBLE})) \<and>
    (\<forall>p. p \<notin> set (page_list start (page_count sz)) \<longrightarrow> tr (sk_mapper k') p = tr (sk_mapper k) p) \<and>
    um_store (so_mem S) (sk_mapper k') (sk_mem k) ptr (bytes_of start) = Inr (sk_mem k') \<and>
    anon_ready S k'
      (ps[cur := (ps ! cur)\<lparr>p_pages := Some (start + 4096 * of_nat (page_count sz))\<rparr>]) cur
      frames' (start + 4096 * of_nat (page_count sz))"
proof -
  have l1: "unat start + unat sz < 2 ^ 47" using lim page_count_covers(1) [of sz] by linarith
  have l2: "unat start + 4096 * page_count sz \<le> 2 ^ 64" using lim by simp
  obtain m' frames' fs where r: "map_range (so_mapper S)
      (bitmap_allocate_frame (so_x86 S) (so_bitvec S)) {PRESENT, WRITABLE, USER_ACCESSIBLE}
      (sk_mapper k) frames (page_list start (page_count sz)) = Inr (Inr (), m', frames')"
    "bitmap_inv (so_x86 S) (so_bitvec S) bits frames'"
    "length fs = page_count sz" "distinct fs" "set fs \<subseteq> set (bitmap_free bits frames)"
    "set fs \<inter> set (bitmap_free bits frames') = {}"
    "\<forall>i<page_count sz. tr m' (start + 4096 * of_nat i) =
       Some (fs ! i, {PRESENT, WRITABLE, USER_ACCESSIBLE})"
    "\<forall>p. p \<notin> set (page_list start (page_count sz)) \<longrightarrow> tr m' p = tr (sk_mapper k) p"
    "hp m' = hp (sk_mapper k)"
    "length (bitmap_free bits frames) \<le> length (bitmap_free bits frames') + 4 * page_count sz"
    using bitmap.map_pages_ok [OF M inv room l2 un, of "{PRESENT, WRITABLE, USER_ACCESSIBLE}"] by blast
  obtain u' where u: "um_store (so_mem S) m' (sk_mem k) ptr (bytes_of start) = Inr u'"
    using store by blast
  let ?next = "start + 4096 * of_nat (page_count sz)"
  define k' where "k' = k\<lparr>sk_sched := (sk_sched k)\<lparr>proc_list :=
      Some (ps[cur := (ps ! cur)\<lparr>p_pages := Some ?next\<rparr>])\<rparr>,
    sk_mapper := m', sk_frames := Some frames', sk_mem := u'\<rparr>"
  have call: "anon_allocate_syscall S k sz ptr = Some (Inr k')"
    using r(1) u anon_next_ready(1) [OF ready lim]
    by (simp add: anon_allocate_unfold [OF ready l1] k'_def)
  have rdy: "anon_ready S k' (ps[cur := (ps ! cur)\<lparr>p_pages := Some ?next\<rparr>]) cur frames' ?next"
    unfolding k'_def by (rule anon_next_ready(3) [OF ready lim])
  have m': "m' = sk_mapper k'" and u': "u' = sk_mem k'" by (simp_all add: k'_def)
  show ?thesis
  proof (intro exI conjI)
    show "anon_allocate_syscall S k sz ptr = Some (Inr k')" by (rule call)
  qed (rule r(2-10) [unfolded m'] u [unfolded m' u'] rdy)+
qed

lemma page_list_split:
  "page_list a (m + n) = page_list a m @ page_list (a + 4096 * of_nat m) n"
  by (induction n) (simp_all add: page_list_def algebra_simps)

text \<open>
  A sequence of calls succeeds if frames and pages for all of them are there, and the ranges it
  yields lie one behind the other from the cursor on.
\<close>

lemma anon_calls_ok:
  assumes M: "mapper_ok (so_mapper S) tr hp (bitmap_allocate_frame (so_x86 S) (so_bitvec S))"
  shows "user_cells (so_mem S) (snd ` set cs) \<Longrightarrow> anon_ready S k ps cur frames start \<Longrightarrow>
    bitmap_inv (so_x86 S) (so_bitvec S) bits frames \<Longrightarrow>
    unat start + 4096 * (\<Sum>(sz, ptr)\<leftarrow>cs. page_count sz) < 2 ^ 47 \<Longrightarrow>
    4 * (\<Sum>(sz, ptr)\<leftarrow>cs. page_count sz) \<le> length (bitmap_free bits frames) \<Longrightarrow>
    (\<forall>p\<in>set (page_list start (\<Sum>(sz, ptr)\<leftarrow>cs. page_count sz)).
       tr (sk_mapper k) p = None \<and> \<not> hp (sk_mapper k) p) \<Longrightarrow>
    \<exists>k' bs. anon_calls S k cs = Some (Inr (k', bs)) \<and> apart bs \<and>
      (\<forall>b\<in>set bs. unat start \<le> fst b \<and> user_mapped tr (sk_mapper k') b) \<and> length bs = length cs \<and>
      (\<forall>i<length cs. unat (fst (cs ! i)) \<le> snd (bs ! i)) \<and>
      (\<forall>p. p \<notin> set (page_list start (\<Sum>(sz, ptr)\<leftarrow>cs. page_count sz)) \<longrightarrow>
         tr (sk_mapper k') p = tr (sk_mapper k) p)"
proof (induction cs arbitrary: k ps frames start)
  case Nil
  then show ?case by simp
next
  case (Cons c cs)
  obtain sz ptr where c: "c = (sz, ptr)" by (cases c)
  let ?rest = "\<Sum>(sz, ptr)\<leftarrow>cs. page_count sz" and ?n = "page_count sz"
  let ?next = "start + 4096 * of_nat ?n"
  have lim: "unat start + 4096 * ?n < 2 ^ 47" using Cons.prems(4) c by simp
  have un: "\<forall>p\<in>set (page_list start ?n) \<union> set (page_list ?next ?rest).
      tr (sk_mapper k) p = None \<and> \<not> hp (sk_mapper k) p"
    using Cons.prems(6) by (simp add: c page_list_split)
  have d: "set (page_list start ?n) \<inter> set (page_list ?next ?rest) = {}"
    using page_list_distinct [of start "?n + ?rest"] Cons.prems(4) by (simp add: c page_list_split)
  have p1: "4 * ?n \<le> length (bitmap_free bits frames)" using Cons.prems(5) c by simp
  have p2: "\<forall>p\<in>set (page_list start ?n). tr (sk_mapper k) p = None \<and> \<not> hp (sk_mapper k) p"
    using un by simp
  have cell: "\<exists>u'. um_store (so_mem S) m u ptr (bytes_of a) = Inr u' \<and>
      um_load (so_mem S) m u' ptr 8 = Inr (bytes_of a)" for m u a
    using Cons.prems(1) c by (simp add: user_cells_def)
  then have st: "\<exists>u'. um_store (so_mem S) m (sk_mem k) ptr (bytes_of start) = Inr u'" for m by blast
  obtain k1 frames1 fs where k1: "anon_allocate_syscall S k sz ptr = Some (Inr k1)"
    "bitmap_inv (so_x86 S) (so_bitvec S) bits frames1" "hp (sk_mapper k1) = hp (sk_mapper k)"
    "length (bitmap_free bits frames) \<le> length (bitmap_free bits frames1) + 4 * ?n"
    "\<forall>p. p \<notin> set (page_list start ?n) \<longrightarrow> tr (sk_mapper k1) p = tr (sk_mapper k) p"
    "anon_ready S k1 (ps[cur := (ps ! cur)\<lparr>p_pages := Some ?next\<rparr>]) cur frames1 ?next"
    "um_store (so_mem S) (sk_mapper k1) (sk_mem k) ptr (bytes_of start) = Inr (sk_mem k1)"
    "\<forall>i<?n. tr (sk_mapper k1) (start + 4096 * of_nat i) =
       Some (fs ! i, {PRESENT, WRITABLE, USER_ACCESSIBLE})"
    using anon_allocate_mapped [OF Cons.prems(2,3) M lim p1 p2 st] by blast
  have load: "um_load (so_mem S) (sk_mapper k1) (sk_mem k1) ptr 8 = Inr (bytes_of start)"
    using cell [of "sk_mapper k1" "sk_mem k" start] k1(7) by auto
  have u: "unat ?next = unat start + 4096 * ?n" by (rule anon_next_ready(2) [OF Cons.prems(2) lim])
  have cells: "user_cells (so_mem S) (snd ` set cs)" using Cons.prems(1) by (simp add: user_cells_def)
  have un1: "\<forall>p\<in>set (page_list ?next ?rest). tr (sk_mapper k1) p = None \<and> \<not> hp (sk_mapper k1) p"
    using un d k1(3,5) by fastforce
  have lim1: "unat ?next + 4096 * ?rest < 2 ^ 47" using u Cons.prems(4) c by simp
  have p3: "4 * ?rest \<le> length (bitmap_free bits frames1)" using Cons.prems(5) k1(4) c by simp
  obtain k' bs where IH: "anon_calls S k1 cs = Some (Inr (k', bs))" "apart bs"
    "\<forall>b\<in>set bs. unat ?next \<le> fst b \<and> user_mapped tr (sk_mapper k') b" "length bs = length cs"
    "\<forall>i<length cs. unat (fst (cs ! i)) \<le> snd (bs ! i)"
    "\<forall>p. p \<notin> set (page_list ?next ?rest) \<longrightarrow> tr (sk_mapper k') p = tr (sk_mapper k1) p"
    using Cons.IH [OF cells k1(6,2) lim1 p3 un1] by blast
  let ?b = "(unat start, 4096 * ?n)"
  have run: "anon_calls S k (c # cs) = Some (Inr (k', ?b # bs))"
    using k1(1) load IH(1) by (simp add: c lift_res_def bytes_of_le le_word_le_bytes)
  have "user_mapped tr (sk_mapper k') ?b"
    unfolding user_mapped_def
  proof
    fix p assume "p \<in> set (page_list (of_nat (fst ?b)) (snd ?b div 4096))"
    then have p: "p \<in> set (page_list start ?n)" by simp
    then have "tr (sk_mapper k') p = tr (sk_mapper k1) p" using IH(6) d by blast
    then show "\<exists>f. tr (sk_mapper k') p = Some (f, {PRESENT, WRITABLE, USER_ACCESSIBLE})"
      using p k1(8) by (auto simp: page_list_def)
  qed
  then have bs: "\<forall>b\<in>set (?b # bs). unat start \<le> fst b \<and> user_mapped tr (sk_mapper k') b"
    using IH(3) u by auto
  have sz: "unat (fst ((c # cs) ! i)) \<le> snd ((?b # bs) ! i)" if "i < length (c # cs)" for i
    using IH(5) that page_count_covers(1) [of sz] by (cases i) (auto simp: c)
  have ap: "apart (?b # bs)"
    using IH(2,3) u by (auto simp: list_all_iff disjoint_blocks_def)
  have fr: "\<forall>p. p \<notin> set (page_list start (\<Sum>(sz, ptr)\<leftarrow>c # cs. page_count sz)) \<longrightarrow>
      tr (sk_mapper k') p = tr (sk_mapper k) p"
    using IH(6) k1(5) by (simp add: c page_list_split)
  show ?case using run ap bs sz fr IH(4) by (intro exI [of _ k'] exI [of _ "?b # bs"]) simp
qed

section \<open>Reading and writing\<close>

text \<open>A buffer of the user that can be written, and the memory seen through \<open>peek\<close>.\<close>

definition user_buffer :: "('m, 'u) user_mem \<Rightarrow> ('u \<Rightarrow> u64 \<Rightarrow> u8) \<Rightarrow> 'm \<Rightarrow> u64 \<Rightarrow> nat \<Rightarrow> bool" where
  "user_buffer U peek m a n \<longleftrightarrow>
     (\<forall>u c. \<forall>i<n. \<exists>u'. um_store U m u (a + of_nat i) [c] = Inr u' \<and>
        peek u' = (peek u)(a + of_nat i := c))"

lemma user_buffer_Suc:
  assumes "user_buffer U peek m a (Suc n)"
  shows "\<exists>u'. um_store U m u a [c] = Inr u' \<and> peek u' = (peek u)(a := c)"
    "user_buffer U peek m (a + 1) n"
proof -
  show "\<exists>u'. um_store U m u a [c] = Inr u' \<and> peek u' = (peek u)(a := c)"
    using assms [unfolded user_buffer_def, rule_format, of 0 u c] by simp
  show "user_buffer U peek m (a + 1) n"
    unfolding user_buffer_def
  proof (intro allI impI)
    fix u c i assume "i < n"
    then show "\<exists>u'. um_store U m u (a + 1 + of_nat i) [c] = Inr u' \<and>
        peek u' = (peek u)(a + 1 + of_nat i := c)"
      using assms [unfolded user_buffer_def, rule_format, of "Suc i" u c] by (simp add: add.assoc)
  qed
qed

text \<open>
  What the keyboard handler does to a reader that waits: the bytes \<open>bs t\<close> are written to the pipe
  at point \<open>t\<close>.
\<close>

definition keys_typed :: "('m, 'b, 'q, 'u) sys_ops \<Rightarrow> (nat \<Rightarrow> u8 list) \<Rightarrow> ('m, 'b, 'q, 'u) irqs" where
  "keys_typed S bs t k =
     (if bs t = [] then Some (Inr k)
      else runbind (lift_res (runwrap UnwrapFailed (sk_pipe k))) (\<lambda>q.
           runbind (lift_res (pipe_write (so_queue S) q (bs t))) (\<lambda>q'.
             Some (Inr (k\<lparr>sk_pipe := Some q'\<rparr>)))))"

definition typed_from :: "(nat \<Rightarrow> u8 list) \<Rightarrow> nat \<Rightarrow> nat \<Rightarrow> u8 list" where
  "typed_from bs t T = concat (map bs [t..<T])"

lemma typed_from_simps:
  "t < T \<Longrightarrow> typed_from bs t T = bs t @ typed_from bs (Suc t) T"
  "T \<le> t \<Longrightarrow> typed_from bs t T = []"
  by (simp_all add: typed_from_def upt_conv_Cons)

lemma no_keys: "keys_typed S (\<lambda>_. []) = no_irq" "typed_from (\<lambda>_. []) t T = []"
  by (auto simp: keys_typed_def no_irq_def typed_from_def intro!: ext)

lemma of_nat_Suc_neq_0: "n < 2 ^ 64 \<Longrightarrow> i < n \<Longrightarrow> i + 1 < 2 ^ 64 \<Longrightarrow> (of_nat (Suc i) :: u64) \<noteq> 0"
proof
  assume l: "i + 1 < 2 ^ 64" and z: "(of_nat (Suc i) :: u64) = 0"
  have "unat (of_nat (Suc i) :: u64) = Suc i"
    using l by (simp only: unsigned_of_nat of_nat_id) (simp add: take_bit_nat_eq_self)
  then show False using z by (simp only: unat_0)
qed

text \<open>One turn of the reader: the keys of this point, then one iteration of its loop.\<close>

lemma read_turn:
  assumes Q: "array_queue_ok (so_queue S) items cap" and k: "sk_pipe k = Some q"
    and fit: "length (items q @ bs t) \<le> cap q"
    and store: "\<And>c. \<exists>u'. um_store (so_mem S) (sk_mapper k) (sk_mem k) a [c] = Inr u' \<and>
      peek u' = (peek (sk_mem k))(a := c)"
  obtains (empty) k1 q1 where "items q @ bs t = []" "keys_typed S bs t k = Some (Inr k1)"
      "read_poll S k1 a = Inr (False, k\<lparr>sk_pipe := Some q1\<rparr>)" "items q1 = []" "cap q1 = cap q"
    | (byte) k1 q1 c cs u1 where "items q @ bs t = c # cs" "keys_typed S bs t k = Some (Inr k1)"
      "read_poll S k1 a = Inr (True, k\<lparr>sk_pipe := Some q1, sk_mem := u1\<rparr>)" "items q1 = cs"
      "cap q1 = cap q" "peek u1 = (peek (sk_mem k))(a := c)"
proof -
  obtain q1 where q1: "pipe_write (so_queue S) q (bs t) = Inr q1" "items q1 = items q @ bs t"
    "cap q1 = cap q"
    using pipe_write_ok [OF Q, of q "bs t"] fit by auto
  let ?k = "k\<lparr>sk_pipe := Some q1\<rparr>"
  have J: "keys_typed S bs t k = Some (Inr ?k)"
    using q1(1) k by (cases k) (auto simp: keys_typed_def lift_res_def)
  let ?r = "\<lparr>rd_arr = [0], rd_pos = 0\<rparr>"
  show ?thesis
  proof (cases "items q1")
    case Nil
    then have "read_poll S ?k a = Inr (False, k\<lparr>sk_pipe := Some q1\<rparr>)"
      using read_step_cases [OF Q, of q1 ?r] by (simp add: read_poll_def)
    then show ?thesis using empty J Nil q1(2,3) by metis
  next
    case (Cons c cs)
    then obtain q2 where q2: "pipe_read_step (so_queue S) q1 ?r = (q2, \<lparr>rd_arr = [c], rd_pos = 1\<rparr>)"
      "items q2 = cs" "cap q2 = cap q1"
      using read_step_cases [OF Q, of q1 ?r] by auto
    obtain u1 where u1: "um_store (so_mem S) (sk_mapper k) (sk_mem k) a [c] = Inr u1"
      "peek u1 = (peek (sk_mem k))(a := c)" using store by blast
    have "read_poll S ?k a = Inr (True, k\<lparr>sk_pipe := Some q2, sk_mem := u1\<rparr>)"
      using q2(1) u1(1) by (simp add: read_poll_def)
    then show ?thesis using byte J Cons q1(2,3) q2(2,3) u1(2) by metis
  qed
qed

lemma read_loop_Suc:
  "read_loop S J t k a (Suc n) =
     runbind (J t k) (\<lambda>k1. runbind (lift_res (read_poll S k1 a)) (\<lambda>(got, k2).
       if got then read_loop S J (Suc t) k2 (a + 1) n else read_loop S J (Suc t) k2 a (Suc n)))"
  by (subst read_loop.simps) (auto simp: runbind_def lift_res_def split: option.split sum.split)

lemma read_loop_0 [simp]: "read_loop S J t k a 0 = Some (Inr k)"
  by (simp add: read_loop.simps)

definition keys_fit :: "('q \<Rightarrow> u8 list) \<Rightarrow> ('q \<Rightarrow> nat) \<Rightarrow> (nat \<Rightarrow> u8 list) \<Rightarrow> nat \<Rightarrow> 'q \<Rightarrow> bool" where
  "keys_fit items cap bs t q \<longleftrightarrow> (\<forall>T. length (items q @ typed_from bs t T) \<le> cap q)"

lemma keys_fit_turn:
  assumes "keys_fit items cap bs t q"
  shows "length (items q @ bs t) \<le> cap q"
    "length (items q1) \<le> length (items q @ bs t) \<Longrightarrow> cap q1 = cap q \<Longrightarrow> keys_fit items cap bs (Suc t) q1"
proof -
  have f: "length (items q @ typed_from bs t T) \<le> cap q" for T using assms by (simp add: keys_fit_def)
  show "length (items q @ bs t) \<le> cap q"
    using f [of "Suc t"] by (simp add: typed_from_simps)
  show "keys_fit items cap bs (Suc t) q1"
    if "length (items q1) \<le> length (items q @ bs t)" "cap q1 = cap q"
    unfolding keys_fit_def
  proof
    fix T
    show "length (items q1 @ typed_from bs (Suc t) T) \<le> cap q1"
      using f [of "max T (Suc t)"] that
      by (cases "Suc t \<le> T") (auto simp: typed_from_simps max_def)
  qed
qed

lemma read_loop_delivers:
  assumes Q: "array_queue_ok (so_queue S) items cap"
  shows "sk_pipe k = Some q \<Longrightarrow> user_buffer (so_mem S) peek (sk_mapper k) a n \<Longrightarrow> n < 2 ^ 64 \<Longrightarrow>
    keys_fit items cap bs t q \<Longrightarrow> n \<le> length (items q @ typed_from bs t T) \<Longrightarrow>
    \<exists>T' q' u'. read_loop S (keys_typed S bs) t k a n =
        Some (Inr (k\<lparr>sk_pipe := Some q', sk_mem := u'\<rparr>)) \<and>
      n \<le> length (items q @ typed_from bs t T') \<and> items q' = drop n (items q @ typed_from bs t T') \<and>
      (\<forall>i<n. peek u' (a + of_nat i) = (items q @ typed_from bs t T') ! i) \<and>
      (\<forall>x. (\<forall>i<n. x \<noteq> a + of_nat i) \<longrightarrow> peek u' x = peek (sk_mem k) x)"
proof (induction "n + (T - t)" arbitrary: n t k a q rule: less_induct)
  case less
  show ?case
  proof (cases n)
    case 0
    have "k\<lparr>sk_pipe := Some q, sk_mem := sk_mem k\<rparr> = k" using less.prems(1) by (cases k) simp
    then show ?thesis
      by (intro exI [of _ t] exI [of _ q] exI [of _ "sk_mem k"]) (simp add: 0 typed_from_simps(2))
  next
    case (Suc m)
    have store: "\<exists>u'. um_store (so_mem S) (sk_mapper k) (sk_mem k) a [c] = Inr u' \<and>
        peek u' = (peek (sk_mem k))(a := c)" for c
      using user_buffer_Suc(1) less.prems(2) Suc by metis
    note fit = keys_fit_turn [OF less.prems(4)]
    have join: "items q @ typed_from bs t T' = (items q @ bs t) @ typed_from bs (Suc t) T'"
      if "t < T'" for T' using that by (simp add: typed_from_simps)
    from Q less.prems(1) fit(1) store show ?thesis
    proof (cases rule: read_turn)
      case (empty k1 q1)
      have tT: "t < T" using less.prems(5) empty(1) Suc by (cases "t < T") (auto simp: typed_from_simps)
      let ?k = "k\<lparr>sk_pipe := Some q1\<rparr>"
      have step: "read_loop S (keys_typed S bs) t k a n = read_loop S (keys_typed S bs) (Suc t) ?k a n"
        using empty(2,3) Suc by (simp add: read_loop_Suc lift_res_def)
      have "\<exists>T' q' u'. read_loop S (keys_typed S bs) (Suc t) ?k a n =
          Some (Inr (?k\<lparr>sk_pipe := Some q', sk_mem := u'\<rparr>)) \<and>
        n \<le> length (items q1 @ typed_from bs (Suc t) T') \<and>
        items q' = drop n (items q1 @ typed_from bs (Suc t) T') \<and>
        (\<forall>i<n. peek u' (a + of_nat i) = (items q1 @ typed_from bs (Suc t) T') ! i) \<and>
        (\<forall>x. (\<forall>i<n. x \<noteq> a + of_nat i) \<longrightarrow> peek u' x = peek (sk_mem ?k) x)"
      proof (rule less.hyps)
        show "n + (T - Suc t) < n + (T - t)" using tT by simp
        show "keys_fit items cap bs (Suc t) q1" using fit(2) empty(4,5) by simp
        show "n \<le> length (items q1 @ typed_from bs (Suc t) T)"
          using less.prems(5) empty(1,4) join [OF tT] by simp
      qed (use less.prems in simp_all)
      then obtain T' q' u' where r: "read_loop S (keys_typed S bs) (Suc t) ?k a n =
          Some (Inr (?k\<lparr>sk_pipe := Some q', sk_mem := u'\<rparr>))"
        "n \<le> length (typed_from bs (Suc t) T')" "items q' = drop n (typed_from bs (Suc t) T')"
        "\<forall>i<n. peek u' (a + of_nat i) = typed_from bs (Suc t) T' ! i"
        "\<forall>x. (\<forall>i<n. x \<noteq> a + of_nat i) \<longrightarrow> peek u' x = peek (sk_mem k) x"
        using empty(4) by auto
      have "t < T'" using r(2) Suc by (cases "Suc t \<le> T'") (auto simp: typed_from_simps)
      then show ?thesis using r step join [of T'] empty(1)
        by (intro exI [of _ T'] exI [of _ q'] exI [of _ u']) simp
    next
      case (byte k1 q1 c cs u1)
      let ?k = "k\<lparr>sk_pipe := Some q1, sk_mem := u1\<rparr>"
      have step: "read_loop S (keys_typed S bs) t k a n =
          read_loop S (keys_typed S bs) (Suc t) ?k (a + 1) m"
        using byte(2,3) Suc by (simp add: read_loop_Suc lift_res_def)
      have "\<exists>T' q' u'. read_loop S (keys_typed S bs) (Suc t) ?k (a + 1) m =
          Some (Inr (?k\<lparr>sk_pipe := Some q', sk_mem := u'\<rparr>)) \<and>
        m \<le> length (items q1 @ typed_from bs (Suc t) T') \<and>
        items q' = drop m (items q1 @ typed_from bs (Suc t) T') \<and>
        (\<forall>i<m. peek u' (a + 1 + of_nat i) = (items q1 @ typed_from bs (Suc t) T') ! i) \<and>
        (\<forall>x. (\<forall>i<m. x \<noteq> a + 1 + of_nat i) \<longrightarrow> peek u' x = peek (sk_mem ?k) x)"
      proof (rule less.hyps)
        show "m + (T - Suc t) < n + (T - t)" using Suc by simp
        show "user_buffer (so_mem S) peek (sk_mapper ?k) (a + 1) m"
          using user_buffer_Suc(2) less.prems(2) Suc by simp
        show "keys_fit items cap bs (Suc t) q1" using fit(2) byte(1,4,5) by simp
        have "Suc m \<le> length (c # cs) + length (typed_from bs (Suc t) T)"
        proof (cases "t < T")
          case True
          then show ?thesis using less.prems(5) Suc join [OF True] byte(1)
            by (metis length_append)
        next
          case False
          then have "n \<le> length (items q)" using less.prems(5) by (simp add: typed_from_simps)
          moreover have "length (items q) \<le> length (c # cs)" by (simp flip: byte(1))
          ultimately show ?thesis using Suc by simp
        qed
        then show "m \<le> length (items q1 @ typed_from bs (Suc t) T)" using byte(4) by simp
      qed (use less.prems Suc in simp_all)
      then obtain T0 q' u' where r0: "read_loop S (keys_typed S bs) (Suc t) ?k (a + 1) m =
          Some (Inr (?k\<lparr>sk_pipe := Some q', sk_mem := u'\<rparr>))"
        "m \<le> length (cs @ typed_from bs (Suc t) T0)" "items q' = drop m (cs @ typed_from bs (Suc t) T0)"
        "\<forall>i<m. peek u' (a + 1 + of_nat i) = (cs @ typed_from bs (Suc t) T0) ! i"
        "\<forall>x. (\<forall>i<m. x \<noteq> a + 1 + of_nat i) \<longrightarrow> peek u' x = peek u1 x"
        using byte(4) by auto
      define T' where "T' = max T0 (Suc t)"
      have T': "t < T'" "typed_from bs (Suc t) T0 = typed_from bs (Suc t) T'"
        by (auto simp: T'_def max_def typed_from_simps)
      note r = r0 [unfolded T'(2)]
      have all: "items q @ typed_from bs t T' = c # cs @ typed_from bs (Suc t) T'"
        using join [OF T'(1)] byte(1) by simp
      have ne: "a \<noteq> a + 1 + of_nat i" if "i < m" for i
        using of_nat_Suc_neq_0 [of n i] that less.prems(3) Suc by (simp add: add.assoc)
      have "peek u' (a + of_nat i) = (items q @ typed_from bs t T') ! i" if "i < n" for i
      proof (cases i)
        case 0
        have "peek u' a = c" using r(5) ne byte(6) by simp
        then show ?thesis using 0 all by simp
      next
        case (Suc j)
        then show ?thesis using r(4) that all \<open>n = Suc m\<close> by (simp add: add.assoc)
      qed
      moreover have "peek u' x = peek (sk_mem k) x" if "\<forall>i<n. x \<noteq> a + of_nat i" for x
      proof -
        have "x \<noteq> a" using that [rule_format, of 0] Suc by simp
        moreover have "x \<noteq> a + 1 + of_nat i" if "i < m" for i
          using \<open>\<forall>i<n. x \<noteq> a + of_nat i\<close> [rule_format, of "Suc i"] that Suc by (simp add: add.assoc)
        ultimately show ?thesis using r(5) byte(6) by simp
      qed
      ultimately show ?thesis using r step all Suc
        by (intro exI [of _ T'] exI [of _ q'] exI [of _ u']) simp
    qed
  qed
qed

text \<open>A call that returns got enough keys.\<close>

lemma read_loop_needs:
  assumes ret: "read_loop S (keys_typed S bs) t k a n = Some res"
    and Q: "array_queue_ok (so_queue S) items cap"
    and pre: "sk_pipe k = Some q" "user_buffer (so_mem S) peek (sk_mapper k) a n"
      "keys_fit items cap bs t q"
  shows "\<exists>T. n \<le> length (items q @ typed_from bs t T)"
proof -
  let ?P = "\<lambda>S J t k a n res. \<forall>q. J = keys_typed S bs \<longrightarrow> array_queue_ok (so_queue S) items cap \<longrightarrow>
    sk_pipe k = Some q \<longrightarrow> user_buffer (so_mem S) peek (sk_mapper k) a n \<longrightarrow>
    keys_fit items cap bs t q \<longrightarrow> (\<exists>T. n \<le> length (items q @ typed_from bs t T))"
  have "?P S (keys_typed S bs) t k a n res"
  proof (rule read_loop.raw_induct [of ?P, OF _ ret])
    fix f S J t k a n y
    assume IH: "\<And>S J t k a n y. f S J t k a n = Some y \<Longrightarrow> ?P S J t k a n y"
      and eq: "(if n = 0 then Some (Inr k)
        else case J t k of None \<Rightarrow> None | Some (Inl e) \<Rightarrow> Some (Inl e)
          | Some (Inr k1) \<Rightarrow> (case read_poll S k1 a of Inl e \<Rightarrow> Some (Inl e)
             | Inr (got, k2) \<Rightarrow> if got then f S J (Suc t) k2 (a + 1) (n - 1) else f S J (Suc t) k2 a n)) =
        Some y"
    show "?P S J t k a n y"
    proof (intro allI impI)
      fix q
      assume J: "J = keys_typed S bs" and Q: "array_queue_ok (so_queue S) items cap"
        and k: "sk_pipe k = Some q" and b: "user_buffer (so_mem S) peek (sk_mapper k) a n"
        and fit: "keys_fit items cap bs t q"
      show "\<exists>T. n \<le> length (items q @ typed_from bs t T)"
      proof (cases n)
        case 0
        then show ?thesis by simp
      next
        case (Suc m)
        have store: "\<exists>u'. um_store (so_mem S) (sk_mapper k) (sk_mem k) a [c] = Inr u' \<and>
            peek u' = (peek (sk_mem k))(a := c)" for c
          using user_buffer_Suc(1) b Suc by metis
        from Q k keys_fit_turn(1) [OF fit] store show ?thesis
        proof (cases rule: read_turn)
          case (empty k1 q1)
          have "f S J (Suc t) (k\<lparr>sk_pipe := Some q1\<rparr>) a n = Some y"
            using eq J Suc empty(2,3) by simp
          then have "\<exists>T. n \<le> length (items q1 @ typed_from bs (Suc t) T)"
            using IH [rule_format, OF _ J Q, of "Suc t" "k\<lparr>sk_pipe := Some q1\<rparr>" a n y q1] b
              keys_fit_turn(2) [OF fit, of q1] empty(4,5) by simp
          then obtain T where T: "n \<le> length (typed_from bs (Suc t) T)" using empty(4) by auto
          then have "t < T" using Suc by (cases "Suc t \<le> T") (auto simp: typed_from_simps)
          then show ?thesis using T by (intro exI [of _ T]) (simp add: typed_from_simps)
        next
          case (byte k1 q1 c cs u1)
          have "f S J (Suc t) (k\<lparr>sk_pipe := Some q1, sk_mem := u1\<rparr>) (a + 1) m = Some y"
            using eq J Suc byte(2,3) by simp
          then have "\<exists>T. m \<le> length (items q1 @ typed_from bs (Suc t) T)"
            using IH [rule_format, OF _ J Q, of "Suc t" "k\<lparr>sk_pipe := Some q1, sk_mem := u1\<rparr>" "a + 1" m y q1]
              user_buffer_Suc(2) [of "so_mem S" peek "sk_mapper k" a m] b Suc
              keys_fit_turn(2) [OF fit, of q1] byte(1,4,5) by simp
          then obtain T where T: "m \<le> length (cs @ typed_from bs (Suc t) T)" using byte(4) by auto
          let ?T = "max T (Suc t)"
          have "typed_from bs (Suc t) T = typed_from bs (Suc t) ?T"
            by (auto simp: max_def typed_from_simps)
          moreover have "items q @ typed_from bs t ?T = c # cs @ typed_from bs (Suc t) ?T"
            using byte(1) by (simp add: typed_from_simps flip: append_assoc)
          ultimately show ?thesis using T Suc by (intro exI [of _ ?T]) simp
        qed
      qed
    qed
  qed
  then show ?thesis using Q pre by blast
qed

lemma from_utf8_length: "from_utf8 bs = Some s \<Longrightarrow> length s \<le> length bs"
proof (induction bs arbitrary: s rule: from_utf8.induct)
  case 1
  then show ?case by simp
next
  case (2 a s)
  then show ?case
    by (auto split: if_splits list.splits) (force simp: le_Suc_eq)+
qed

text \<open>A write call with one interrupt, at point \<open>n\<close>.\<close>

definition only_at :: "nat \<Rightarrow> ('m, 'b, 'q, 'u) irqs \<Rightarrow> bool" where
  "only_at n J \<longleftrightarrow> (\<forall>i. i \<noteq> n \<longrightarrow> J i = no_irq i)"

lemma draw_irq_later: "only_at n J \<Longrightarrow> n < i \<Longrightarrow> draw_irq S J i s k = draw_irq S no_irq i s k"
proof (induction s arbitrary: i k)
  case Nil
  then show ?case by simp
next
  case (Cons c s)
  have now: "J i = no_irq i" using Cons.prems by (simp add: only_at_def)
  have rest: "draw_irq S J (Suc i) s = draw_irq S no_irq (Suc i) s"
    using Cons.IH [OF Cons.prems(1)] Cons.prems(2) by (intro ext) simp
  show ?case unfolding draw_irq.simps now rest by (rule refl)
qed

lemma draw_irq_at:
  assumes J: "only_at n J"
  shows "m < length s \<Longrightarrow> n = i + m \<Longrightarrow> sk_logger k = Some lg \<Longrightarrow>
    write_str (so_font S) (lg_writer lg) (take (Suc m) s) = Inr w1 \<Longrightarrow>
    draw_irq S J i s k = runbind (J n (k\<lparr>sk_logger := Some (lg\<lparr>lg_writer := w1\<rparr>)\<rparr>))
      (draw_irq S no_irq (Suc n) (drop (Suc m) s))"
proof (induction m arbitrary: i s k lg)
  case 0
  then obtain c s' where s: "s = c # s'" by (cases s) auto
  have "draw_irq S J (Suc n) s' = draw_irq S no_irq (Suc n) s'"
    using draw_irq_later [OF J] by (intro ext) simp
  then show ?case using 0 s by (auto simp: lift_res_def panic_simps)
next
  case (Suc m)
  then obtain c s' where s: "s = c # s'" by (cases s) auto
  have now: "J i k = Some (Inr k)" for k using J Suc.prems(2) by (simp add: only_at_def no_irq_def)
  obtain w where w: "write_char (so_font S) (lg_writer lg) c = Inr w"
    "write_str (so_font S) w (take (Suc m) s') = Inr w1"
    using Suc.prems(4) s by (auto simp: panic_simps)
  let ?k = "k\<lparr>sk_logger := Some (lg\<lparr>lg_writer := w\<rparr>)\<rparr>"
  have "draw_irq S J (Suc i) s' ?k = runbind (J n (?k\<lparr>sk_logger := Some (lg\<lparr>lg_writer := w, lg_writer := w1\<rparr>)\<rparr>))
      (draw_irq S no_irq (Suc n) (drop (Suc m) s'))"
    by (rule Suc.IH) (use Suc.prems s w(2) in auto)
  then show ?case
    using Suc.prems s w(1) by (simp add: lift_res_def now)
qed

lemma write_irq_once:
  assumes "spin_ok (so_spin S)" "sk_logger k = Some lg" "\<not> lg_locked lg"
    "um_load (so_mem S) (sk_mapper k) (sk_mem k) buf (unat cnt) = Inr bytes" "from_utf8 bytes = Some s"
    and J: "only_at n J" and n: "n \<le> length s"
    and w1: "write_str (so_font S) (lg_writer lg) (take n s) = Inr w1"
    and keep: "\<And>k0 k1. J n k0 = Some (Inr k1) \<Longrightarrow> sk_mapper k1 = sk_mapper k0 \<and> sk_mem k1 = sk_mem k0"
  shows "write_syscall_irq J S k 1 buf cnt =
    runbind (J n (k\<lparr>sk_logger := Some (lg\<lparr>lg_writer := w1, lg_locked := True\<rparr>)\<rparr>)) (\<lambda>k1.
    runbind (draw_irq S no_irq (Suc n) (drop n s) k1) (\<lambda>k2.
      Some (Inr (k2\<lparr>sk_logger := map_option (\<lambda>lg. lg\<lparr>lg_locked := False\<rparr>) (sk_logger k2)\<rparr>))))"
proof -
  let ?lg = "lg\<lparr>lg_locked := True\<rparr>"
  let ?k = "k\<lparr>sk_logger := Some ?lg\<rparr>"
  show ?thesis
  proof (cases n)
    case 0
    then have "w1 = lg_writer lg" using w1 by simp
    then have e: "lg\<lparr>lg_writer := w1, lg_locked := True\<rparr> = ?lg" by (cases lg) simp
    have d: "draw_irq S J 1 s k1 = draw_irq S no_irq 1 s k1" for k1
      using draw_irq_later [OF J] 0 by simp
    have run: "write_syscall_irq J S k 1 buf cnt = runbind (J n ?k) (\<lambda>k1.
        runbind (lift_res (um_load (so_mem S) (sk_mapper k1) (sk_mem k1) buf (unat cnt))) (\<lambda>bytes.
        runbind (case from_utf8 bytes of None \<Rightarrow> Some (Inr k1) | Some s \<Rightarrow> draw_irq S J 1 s k1) (\<lambda>k2.
          Some (Inr (k2\<lparr>sk_logger := map_option (\<lambda>lg. lg\<lparr>lg_locked := False\<rparr>) (sk_logger k2)\<rparr>)))))"
      using assms(1-3) 0 by (simp add: write_syscall_irq_def lift_res_def)
    show ?thesis
    proof (cases "J n ?k")
      case None
      then show ?thesis using run e by simp
    next
      case (Some x)
      then show ?thesis
        using run e keep [of ?k] assms(4,5) d 0 by (cases x) (auto simp: lift_res_def)
    qed
  next
    case (Suc m)
    have e: "?k\<lparr>sk_logger := Some (?lg\<lparr>lg_writer := w1\<rparr>)\<rparr> =
        k\<lparr>sk_logger := Some (lg\<lparr>lg_writer := w1, lg_locked := True\<rparr>)\<rparr>"
      by (cases k; cases lg) simp
    have p: "m < length s" "n = 1 + m" "sk_logger ?k = Some ?lg"
        "write_str (so_font S) (lg_writer ?lg) (take (Suc m) s) = Inr w1"
      using n w1 Suc by simp_all
    have "J 0 = no_irq 0" using J Suc by (simp add: only_at_def)
    then have "write_syscall_irq J S k 1 buf cnt = runbind (draw_irq S J 1 s ?k) (\<lambda>k2.
        Some (Inr (k2\<lparr>sk_logger := map_option (\<lambda>lg. lg\<lparr>lg_locked := False\<rparr>) (sk_logger k2)\<rparr>)))"
      using assms(1-5) by (simp add: write_syscall_irq_def lift_res_def no_irq_def)
    also have "draw_irq S J 1 s ?k = runbind (J n (?k\<lparr>sk_logger := Some (?lg\<lparr>lg_writer := w1\<rparr>)\<rparr>))
        (draw_irq S no_irq (Suc n) (drop (Suc m) s))"
      by (rule draw_irq_at [OF J p])
    finally show ?thesis unfolding e runbind_assoc Suc .
  qed
qed

lemma from_utf8_ascii: "\<forall>b\<in>set bs. b < 0x80 \<Longrightarrow> from_utf8 bs = Some (map ucast bs)"
  by (induction bs) auto

section \<open>Properties\<close>

text \<open>An instance of the code outside the repository, with byte memory that is always accessible.\<close>

definition flat_mem :: "('m, u64 \<Rightarrow> u8) user_mem" where
  "flat_mem =
     \<lparr>um_load = (\<lambda>m u a n. Inr (map (\<lambda>i. u (a + of_nat i)) [0..<n])),
      um_store = (\<lambda>m u a bs. Inr (\<lambda>x. if unat (x - a) < length bs then bs ! unat (x - a) else u x))\<rparr>"

lemma flat_cells: "user_cells flat_mem ptrs"
proof -
  have "map (\<lambda>i. if unat (of_nat i :: u64) < length (bytes_of a)
      then bytes_of a ! unat (p + of_nat i - p) else u (p + of_nat i)) [0..<8] = bytes_of a"
    for a p :: u64 and u
    by (rule nth_equalityI) (simp_all add: bytes_of_def unsigned_of_nat take_bit_nat_eq_self)
  then show ?thesis by (simp add: user_cells_def flat_mem_def)
qed

definition sys_ref :: "(translation, bool list, nat \<times> u8 list, u64 \<Rightarrow> u8) sys_ops" where
  "sys_ref =
     \<lparr>so_spin = spin_ref, so_x86 = x86_ref, so_mapper = mapper_ref, so_bitvec = bitvec_ref,
      so_queue = queue_ref, so_font = sample_font, so_mem = flat_mem\<rparr>"

definition sample_user :: process where
  "sample_user =
     \<lparr>p_id = 2, p_status = RUNNING, p_rsp = 0, p_kernel_stack = None, p_mapper = Some 0,
      p_pages = Some 0x100000000\<rparr>"

definition sample_sys :: "(translation, bool list, nat \<times> u8 list, u64 \<Rightarrow> u8) sysk" where
  "sample_sys =
     \<lparr>sk_sched = \<lparr>proc_list = Some [kernel_process\<lparr>p_status := READY\<rparr>, sample_user],
                  list_locked = False, current_process = Some 1, current_locked = False\<rparr>,
      sk_mapper = Map.empty, sk_mapper_locked = False,
      sk_frames = Some \<lparr>bm_memory_map = big_map, bm_bitmap = replicate 2048 False\<rparr>,
      sk_frames_locked = False, sk_pipe = Some (128, [104, 105]),
      sk_logger = Some (logger_new (replicate 144 7) (sample_info Rgb)), sk_mem = (\<lambda>a. 65)\<rparr>"

lemma sample_sys_ready:
  "anon_ready sys_ref sample_sys [kernel_process\<lparr>p_status := READY\<rparr>, sample_user] 1
     \<lparr>bm_memory_map = big_map, bm_bitmap = replicate 2048 False\<rparr> 0x100000000"
  by (auto simp: anon_ready_def sys_ref_def spin_ref_ok x86_ref_ok sched_state_def sample_sys_def
      sample_user_def All_less_Suc)

text \<open>
  C20: an anonymous allocation maps fresh memory. If the current process is a user process and
  enough frames are free, the call returns with every page of the rounded-up range mapped present,
  writable and for the user, to frames that are pairwise different and no longer free; no other
  page changes; the address of the range is stored at the user's pointer; every lock is free; and
  the process's cursor is now the first page after the range, so it can allocate again.
\<close>

theorem anon_allocate_maps:
  assumes ready: "anon_ready S k ps cur frames start"
    and inv: "bitmap_inv (so_x86 S) (so_bitvec S) bits frames"
    and M: "mapper_ok (so_mapper S) tr hp (bitmap_allocate_frame (so_x86 S) (so_bitvec S))"
    and lim: "unat start + 4096 * page_count sz < 2 ^ 47"
    and room: "4 * page_count sz \<le> length (bitmap_free bits frames)"
    and un: "\<forall>p\<in>set (page_list start (page_count sz)). tr (sk_mapper k) p = None \<and> \<not> hp (sk_mapper k) p"
    and store: "\<And>m'. \<exists>u'. um_store (so_mem S) m' (sk_mem k) ptr (bytes_of start) = Inr u'"
  shows "\<exists>k' frames' fs. anon_allocate_syscall S k sz ptr = Some (Inr k') \<and>
    length fs = page_count sz \<and> distinct fs \<and> set fs \<subseteq> set (bitmap_free bits frames) \<and>
    set fs \<inter> set (bitmap_free bits frames') = {} \<and>
    bitmap_inv (so_x86 S) (so_bitvec S) bits frames' \<and>
    (\<forall>i<page_count sz. tr (sk_mapper k') (start + 4096 * of_nat i) =
       Some (fs ! i, {PRESENT, WRITABLE, USER_ACCESSIBLE})) \<and>
    (\<forall>p. p \<notin> set (page_list start (page_count sz)) \<longrightarrow> tr (sk_mapper k') p = tr (sk_mapper k) p) \<and>
    um_store (so_mem S) (sk_mapper k') (sk_mem k) ptr (bytes_of start) = Inr (sk_mem k') \<and>
    anon_ready S k'
      (ps[cur := (ps ! cur)\<lparr>p_pages := Some (start + 4096 * of_nat (page_count sz))\<rparr>]) cur
      frames' (start + 4096 * of_nat (page_count sz))"
  using anon_allocate_mapped [OF assms] by blast

theorem anon_allocate_maps_witness:
  "\<exists>k'. anon_allocate_syscall sys_ref sample_sys 5000 0x7000 = Some (Inr k') \<and>
    (\<exists>f. sk_mapper k' 0x100001000 = Some (f, {PRESENT, WRITABLE, USER_ACCESSIBLE})) \<and>
    sk_mapper k' 0x100002000 = None"
proof -
  have n: "page_count 5000 = 2" by (simp add: page_count_def)
  have s: "so_x86 sys_ref = x86_ref" "so_bitvec sys_ref = bitvec_ref" "so_mapper sys_ref = mapper_ref"
    "so_mem sys_ref = flat_mem" "sk_mapper sample_sys = Map.empty"
    by (simp_all add: sys_ref_def sample_sys_def)
  obtain k' fs where k: "anon_allocate_syscall sys_ref sample_sys 5000 0x7000 = Some (Inr k')"
    "\<forall>i<2. sk_mapper k' (0x100000000 + 4096 * of_nat i) =
       Some (fs ! i, {PRESENT, WRITABLE, USER_ACCESSIBLE})"
    "\<forall>p. p \<notin> set (page_list 0x100000000 2) \<longrightarrow> sk_mapper k' p = None"
    using anon_allocate_maps [where bits = "\<lambda>b. b" and tr = "\<lambda>m. m" and hp = "\<lambda>_ _. False"
        and sz = 5000 and ptr = "0x7000", OF sample_sys_ready]
    by (auto simp: s n big_frames_inv big_frames_free mapper_ref_ok flat_mem_def)
  have "0x100002000 \<notin> set (page_list 0x100000000 2)" by (simp add: page_list_def upt_rec)
  then show ?thesis using k(1) k(2) [rule_format, of 1] k(3) by auto
qed

text \<open>
  C7: allocations never overlap. A sequence of allocation calls of a process, for which enough
  frames are free, enough pages from its cursor on are unmapped, and whose pointers are writable,
  returns; the address ranges, starting at the addresses that the calls store at the process's
  pointers, are pairwise disjoint, each at least as large as asked for, not below the process's
  cursor at the start, and in the end every page of each of them is mapped writable for the user.
  Without enough frames a call panics (lemma \<open>anon_allocate_panics\<close>).
\<close>

theorem anon_allocations_disjoint:
  assumes "mapper_ok (so_mapper S) tr hp (bitmap_allocate_frame (so_x86 S) (so_bitvec S))"
    "user_cells (so_mem S) (snd ` set cs)"
    "anon_ready S k ps cur frames start" "bitmap_inv (so_x86 S) (so_bitvec S) bits frames"
    "unat start + 4096 * (\<Sum>(sz, ptr)\<leftarrow>cs. page_count sz) < 2 ^ 47"
    "4 * (\<Sum>(sz, ptr)\<leftarrow>cs. page_count sz) \<le> length (bitmap_free bits frames)"
    "\<forall>p\<in>set (page_list start (\<Sum>(sz, ptr)\<leftarrow>cs. page_count sz)).
       tr (sk_mapper k) p = None \<and> \<not> hp (sk_mapper k) p"
  shows "\<exists>k' bs. anon_calls S k cs = Some (Inr (k', bs)) \<and> apart bs \<and>
    (\<forall>b\<in>set bs. unat start \<le> fst b \<and> user_mapped tr (sk_mapper k') b) \<and> length bs = length cs \<and>
    (\<forall>i<length cs. unat (fst (cs ! i)) \<le> snd (bs ! i))"
  using anon_calls_ok [OF assms] by blast

theorem anon_allocations_disjoint_witness:
  "\<exists>k' bs. anon_calls sys_ref sample_sys [(5000, 0x7000), (0, 0x7008), (16, 0x7010)] =
      Some (Inr (k', bs)) \<and> apart bs \<and> length bs = 3"
proof -
  have n: "page_count 5000 = 2" "page_count 0 = 0" "page_count 16 = 1"
    by (simp_all add: page_count_def)
  have s: "so_x86 sys_ref = x86_ref" "so_bitvec sys_ref = bitvec_ref" "so_mapper sys_ref = mapper_ref"
    "so_mem sys_ref = flat_mem" "sk_mapper sample_sys = Map.empty"
    by (simp_all add: sys_ref_def sample_sys_def)
  have m: "mapper_ok (so_mapper sys_ref) (\<lambda>m. m) (\<lambda>_ _. False)
      (bitmap_allocate_frame (so_x86 sys_ref) (so_bitvec sys_ref))"
    unfolding s by (rule mapper_ref_ok)
  have c: "user_cells (so_mem sys_ref) ptrs" for ptrs unfolding s by (rule flat_cells)
  show ?thesis
    using anon_allocations_disjoint [OF m c sample_sys_ready, where bits = "\<lambda>b. b"
        and cs = "[(5000, 0x7000), (0, 0x7008), (16, 0x7010)]"]
    by (auto simp: s n big_frames_inv big_frames_free)
qed

lemma read_syscall_irq_returns:
  assumes "array_queue_ok (so_queue S) items cap" "sk_pipe k = Some q"
    "user_buffer (so_mem S) peek (sk_mapper k) buf (unat cnt)" "keys_fit items cap bs 0 q"
    "unat cnt \<le> length (items q @ typed_from bs 0 T)"
  shows "\<exists>T q' u'. read_syscall_irq (keys_typed S bs) S k 0 buf cnt =
        Some (Inr (k\<lparr>sk_pipe := Some q', sk_mem := u'\<rparr>)) \<and>
      unat cnt \<le> length (items q @ typed_from bs 0 T) \<and>
      items q' = drop (unat cnt) (items q @ typed_from bs 0 T) \<and>
      (\<forall>i<unat cnt. peek u' (buf + of_nat i) = (items q @ typed_from bs 0 T) ! i) \<and>
      (\<forall>x. (\<forall>i<unat cnt. x \<noteq> buf + of_nat i) \<longrightarrow> peek u' x = peek (sk_mem k) x)"
  using read_loop_delivers [OF assms(1-3) usize_lt assms(4,5)] assms(2)
  by (simp add: read_syscall_irq_def lift_res_def)

lemma read_syscall_returns:
  assumes "array_queue_ok (so_queue S) items cap" "sk_pipe k = Some q"
    "user_buffer (so_mem S) peek (sk_mapper k) buf (unat cnt)" "unat cnt \<le> length (items q)"
    "length (items q) \<le> cap q"
  shows "\<exists>q' u'. read_syscall S k 0 buf cnt = Some (Inr (k\<lparr>sk_pipe := Some q', sk_mem := u'\<rparr>)) \<and>
      items q' = drop (unat cnt) (items q) \<and>
      (\<forall>i<unat cnt. peek u' (buf + of_nat i) = items q ! i) \<and>
      (\<forall>x. (\<forall>i<unat cnt. x \<noteq> buf + of_nat i) \<longrightarrow> peek u' x = peek (sk_mem k) x)"
proof -
  have fit: "keys_fit items cap (\<lambda>_. []) 0 q" using assms(5) by (simp add: keys_fit_def no_keys)
  show ?thesis
    using read_syscall_irq_returns [OF assms(1-3) fit, of 0] assms(4)
    by (auto simp: no_keys read_syscall_def)
qed

text \<open>
  C22: the read call delivers the typed bytes, also those typed while it waits. Let keys be typed at
  any points of its polling loop, so that all of them fit the pipe with what is queued. On file
  descriptor 0 with a writable buffer the call returns exactly if enough bytes are queued or get
  typed at some point: then the buffer holds the oldest bytes in order, the pipe holds the rest of
  what was queued and typed until then, and no other memory changes. Otherwise it waits for ever.
\<close>

theorem read_syscall_delivers:
  assumes "array_queue_ok (so_queue S) items cap" "sk_pipe k = Some q"
    "user_buffer (so_mem S) peek (sk_mapper k) buf (unat cnt)" "keys_fit items cap bs 0 q"
  shows "if \<exists>T. unat cnt \<le> length (items q @ typed_from bs 0 T)
    then \<exists>T q' u'. read_syscall_irq (keys_typed S bs) S k 0 buf cnt =
        Some (Inr (k\<lparr>sk_pipe := Some q', sk_mem := u'\<rparr>)) \<and>
      unat cnt \<le> length (items q @ typed_from bs 0 T) \<and>
      items q' = drop (unat cnt) (items q @ typed_from bs 0 T) \<and>
      (\<forall>i<unat cnt. peek u' (buf + of_nat i) = (items q @ typed_from bs 0 T) ! i) \<and>
      (\<forall>x. (\<forall>i<unat cnt. x \<noteq> buf + of_nat i) \<longrightarrow> peek u' x = peek (sk_mem k) x)
    else read_syscall_irq (keys_typed S bs) S k 0 buf cnt = None"
proof (cases "\<exists>T. unat cnt \<le> length (items q @ typed_from bs 0 T)")
  case True
  show ?thesis
    unfolding if_P [OF True] using read_syscall_irq_returns [OF assms] True by blast
next
  case False
  have "read_loop S (keys_typed S bs) 0 k buf (unat cnt) = None"
    using read_loop_needs [OF _ assms(1-4)] False by (meson option.exhaust)
  then show ?thesis
    unfolding if_not_P [OF False] using assms(2) by (simp add: read_syscall_irq_def lift_res_def)
qed

lemma flat_buffer: "user_buffer flat_mem (\<lambda>u. u) m a n"
proof -
  have "(\<lambda>x. if unat (x - b) < length [c] then [c] ! unat (x - b) else u x) = u(b := c)"
    for b :: u64 and c :: u8 and u
    by (rule ext) (auto simp: unat_eq_0)
  then show ?thesis by (simp add: user_buffer_def flat_mem_def)
qed

text \<open>Two bytes are queued, the third is typed before the sixth turn of the loop.\<close>

theorem read_syscall_delivers_witness:
  "\<exists>k'. read_syscall_irq (keys_typed sys_ref (\<lambda>t. if t = 5 then [33] else [])) sys_ref sample_sys 0 0x7000 3 =
      Some (Inr k') \<and>
    sk_mem k' 0x7000 = 104 \<and> sk_mem k' 0x7001 = 105 \<and> sk_mem k' 0x7002 = 33 \<and> sk_mem k' 0x7003 = 65"
proof -
  let ?bs = "\<lambda>t :: nat. if t = 5 then [33 :: u8] else []"
  have s: "so_queue sys_ref = queue_ref" "so_mem sys_ref = flat_mem"
    "sk_pipe sample_sys = Some (128, [104, 105])" "sk_mem sample_sys = (\<lambda>a. 65)"
    by (simp_all add: sys_ref_def sample_sys_def)
  have ty: "typed_from ?bs 0 T = (if T \<le> 5 then [] else [33])" for T
    by (induction T) (auto simp: typed_from_def)
  have fit: "keys_fit snd fst ?bs 0 (128, [104, 105])" by (simp add: keys_fit_def ty)
  have enough: "\<exists>T. unat (3 :: u64) \<le> length (snd (128 :: nat, [104, 105 :: u8]) @ typed_from ?bs 0 T)"
    by (rule exI [of _ 6]) (simp add: ty)
  obtain T q' u' where r: "read_syscall_irq (keys_typed sys_ref ?bs) sys_ref sample_sys 0 0x7000 3 =
      Some (Inr (sample_sys\<lparr>sk_pipe := Some q', sk_mem := u'\<rparr>))"
    "unat (3 :: u64) \<le> length ([104, 105] @ typed_from ?bs 0 T)"
    "\<forall>i<unat (3 :: u64). u' (0x7000 + of_nat i) = ([104, 105] @ typed_from ?bs 0 T) ! i"
    "\<forall>x. (\<forall>i<unat (3 :: u64). x \<noteq> 0x7000 + of_nat i) \<longrightarrow> u' x = 65"
    using read_syscall_delivers [of sys_ref snd fst sample_sys "(128, [104, 105])" "\<lambda>u. u" "0x7000" 3 ?bs,
        unfolded if_P [OF enough]] fit
    by (auto simp: s queue_ref_ok flat_buffer)
  have "typed_from ?bs 0 T = [33]" using r(2) by (simp add: ty split: if_splits)
  then have "u' 0x7000 = 104" "u' 0x7001 = 105" "u' 0x7002 = 33"
    using r(3) [rule_format, of 0] r(3) [rule_format, of 1] r(3) [rule_format, of 2] by simp_all
  moreover have "u' 0x7003 = 65"
  proof -
    have n: "unat (3 :: u64) = Suc (Suc (Suc 0))" by simp
    have "\<forall>i<unat (3 :: u64). (0x7003 :: u64) \<noteq> 0x7000 + of_nat i"
      unfolding n All_less_Suc by simp
    then show ?thesis using r(4) by blast
  qed
  ultimately show ?thesis using r(1) by simp
qed

text \<open>
  C23: the write call prints. On file descriptor 1, with the logger initialised and unlocked, it
  draws the text of a well-formed UTF-8 buffer exactly as the screen's \<open>write_str\<close> does, draws
  nothing for any other buffer, never panics, and in both cases releases the logger and changes
  nothing else.
\<close>

theorem write_syscall_prints:
  assumes "spin_ok (so_spin S)" "sk_logger k = Some lg" "\<not> lg_locked lg"
    "um_load (so_mem S) (sk_mapper k) (sk_mem k) buf (unat cnt) = Inr bytes"
    "writer_inv (so_font S) (length bytes) (lg_writer lg)"
  shows "\<exists>w'. write_syscall S k 1 buf cnt =
      Some (Inr (k\<lparr>sk_logger := Some (lg\<lparr>lg_writer := w', lg_locked := False\<rparr>)\<rparr>)) \<and>
    (case from_utf8 bytes of
       None \<Rightarrow> w' = lg_writer lg
     | Some s \<Rightarrow> write_str (so_font S) (lg_writer lg) s = Inr w')"
proof (cases "from_utf8 bytes")
  case None
  then show ?thesis
    using assms(1-4) by (intro exI [of _ "lg_writer lg"]) (simp add: write_syscall_unfold lift_res_def)
next
  case (Some s)
  obtain w' where "write_str (so_font S) (lg_writer lg) s = Inr w'"
    using screen.wr_ok [OF assms(5) from_utf8_length [OF Some]] by blast
  then show ?thesis using Some assms(1-4) by (simp add: write_syscall_unfold lift_res_def)
qed

lemma sample_sys_logger:
  "sk_logger sample_sys = Some (logger_new (replicate 144 7) (sample_info Rgb))"
  "\<not> lg_locked (logger_new (replicate 144 7) (sample_info Rgb))"
  "lg_writer (logger_new (replicate 144 7) (sample_info Rgb)) =
     fb_writer_new (replicate 144 7) (sample_info Rgb)"
  "so_spin sys_ref = spin_ref" "so_font sys_ref = sample_font"
  by (simp_all add: sample_sys_def logger_new_def sys_ref_def)

theorem write_syscall_prints_witness:
  "\<exists>k'. write_syscall sys_ref sample_sys 1 0x7000 9 = Some (Inr k')"
proof -
  have "um_load (so_mem sys_ref) (sk_mapper sample_sys) (sk_mem sample_sys) 0x7000 (unat (9 :: u64)) =
      Inr (replicate 9 65)"
    by (simp add: sys_ref_def sample_sys_def flat_mem_def map_replicate_const)
  then show ?thesis
    using write_syscall_prints [of sys_ref sample_sys _ "0x7000" 9 "replicate 9 65"] sample_inv
    by (auto simp: sample_sys_logger spin_ref_ok)
qed

text \<open>
  A system call number that the kernel does not know only logs a line with the number; nothing
  but the screen changes, and the logger's lock is free afterwards.
\<close>

theorem unknown_syscall_logged:
  assumes "spin_ok (so_spin S)" "sk_logger k = Some lg" "\<not> lg_locked lg" "2 < index"
    "writer_inv (so_font S) n (lg_writer lg)"
    "length (log_line info_level [unknown_syscall_text, hex (unat index)]) \<le> n"
  shows "\<exists>w'. syscall_handler S k index a0 a1 a2 a3 a4 a5 =
      Some (Inr (k\<lparr>sk_logger := Some (lg\<lparr>lg_writer := w', lg_locked := False\<rparr>)\<rparr>)) \<and>
    write_str (so_font S) (lg_writer lg)
      (log_line info_level [unknown_syscall_text, hex (unat index)]) = Inr w'"
proof -
  have i: "index \<noteq> 0" "index \<noteq> 1" "index \<noteq> 2"
    using assms(4) by (auto simp: word_less_nat_alt)
  obtain w' where "write_str (so_font S) (lg_writer lg)
      (log_line info_level [unknown_syscall_text, hex (unat index)]) = Inr w'"
    using screen.wr_ok [OF assms(5,6)] by blast
  then show ?thesis
    using i assms(2) log_free [OF assms(1,3)] by (simp add: syscall_handler_def syscall_handler_irq_def)
qed

theorem unknown_syscall_logged_witness:
  "\<exists>w'. syscall_handler sys_ref sample_sys 60 0 0 0 0 0 0 =
      Some (Inr (sample_sys\<lparr>sk_logger := Some ((logger_new (replicate 144 7) (sample_info Rgb))
        \<lparr>lg_writer := w', lg_locked := False\<rparr>)\<rparr>))"
proof -
  have "length (log_line info_level [unknown_syscall_text, hex (unat (60 :: u64))]) \<le> 99"
    by (simp add: log_line_def pad5_def info_level_def unknown_syscall_text_def)
  then show ?thesis
    using unknown_syscall_logged [of sys_ref sample_sys _ 60 99 0 0 0 0 0 0] sample_long_inv
    by (auto simp: sample_sys_logger spin_ref_ok)
qed

text \<open>
  A user process can stop the kernel. When no frame is free, an allocation of at least one byte
  panics instead of reporting an error to the process.
\<close>

theorem anon_allocate_panics:
  assumes "anon_ready S k ps cur frames start" "unat start + unat sz < 2 ^ 47" "0 < unat sz"
    "bitmap_inv (so_x86 S) (so_bitvec S) bits frames" "bitmap_free bits frames = []"
  shows "anon_allocate_syscall S k sz ptr = Some (Inl UnwrapFailed)"
proof -
  have "0 < page_count sz" using assms(3) page_count_covers(1) [of sz] by (cases "page_count sz") auto
  then obtain pages where "page_list start (page_count sz) = start # pages"
    by (cases "page_count sz") (auto simp: page_list_def upt_rec)
  moreover obtain s' where "bitmap_allocate_frame (so_x86 S) (so_bitvec S) frames = Inr (None, s')"
    using bitmap.allocate_none [OF assms(4,5)] by blast
  ultimately show ?thesis by (simp add: anon_allocate_unfold [OF assms(1,2)])
qed

definition full_frames :: "bool list bitmap_allocator" where
  "full_frames = \<lparr>bm_memory_map = big_map, bm_bitmap = replicate 2048 True\<rparr>"

lemma zeros_replicate_True: "zeros (replicate n True) fs = []"
  by (auto simp: zeros_def set_zip filter_empty_conv)

lemma full_frames_ok:
  "bitmap_inv x86_ref bitvec_ref (\<lambda>b. b) full_frames" "bitmap_free (\<lambda>b. b) full_frames = []"
  by (simp_all add: bitmap_inv_def x86_ref_ok bitvec_ref_ok big_map_ok big_map_frames full_frames_def
      bitmap_free_def zeros_replicate_True)

theorem anon_allocate_panics_witness:
  "anon_allocate_syscall sys_ref (sample_sys\<lparr>sk_frames := Some full_frames\<rparr>) 1 0x7000 =
    Some (Inl UnwrapFailed)"
proof -
  have r: "anon_ready sys_ref (sample_sys\<lparr>sk_frames := Some full_frames\<rparr>)
      [kernel_process\<lparr>p_status := READY\<rparr>, sample_user] 1 full_frames 0x100000000"
    using sample_sys_ready by (simp add: anon_ready_def)
  show ?thesis
    using anon_allocate_panics [OF r, of 1 "\<lambda>b. b"] full_frames_ok by (simp add: sys_ref_def)
qed

end
