(* ===== verification/Context.thy ===== *)
theory Context
  imports Sched
begin

text \<open>
  Context switches: the naked functions \<open>timer_handler\<close> and \<open>send_eoi\<close> of \<open>kernel/src/int.rs\<close> on a
  CPU with the registers and the instructions they use. The timer interrupt saves the registers on
  the stack of the interrupted process, \<open>schedule\<close> picks a saved stack pointer, and the rest of the
  handler restores the registers found there. Memory is read and written in aligned slots of eight
  bytes.
\<close>

section \<open>The CPU\<close>

datatype reg = RAX | RCX | RDX | RBX | RBP | RSI | RDI
  | R8 | R9 | R10 | R11 | R12 | R13 | R14 | R15 | RSP

record cpu_context =
  c_regs :: "reg \<Rightarrow> u64"
  c_rip :: u64
  c_cs :: u16
  c_rflags :: u64
  c_ss :: u16

record cpu = cpu_context +
  c_mem :: "u64 \<Rightarrow> u64"

abbreviation context_of :: "cpu \<Rightarrow> cpu_context" where
  "context_of c \<equiv> cpu_context.truncate c"

datatype 'k instr =
    Push reg
  | Pop reg
  | Mov reg reg
  | Call "cpu \<times> 'k \<Rightarrow> (cpu \<times> 'k) run"
  | Iretq
  | Sysretq u16 u16

text \<open>
  The instructions; the order of two registers in \<open>Mov\<close> is the one of the source, target first.
  \<open>Sysretq\<close> has the two selectors that the register STAR gives it; it returns to \<open>rcx\<close> with the flags
  in \<open>r11\<close>, of which it clears the reserved bits and RF and VM, and sets bit 1.
\<close>

fun exec1 :: "'k instr \<Rightarrow> cpu \<times> 'k \<Rightarrow> (cpu \<times> 'k) run" where
  "exec1 (Push r) (c, k) =
     (let sp = c_regs c RSP - 8
      in Some (Inr (c\<lparr>c_regs := (c_regs c)(RSP := sp), c_mem := (c_mem c)(sp := c_regs c r)\<rparr>, k)))"
| "exec1 (Pop r) (c, k) =
     (let sp = c_regs c RSP
      in Some (Inr (c\<lparr>c_regs := (c_regs c)(RSP := sp + 8, r := c_mem c sp)\<rparr>, k)))"
| "exec1 (Mov d s) (c, k) = Some (Inr (c\<lparr>c_regs := (c_regs c)(d := c_regs c s)\<rparr>, k))"
| "exec1 (Call f) ck = f ck"
| "exec1 Iretq (c, k) =
     (let sp = c_regs c RSP; m = c_mem c
      in Some (Inr (c\<lparr>c_rip := m sp, c_cs := ucast (m (sp + 8)), c_rflags := m (sp + 16),
                      c_regs := (c_regs c)(RSP := m (sp + 24)), c_ss := ucast (m (sp + 32))\<rparr>, k)))"
| "exec1 (Sysretq cs ss) (c, k) =
     Some (Inr (c\<lparr>c_rip := c_regs c RCX, c_rflags := (c_regs c R11 AND 0x3C7FD7) OR 2,
                  c_cs := cs, c_ss := ss\<rparr>, k))"

fun exec :: "'k instr list \<Rightarrow> cpu \<times> 'k \<Rightarrow> (cpu \<times> 'k) run" where
  "exec [] ck = Some (Inr ck)"
| "exec (i # is) ck = runbind (exec1 i ck) (exec is)"

text \<open>
  What the CPU does on an interrupt through an interrupt gate: from ring 3 it switches to the stack
  \<open>rsp0\<close> of the task state segment, it aligns the stack pointer to 16, pushes the five words of an
  interrupt stack frame, clears the interrupt flag (bit 9) and jumps to the handler.
\<close>

definition frame_base :: "u64 \<Rightarrow> cpu \<Rightarrow> u64" where
  "frame_base rsp0 c =
     ((if c_cs c AND 3 = 3 then rsp0 else c_regs c RSP) AND NOT 15) - 40"

definition interrupt_entry :: "u64 \<Rightarrow> u16 \<Rightarrow> u64 \<Rightarrow> cpu \<Rightarrow> cpu" where
  "interrupt_entry rsp0 code_selector handler c =
     (let sp = frame_base rsp0 c in
      c\<lparr>c_mem := (c_mem c)(sp + 32 := ucast (c_ss c), sp + 24 := c_regs c RSP,
                             sp + 16 := c_rflags c, sp + 8 := ucast (c_cs c), sp := c_rip c),
        c_regs := (c_regs c)(RSP := sp), c_rip := handler, c_cs := code_selector,
        c_rflags := c_rflags c AND NOT 0x200,
        c_ss := (if c_cs c AND 3 = 3 then 0 else c_ss c)\<rparr>)"

section \<open>The timer interrupt\<close>

text \<open>The kernel state that the handler touches: the registers of the local APIC and the scheduler.\<close>

record kern =
  k_lapic :: "u32 list option"
  k_lapic_locked :: bool
  k_sched :: sched

definition send_eoi :: "spin \<Rightarrow> kern \<Rightarrow> kern run" where
  "send_eoi L k =
     (case k_lapic k of
        None \<Rightarrow> Some (Inl UnwrapFailed)
      | Some lapic \<Rightarrow>
          (case spin_acquire L (k_lapic_locked k) of
             None \<Rightarrow> None
           | Some b \<Rightarrow>
               if 44 < length lapic
               then Some (Inr (k\<lparr>k_lapic := Some (lapic[44 := 0]), k_lapic_locked := False\<rparr>))
               else Some (Inl IndexOutOfBounds)))"

text \<open>
  Compiled Rust code called by the handler changes the CPU by some function \<open>J\<close> besides its effect
  on the kernel's state: it keeps what the calling convention says (below) and leaves the result in
  \<open>rax\<close>; the first argument is in \<open>rdi\<close>.
\<close>

definition call_send_eoi :: "spin \<Rightarrow> (cpu \<Rightarrow> cpu) \<Rightarrow> cpu \<times> kern \<Rightarrow> (cpu \<times> kern) run" where
  "call_send_eoi L J = (\<lambda>(c, k). runbind (send_eoi L k) (\<lambda>k'. Some (Inr (J c, k'))))"

definition call_schedule :: "spin \<Rightarrow> (cpu \<Rightarrow> cpu) \<Rightarrow> cpu \<times> kern \<Rightarrow> (cpu \<times> kern) run" where
  "call_schedule L J = (\<lambda>(c, k).
     runbind (schedule L (k_sched k) (c_regs c RDI)) (\<lambda>(s', r).
       let c' = J c in
       Some (Inr (c'\<lparr>c_regs := (c_regs c')(RAX := r)\<rparr>, k\<lparr>k_sched := s'\<rparr>))))"

definition timer_handler :: "spin \<Rightarrow> (cpu \<Rightarrow> cpu) \<Rightarrow> (cpu \<Rightarrow> cpu) \<Rightarrow> kern instr list" where
  "timer_handler L J1 J2 =
     [Push RAX, Push RCX, Push RDX, Push RBX, Push RBP, Push RSI, Push RDI,
      Push R8, Push R9, Push R10, Push R11, Push R12, Push R13, Push R14, Push R15,
      Call (call_send_eoi L J1),
      Mov RDI RSP,
      Call (call_schedule L J2),
      Mov RSP RAX,
      Pop R15, Pop R14, Pop R13, Pop R12, Pop R11, Pop R10, Pop R9, Pop R8,
      Pop RDI, Pop RSI, Pop RBP, Pop RBX, Pop RDX, Pop RCX, Pop RAX,
      Iretq]"

text \<open>The System V calling convention, for code that uses at most \<open>D\<close> bytes of stack.\<close>

definition callee_saved :: "reg set" where
  "callee_saved = {RBX, RBP, RSP, R12, R13, R14, R15}"

definition abi_ok :: "nat \<Rightarrow> (cpu \<Rightarrow> cpu) \<Rightarrow> bool" where
  "abi_ok D J \<longleftrightarrow>
     (\<forall>c. (\<forall>r\<in>callee_saved. c_regs (J c) r = c_regs c r) \<and>
        (\<forall>a. unat a < unat (c_regs c RSP) - D \<or> unat (c_regs c RSP) \<le> unat a \<longrightarrow>
           c_mem (J c) a = c_mem c a))"

text \<open>The whole interrupt.\<close>

record timer_config =
  t_spin :: spin
  t_eoi :: "cpu \<Rightarrow> cpu"
  t_schedule :: "cpu \<Rightarrow> cpu"
  t_rsp0 :: u64
  t_code_selector :: u16
  t_handler :: u64

definition timer_interrupt :: "timer_config \<Rightarrow> cpu \<times> kern \<Rightarrow> (cpu \<times> kern) run" where
  "timer_interrupt T = (\<lambda>(c, k).
     exec (timer_handler (t_spin T) (t_eoi T) (t_schedule T))
       (interrupt_entry (t_rsp0 T) (t_code_selector T) (t_handler T) c, k))"

section \<open>Saved contexts\<close>

text \<open>
  A saved context: fifteen registers and the interrupt stack frame, from the lowest address up.
  Its address is what \<open>schedule\<close> is given and returns.
\<close>

definition context_at :: "(u64 \<Rightarrow> u64) \<Rightarrow> u64 \<Rightarrow> cpu_context" where
  "context_at m p =
     \<lparr>c_regs = (\<lambda>r. case r of
        R15 \<Rightarrow> m p | R14 \<Rightarrow> m (p + 8) | R13 \<Rightarrow> m (p + 16) | R12 \<Rightarrow> m (p + 24) | R11 \<Rightarrow> m (p + 32)
      | R10 \<Rightarrow> m (p + 40) | R9 \<Rightarrow> m (p + 48) | R8 \<Rightarrow> m (p + 56) | RDI \<Rightarrow> m (p + 64)
      | RSI \<Rightarrow> m (p + 72) | RBP \<Rightarrow> m (p + 80) | RBX \<Rightarrow> m (p + 88) | RDX \<Rightarrow> m (p + 96)
      | RCX \<Rightarrow> m (p + 104) | RAX \<Rightarrow> m (p + 112) | RSP \<Rightarrow> m (p + 144)),
      c_rip = m (p + 120), c_cs = ucast (m (p + 128)), c_rflags = m (p + 136),
      c_ss = ucast (m (p + 152))\<rparr>"

definition save_addr :: "timer_config \<Rightarrow> cpu \<Rightarrow> u64" where
  "save_addr T c = frame_base (t_rsp0 T) c - 120"

definition lapic_ready :: "kern \<Rightarrow> bool" where
  "lapic_ready k \<longleftrightarrow>
     (case k_lapic k of None \<Rightarrow> False | Some lapic \<Rightarrow> length lapic = 252) \<and> \<not> k_lapic_locked k"

definition timer_ok :: "nat \<Rightarrow> timer_config \<Rightarrow> bool" where
  "timer_ok D T \<longleftrightarrow> spin_ok (t_spin T) \<and> abi_ok D (t_eoi T) \<and> abi_ok D (t_schedule T)"

text \<open>There is room on the stack for the context and for the calls of the handler.\<close>

definition stack_room :: "nat \<Rightarrow> u64 \<Rightarrow> bool" where
  "stack_room D p \<longleftrightarrow> D \<le> unat p \<and> unat p + 160 \<le> 2 ^ 64"

section \<open>Saving and restoring\<close>

definition saves :: "kern instr list" where
  "saves = [Push RAX, Push RCX, Push RDX, Push RBX, Push RBP, Push RSI, Push RDI,
      Push R8, Push R9, Push R10, Push R11, Push R12, Push R13, Push R14, Push R15]"

definition restores :: "kern instr list" where
  "restores = [Pop R15, Pop R14, Pop R13, Pop R12, Pop R11, Pop R10, Pop R9, Pop R8,
      Pop RDI, Pop RSI, Pop RBP, Pop RBX, Pop RDX, Pop RCX, Pop RAX, Iretq]"

lemma exec_append: "exec (is @ js) ck = runbind (exec is ck) (exec js)"
proof (induction "is" arbitrary: ck)
  case (Cons i "is")
  then have "exec (is @ js) = (\<lambda>ck. runbind (exec is ck) (exec js))" by (rule ext)
  then show ?case by (simp add: runbind_assoc)
qed simp

lemma ucast_16_64 [simp]: "ucast (ucast (a :: u16) :: u64) = a"
  by (rule bit_word_eqI) (auto simp: bit_simps)

lemma restores_exec:
  "\<exists>c'. exec restores (c, k) = Some (Inr (c', k)) \<and>
    context_of c' = context_at (c_mem c) (c_regs c RSP) \<and> c_mem c' = c_mem c"
  by (simp add: restores_def context_at_def Let_def cpu_context.truncate_def fun_eq_iff add.commute
      split: reg.split)


lemma slot_down: "(a :: u64) + b - c = a + (b - c)"
  by simp

lemma saves_exec:
  assumes "c_regs c RSP = p + 120"
  shows "\<exists>c'. exec saves (c, k) = Some (Inr (c', k)) \<and> c_regs c' = (c_regs c)(RSP := p) \<and>
    c_mem c' = (c_mem c)(p + 112 := c_regs c RAX, p + 104 := c_regs c RCX, p + 96 := c_regs c RDX,
      p + 88 := c_regs c RBX, p + 80 := c_regs c RBP, p + 72 := c_regs c RSI, p + 64 := c_regs c RDI,
      p + 56 := c_regs c R8, p + 48 := c_regs c R9, p + 40 := c_regs c R10, p + 32 := c_regs c R11,
      p + 24 := c_regs c R12, p + 16 := c_regs c R13, p + 8 := c_regs c R14, p := c_regs c R15)"
  by (simp add: saves_def Let_def assms slot_down)

lemma save_addr_base: "frame_base (t_rsp0 T) c = save_addr T c + 120"
  by (simp add: save_addr_def)

text \<open>After the pushes, the interrupted context is in memory at the address handed to \<open>schedule\<close>.\<close>

lemma entry_saves:
  fixes T :: timer_config and c :: cpu
  defines "p \<equiv> save_addr T c"
  shows "\<exists>c'. exec saves (interrupt_entry (t_rsp0 T) (t_code_selector T) (t_handler T) c, k) =
      Some (Inr (c', k)) \<and> c_regs c' RSP = p \<and> context_at (c_mem c') p = context_of c \<and>
    (\<forall>a. (\<forall>i<20. a \<noteq> p + 8 * of_nat i) \<longrightarrow> c_mem c' a = c_mem c a)"
proof -
  let ?e = "interrupt_entry (t_rsp0 T) (t_code_selector T) (t_handler T) c"
  have sp: "c_regs ?e RSP = p + 120" by (simp add: interrupt_entry_def Let_def save_addr_base p_def)
  have mem: "c_mem ?e = (c_mem c)(p + 152 := ucast (c_ss c), p + 144 := c_regs c RSP,
      p + 136 := c_rflags c, p + 128 := ucast (c_cs c), p + 120 := c_rip c)"
    by (simp add: interrupt_entry_def Let_def save_addr_base p_def [symmetric] add.assoc)
  have regs: "r \<noteq> RSP \<Longrightarrow> c_regs ?e r = c_regs c r" for r
    by (simp add: interrupt_entry_def Let_def)
  obtain c' where c': "exec saves (?e, k) = Some (Inr (c', k))" "c_regs c' = (c_regs ?e)(RSP := p)"
    "c_mem c' = (c_mem ?e)(p + 112 := c_regs ?e RAX, p + 104 := c_regs ?e RCX, p + 96 := c_regs ?e RDX,
      p + 88 := c_regs ?e RBX, p + 80 := c_regs ?e RBP, p + 72 := c_regs ?e RSI, p + 64 := c_regs ?e RDI,
      p + 56 := c_regs ?e R8, p + 48 := c_regs ?e R9, p + 40 := c_regs ?e R10, p + 32 := c_regs ?e R11,
      p + 24 := c_regs ?e R12, p + 16 := c_regs ?e R13, p + 8 := c_regs ?e R14, p := c_regs ?e R15)"
    using saves_exec [OF sp] by blast
  have "context_at (c_mem c') p = context_of c"
    unfolding c'(3) mem
    by (simp add: context_at_def cpu_context.truncate_def regs fun_eq_iff split: reg.split)
  moreover have "c_mem c' a = c_mem c a" if "\<forall>i<20. a \<noteq> p + 8 * of_nat i" for a
  proof -
    have n: "a \<noteq> p + 8 * of_nat i" if "i < 20" for i
      using that \<open>\<forall>i<20. a \<noteq> p + 8 * of_nat i\<close> by blast
    show ?thesis
      unfolding c'(3) mem
      using n [of 0] n [of 1] n [of 2] n [of 3] n [of 4] n [of 5] n [of 6] n [of 7] n [of 8] n [of 9]
        n [of 10] n [of 11] n [of 12] n [of 13] n [of 14] n [of 15] n [of 16] n [of 17] n [of 18] n [of 19]
      by simp
  qed
  ultimately show ?thesis using c' by auto
qed


lemma save_slots:
  assumes "stack_room D p" "unat a < unat p \<or> unat p + 160 \<le> unat a" "i < 20"
  shows "a \<noteq> p + 8 * of_nat i"
proof
  assume a: "a = p + 8 * of_nat i"
  have "unat (8 * of_nat i :: u64) = 8 * i"
    using assms(3) by (simp add: unat_mul_noovf unsigned_of_nat take_bit_nat_eq_self)
  then have "unat a = unat p + 8 * i"
    using a assms(1,3) by (simp add: stack_room_def unat_add_noovf)
  then show False using assms(2,3) by linarith
qed

lemma context_at_cong:
  assumes "stack_room D p" "\<And>a. unat p \<le> unat a \<Longrightarrow> unat a < unat p + 160 \<Longrightarrow> m a = m' a"
  shows "context_at m p = context_at m' p"
proof -
  have "m (p + 8 * of_nat i) = m' (p + 8 * of_nat i)" if "i < 20" for i
  proof (rule assms(2))
    have "unat (8 * of_nat i :: u64) = 8 * i"
      using that by (simp add: unat_mul_noovf unsigned_of_nat take_bit_nat_eq_self)
    then have "unat (p + 8 * of_nat i) = unat p + 8 * i"
      using assms(1) that by (simp add: stack_room_def unat_add_noovf)
    then show "unat p \<le> unat (p + 8 * of_nat i)" "unat (p + 8 * of_nat i) < unat p + 160"
      using that by simp_all
  qed
  note e = this
  show ?thesis
    using e [of 0] e [of 1] e [of 2] e [of 3] e [of 4] e [of 5] e [of 6] e [of 7] e [of 8] e [of 9]
      e [of 10] e [of 11] e [of 12] e [of 13] e [of 14] e [of 15] e [of 16] e [of 17] e [of 18] e [of 19]
    by (simp add: context_at_def fun_eq_iff split: reg.split)
qed

lemma send_eoi_ready:
  assumes "spin_ok L" "lapic_ready k"
  shows "\<exists>k'. send_eoi L k = Some (Inr k') \<and> k_sched k' = k_sched k \<and> lapic_ready k'"
  using assms by (auto simp: send_eoi_def lapic_ready_def spin_ok_def split: option.splits)

lemma timer_handler_split:
  "timer_handler L J1 J2 = saves @
     [Call (call_send_eoi L J1), Mov RDI RSP, Call (call_schedule L J2), Mov RSP RAX] @ restores"
  by (simp add: timer_handler_def saves_def restores_def)

lemma abi_ok_rsp: "abi_ok D J \<Longrightarrow> c_regs (J c) RSP = c_regs c RSP"
  by (simp add: abi_ok_def callee_saved_def)

lemma abi_ok_mem:
  "abi_ok D J \<Longrightarrow> unat a < unat (c_regs c RSP) - D \<or> unat (c_regs c RSP) \<le> unat a \<Longrightarrow>
    c_mem (J c) a = c_mem c a"
  unfolding abi_ok_def by blast

text \<open>One timer interrupt: what is saved, what is restored, and what else may change.\<close>

lemma timer_interrupt_switch:
  assumes T: "timer_ok D T" and k: "lapic_ready k" "sched_view (k_sched k) = Some v"
    and room: "stack_room D (save_addr T c)"
  shows "\<exists>c' k' v' r. timer_interrupt T (c, k) = Some (Inr (c', k')) \<and>
    rr_tick v (save_addr T c) = (v', r) \<and> sched_view (k_sched k') = Some v' \<and> lapic_ready k' \<and>
    context_at (c_mem c') (save_addr T c) = context_of c \<and>
    context_of c' = context_at (c_mem c') r \<and>
    (\<forall>a. unat a < unat (save_addr T c) - D \<or> unat (save_addr T c) + 160 \<le> unat a \<longrightarrow>
       c_mem c' a = c_mem c a)"
proof -
  let ?p = "save_addr T c"
  note ok = T [unfolded timer_ok_def]
  obtain c1 where c1: "exec saves (interrupt_entry (t_rsp0 T) (t_code_selector T) (t_handler T) c, k)
      = Some (Inr (c1, k))" "c_regs c1 RSP = ?p" "context_at (c_mem c1) ?p = context_of c"
    "\<forall>a. (\<forall>i<20. a \<noteq> ?p + 8 * of_nat i) \<longrightarrow> c_mem c1 a = c_mem c a"
    using entry_saves [of T c k] by auto
  obtain k1 where k1: "send_eoi (t_spin T) k = Some (Inr k1)" "k_sched k1 = k_sched k" "lapic_ready k1"
    using send_eoi_ready [OF _ k(1), of "t_spin T"] ok by blast
  let ?c2 = "t_eoi T c1" 
  let ?c3 = "?c2\<lparr>c_regs := (c_regs ?c2)(RDI := c_regs ?c2 RSP)\<rparr>"
  have p2: "c_regs ?c2 RSP = ?p" using abi_ok_rsp [of D "t_eoi T"] ok c1(2) by simp
  obtain s' v' r where s: "schedule (t_spin T) (k_sched k) ?p = Some (Inr (s', r))"
    "rr_tick v ?p = (v', r)" "sched_view s' = Some v'"
    using schedule_refines [OF _ k(2), of "t_spin T" ?p] ok by blast
  let ?c4 = "t_schedule T ?c3"
  let ?c5 = "?c4\<lparr>c_regs := (c_regs ?c4)(RAX := r, RSP := r)\<rparr>"
  obtain c' where c': "exec restores (?c5, k1\<lparr>k_sched := s'\<rparr>) = Some (Inr (c', k1\<lparr>k_sched := s'\<rparr>))"
    "context_of c' = context_at (c_mem ?c5) r" "c_mem c' = c_mem ?c4"
    using restores_exec [of ?c5 "k1\<lparr>k_sched := s'\<rparr>"] by auto
  have run: "timer_interrupt T (c, k) = Some (Inr (c', k1\<lparr>k_sched := s'\<rparr>))"
    using k1 s(1) c'(1) p2
    by (simp add: timer_interrupt_def timer_handler_split exec_append c1(1) call_send_eoi_def
        call_schedule_def Let_def)
  have p3: "c_regs ?c3 RSP = ?p" using p2 by simp
  have mem: "c_mem c' a = c_mem c1 a" if "unat a < unat ?p - D \<or> unat ?p \<le> unat a" for a
    using abi_ok_mem [of D "t_schedule T" a ?c3] abi_ok_mem [of D "t_eoi T" a c1] ok that c1(2) p3 c'(3)
    by simp
  have "context_at (c_mem c') ?p = context_of c"
    using context_at_cong [OF room, of "c_mem c'" "c_mem c1"] mem c1(3) by simp
  moreover have "c_mem c' a = c_mem c a" if "unat a < unat ?p - D \<or> unat ?p + 160 \<le> unat a" for a
  proof -
    have "c_mem c1 a = c_mem c a" using c1(4) save_slots [OF room, of a] that by force
    then show ?thesis using mem that by force
  qed
  moreover have "lapic_ready (k1\<lparr>k_sched := s'\<rparr>)" using k1(3) by (simp add: lapic_ready_def)
  ultimately show ?thesis using run s c'(2,3) by auto
qed


section \<open>Time slices\<close>

text \<open>
  A run: in each time slice the running process computes (a function on the CPU), then the timer
  interrupts it. The condition on a run under which the context saved at \<open>p\<close> is left alone: the
  other processes do not write to it, and the interrupts save elsewhere, on stacks with room.
\<close>

fun run_slices :: "timer_config \<Rightarrow> cpu \<times> kern \<Rightarrow> (cpu \<Rightarrow> cpu) list \<Rightarrow> (cpu \<times> kern) run" where
  "run_slices T ck [] = Some (Inr ck)"
| "run_slices T (c, k) (f # fs) =
     runbind (timer_interrupt T (f c, k)) (\<lambda>ck. run_slices T ck fs)"

definition in_context :: "u64 \<Rightarrow> u64 \<Rightarrow> bool" where
  "in_context p a \<longleftrightarrow> unat p \<le> unat a \<and> unat a < unat p + 160"

fun leaves_alone :: "nat \<Rightarrow> timer_config \<Rightarrow> u64 \<Rightarrow> cpu \<times> kern \<Rightarrow> (cpu \<Rightarrow> cpu) list \<Rightarrow> bool" where
  "leaves_alone D T p ck [] = True"
| "leaves_alone D T p (c, k) (f # fs) =
     ((\<forall>a. in_context p a \<longrightarrow> c_mem (f c) a = c_mem c a) \<and>
      stack_room D (save_addr T (f c)) \<and>
      (unat p + 160 \<le> unat (save_addr T (f c)) - D \<or> unat (save_addr T (f c)) + 160 \<le> unat p) \<and>
      (case timer_interrupt T (f c, k) of Some (Inr ck) \<Rightarrow> leaves_alone D T p ck fs | _ \<Rightarrow> True))"

lemma next_turn:
  fixes n :: nat
  assumes "cur < n" "i < n" "(cur + m) mod n = i" "m < n"
  shows "m = 0 \<longleftrightarrow> cur = i" "0 < m \<Longrightarrow> (Suc cur mod n + (m - 1)) mod n = i"
proof -
  show "m = 0 \<longleftrightarrow> cur = i"
    using assms by (cases "cur + m < n") (auto simp: le_mod_geq)
  show "(Suc cur mod n + (m - 1)) mod n = i" if "0 < m"
    using mod_add_left_eq [of "Suc cur" n "m - 1"] assms(3) that by simp
qed

lemma slices_resume:
  assumes T: "timer_ok D T" and p: "stack_room D p"
  shows "lapic_ready k \<Longrightarrow> sched_view (k_sched k) = Some (rs, cur) \<Longrightarrow> cur < length rs \<Longrightarrow>
    i < length rs \<Longrightarrow> rs ! i = p \<Longrightarrow> fs \<noteq> [] \<Longrightarrow> length fs < length rs \<Longrightarrow>
    (cur + length fs) mod length rs = i \<Longrightarrow> context_at (c_mem c) p = x \<Longrightarrow>
    leaves_alone D T p (c, k) fs \<Longrightarrow>
    \<exists>c' k'. run_slices T (c, k) fs = Some (Inr (c', k')) \<and> context_of c' = x"
proof (induction fs arbitrary: c k rs cur)
  case Nil
  then show ?case by simp
next
  case (Cons f fs)
  let ?q = "save_addr T (f c)"
  have alone: "\<And>a. in_context p a \<Longrightarrow> c_mem (f c) a = c_mem c a" "stack_room D ?q"
    "unat p + 160 \<le> unat ?q - D \<or> unat ?q + 160 \<le> unat p"
    using Cons.prems(10) by auto
  obtain c1 k1 v1 r where t: "timer_interrupt T (f c, k) = Some (Inr (c1, k1))"
    "rr_tick (rs, cur) ?q = (v1, r)" "sched_view (k_sched k1) = Some v1" "lapic_ready k1"
    "context_of c1 = context_at (c_mem c1) r"
    "\<And>a. unat a < unat ?q - D \<or> unat ?q + 160 \<le> unat a \<Longrightarrow> c_mem c1 a = c_mem (f c) a"
    using timer_interrupt_switch [OF T Cons.prems(1,2) alone(2)] by blast
  have kept: "context_at (c_mem c1) p = x"
  proof -
    have "c_mem c1 a = c_mem c a" if "unat p \<le> unat a" "unat a < unat p + 160" for a
      using t(6) [of a] alone(1) [of a] alone(3) that by (force simp: in_context_def)
    then show ?thesis using context_at_cong [OF p, of "c_mem c1" "c_mem c"] Cons.prems(9) by simp
  qed
  have cur: "cur \<noteq> i" and nxt: "(Suc cur mod length rs + length fs) mod length rs = i"
    using next_turn [OF Cons.prems(3,4,8,7)] by auto
  have v1: "v1 = (rs[cur := ?q], Suc cur mod length rs)" and r: "r = rs[cur := ?q] ! (Suc cur mod length rs)"
    using t(2) by (auto simp: Let_def)
  show ?case
  proof (cases "fs = []")
    case True
    then have "r = p" using nxt Cons.prems(3,4,5) cur r by simp
    then show ?thesis using t(1,5) kept True by simp
  next
    case False
    have "\<exists>c' k'. run_slices T (c1, k1) fs = Some (Inr (c', k')) \<and> context_of c' = x"
    proof (rule Cons.IH [of k1 "rs[cur := ?q]" "Suc cur mod length rs"])
      show "Suc cur mod length rs < length (rs[cur := ?q])"
        using Cons.prems(3) by (simp, intro mod_less_divisor) linarith
      show "leaves_alone D T p (c1, k1) fs" using Cons.prems(10) t(1) by simp
    qed (use False t(3,4) v1 Cons.prems cur nxt kept in auto)
    then show ?thesis using t(1) by simp
  qed
qed

section \<open>Properties\<close>

text \<open>
  C11: a context switch saves and restores everything. When the timer interrupts a live process,
  the handler returns with the whole context of the interrupted process (fifteen registers,
  instruction pointer, flags, stack pointer and segments) stored at the address that the scheduler
  records for it; the CPU then has exactly the context stored at the address that the scheduler
  recorded for the next process; and no memory changes but that context's slots and the stack
  below them.
\<close>

theorem timer_handler_switches:
  assumes "timer_ok D T" "lapic_ready k" "sched_view (k_sched k) = Some v"
    "stack_room D (save_addr T c)"
  shows "\<exists>c' k' v' r. timer_interrupt T (c, k) = Some (Inr (c', k')) \<and>
    rr_tick v (save_addr T c) = (v', r) \<and> sched_view (k_sched k') = Some v' \<and> lapic_ready k' \<and>
    context_at (c_mem c') (save_addr T c) = context_of c \<and>
    context_of c' = context_at (c_mem c') r \<and>
    (\<forall>a. unat a < unat (save_addr T c) - D \<or> unat (save_addr T c) + 160 \<le> unat a \<longrightarrow>
       c_mem c' a = c_mem c a)"
  using timer_interrupt_switch [OF assms] .

text \<open>A kernel thread at address 4, its stack pointer at 0x8000, and a configuration for it.\<close>

definition sample_cpu :: cpu where
  "sample_cpu =
     \<lparr>c_regs = (\<lambda>r. if r = RSP then 0x8000 else 7), c_rip = 4, c_cs = 8, c_rflags = 0x202, c_ss = 16,
      c_mem = (\<lambda>a. 0)\<rparr>"

definition sample_timer :: timer_config where
  "sample_timer =
     \<lparr>t_spin = spin_ref, t_eoi = (\<lambda>c. c), t_schedule = (\<lambda>c. c\<lparr>c_regs := (c_regs c)(RCX := 99)\<rparr>),
      t_rsp0 = 0x20000, t_code_selector = 8, t_handler = 0x100\<rparr>"

definition sample_kern :: kern where
  "sample_kern = \<lparr>k_lapic = Some (replicate 252 0), k_lapic_locked = False, k_sched = sample_sched\<rparr>"

lemma sample_timer_ok: "timer_ok 64 sample_timer"
  by (simp add: timer_ok_def sample_timer_def spin_ref_ok abi_ok_def callee_saved_def)

lemma sample_kern_ok: "lapic_ready sample_kern" "k_sched sample_kern = sample_sched"
  by (simp_all add: lapic_ready_def sample_kern_def)

lemma sample_save_addr: "save_addr sample_timer sample_cpu = 0x7f60"
  by (simp add: save_addr_def frame_base_def sample_timer_def sample_cpu_def)

theorem timer_handler_switches_witness:
  "\<exists>c' k' v' r. timer_interrupt sample_timer (sample_cpu, sample_kern) = Some (Inr (c', k')) \<and>
    rr_tick ([0x1000, 0, 0x3000], 1) 0x7f60 = (v', r) \<and>
    context_at (c_mem c') 0x7f60 = context_of sample_cpu \<and>
    context_of c' = context_at (c_mem c') 0x3000"
proof -
  have room: "stack_room 64 (save_addr sample_timer sample_cpu)"
    by (simp add: sample_save_addr stack_room_def)
  have v: "sched_view (k_sched sample_kern) = Some ([0x1000, 0, 0x3000], 1)"
    by (simp add: sample_kern_ok sample_sched_view)
  show ?thesis
    using timer_handler_switches [OF sample_timer_ok sample_kern_ok(1) v room]
    by (auto simp: sample_save_addr Let_def)
qed

text \<open>
  C5: preemption is transparent. With \<open>n\<close> processes, a process that is interrupted is resumed by
  the \<open>n\<close>-th timer interrupt with the identical context, whatever the other processes do in their
  time slices, as long as nobody writes to its saved context and every stack has room.
\<close>

theorem context_switch_transparent:
  assumes "timer_ok D T" "lapic_ready k" "sched_view (k_sched k) = Some (rs, cur)"
    "stack_room D (save_addr T c)" "length rs = Suc (length fs)"
    "\<And>c1 k1. timer_interrupt T (c, k) = Some (Inr (c1, k1)) \<Longrightarrow>
       leaves_alone D T (save_addr T c) (c1, k1) fs"
  shows "\<exists>c' k'. run_slices T (c, k) ((\<lambda>c. c) # fs) = Some (Inr (c', k')) \<and>
    context_of c' = context_of c"
proof -
  let ?p = "save_addr T c" and ?n = "length rs"
  have cur: "cur < ?n" using assms(3) by (auto simp: sched_view_iff sched_state_def)
  obtain c1 k1 v1 r where t: "timer_interrupt T (c, k) = Some (Inr (c1, k1))"
    "rr_tick (rs, cur) ?p = (v1, r)" "sched_view (k_sched k1) = Some v1" "lapic_ready k1"
    "context_at (c_mem c1) ?p = context_of c" "context_of c1 = context_at (c_mem c1) r"
    using timer_interrupt_switch [OF assms(1-4)] by blast
  have v1: "v1 = (rs[cur := ?p], Suc cur mod ?n)" and r: "r = rs[cur := ?p] ! (Suc cur mod ?n)"
    using t(2) by (auto simp: Let_def)
  show ?thesis
  proof (cases "fs = []")
    case True
    then have "r = ?p" using assms(5) cur r by simp
    then show ?thesis using True t by simp
  next
    case False
    have home: "(Suc cur mod ?n + length fs) mod ?n = cur"
    proof -
      have "Suc cur + length fs = cur + ?n" using assms(5) by simp
      then show ?thesis
        using mod_add_left_eq [of "Suc cur" ?n "length fs"] cur by (simp only: mod_add_self2 mod_less)
    qed
    have "\<exists>c' k'. run_slices T (c1, k1) fs = Some (Inr (c', k')) \<and> context_of c' = context_of c"
    proof (rule slices_resume [OF assms(1,4), of k1 "rs[cur := ?p]" "Suc cur mod ?n" cur])
      show "Suc cur mod ?n < length (rs[cur := ?p])"
        using cur by (simp, intro mod_less_divisor) linarith
    qed (use False t v1 cur home assms(5) assms(6) [OF t(1)] in auto)
    then show ?thesis using t(1) by simp
  qed
qed

text \<open>A kernel thread that runs on its own stack.\<close>

definition kernel_slice :: "u64 \<Rightarrow> cpu \<Rightarrow> cpu" where
  "kernel_slice sp c = c\<lparr>c_regs := (c_regs c)(RSP := sp, RAX := c_regs c RAX + 1), c_cs := 8\<rparr>"

lemma kernel_slice_addr:
  "save_addr sample_timer (kernel_slice 0x4000 c) = 0x3f60"
  "save_addr sample_timer (kernel_slice 0x2000 c) = 0x1f60"
  by (simp_all add: save_addr_def frame_base_def sample_timer_def kernel_slice_def)

theorem context_switch_transparent_witness:
  "\<exists>c' k'. run_slices sample_timer (sample_cpu, sample_kern)
      [\<lambda>c. c, kernel_slice 0x4000, kernel_slice 0x2000] = Some (Inr (c', k')) \<and>
    context_of c' = context_of sample_cpu"
proof -
  have room: "stack_room 64 (save_addr sample_timer sample_cpu)"
    by (simp add: sample_save_addr stack_room_def)
  have v: "sched_view (k_sched sample_kern) = Some ([0x1000, 0, 0x3000], 1)"
    by (simp add: sample_kern_ok sample_sched_view)
  have mem: "c_mem (kernel_slice sp c) = c_mem c" for sp c by (simp add: kernel_slice_def)
  have "leaves_alone 64 sample_timer (save_addr sample_timer sample_cpu) (c, k)
      [kernel_slice 0x4000, kernel_slice 0x2000]" for c k
    by (auto simp: mem kernel_slice_addr sample_save_addr stack_room_def split: option.split sum.split)
  then show ?thesis
    using context_switch_transparent [OF sample_timer_ok sample_kern_ok(1) v room] by simp
qed

text \<open>
  C37: user processes share one kernel stack. The timer interrupt saves every process that runs in
  ring 3 at the same address, below the stack \<open>privilege_stack_table[0]\<close> of the only task state
  segment: interrupting a second user process replaces the saved context of the first, whose
  saved stack pointer now leads to the context of the second.
\<close>

theorem user_contexts_overwritten:
  assumes "timer_ok D T" "lapic_ready k" "sched_view (k_sched k) = Some v"
    "stack_room D (save_addr T c2)" "c_cs c1 AND 3 = 3" "c_cs c2 AND 3 = 3"
  shows "\<exists>c' k'. timer_interrupt T (c2, k) = Some (Inr (c', k')) \<and>
    context_at (c_mem c') (save_addr T c1) = context_of c2"
proof -
  have "save_addr T c1 = save_addr T c2" using assms(5,6) by (simp add: save_addr_def frame_base_def)
  then show ?thesis using timer_interrupt_switch [OF assms(1-4)] by auto
qed

definition user_cpu :: "u64 \<Rightarrow> cpu" where
  "user_cpu pc = sample_cpu\<lparr>c_rip := pc, c_cs := 0x33, c_ss := 0x2b\<rparr>"

theorem user_contexts_overwritten_witness:
  "\<exists>c' k'. timer_interrupt sample_timer (user_cpu 0x402000, sample_kern) = Some (Inr (c', k')) \<and>
    context_at (c_mem c') (save_addr sample_timer (user_cpu 0x401000)) =
      context_of (user_cpu 0x402000)"
proof -
  have room: "stack_room 64 (save_addr sample_timer (user_cpu 0x402000))"
    by (simp add: save_addr_def frame_base_def sample_timer_def user_cpu_def stack_room_def)
  have v: "sched_view (k_sched sample_kern) = Some ([0x1000, 0, 0x3000], 1)"
    by (simp add: sample_kern_ok sample_sched_view)
  show ?thesis
    using user_contexts_overwritten [OF sample_timer_ok sample_kern_ok(1) v room, of "user_cpu 0x401000"]
    by (simp add: user_cpu_def)
qed

end
