(* ===== verification/Syscall_Entry.thy ===== *)
theory Syscall_Entry
  imports Context Syscall
begin

text \<open>
  The entry of system calls: the naked function \<open>syscall_entry\<close> of \<open>kernel/src/syscall.rs\<close>, on the
  CPU of the theory \<open>Context\<close>. It runs on the user's stack, moves the user's registers to those of
  the C calling convention, calls \<open>syscall_handler\<close> and returns to the user.
\<close>

section \<open>The instructions\<close>

text \<open>
  The instruction \<open>syscall\<close>: the address of the next instruction goes to \<open>rcx\<close>, the flags to \<open>r11\<close>,
  and the CPU continues at the address in LSTAR with the kernel's segments; the flags in the
  register FMASK are cleared.
\<close>

definition syscall_instruction :: "u64 \<Rightarrow> u64 \<Rightarrow> u16 \<Rightarrow> u16 \<Rightarrow> cpu \<Rightarrow> cpu" where
  "syscall_instruction lstar_addr fmask cs ss c =
     c\<lparr>c_regs := (c_regs c)(RCX := c_rip c, R11 := c_rflags c), c_rip := lstar_addr,
       c_rflags := c_rflags c AND NOT fmask, c_cs := cs, c_ss := ss\<rparr>"

text \<open>
  The call of \<open>syscall_handler\<close>: six arguments in registers, the seventh on top of the stack.
\<close>

definition call_syscall_handler ::
  "('m, 'b, 'q, 'u) sys_ops \<Rightarrow> (cpu \<Rightarrow> cpu) \<Rightarrow> cpu \<times> ('m, 'b, 'q, 'u) sysk \<Rightarrow>
   (cpu \<times> ('m, 'b, 'q, 'u) sysk) run" where
  "call_syscall_handler S J = (\<lambda>(c, k).
     runbind (syscall_handler S k (c_regs c RDI) (c_regs c RSI) (c_regs c RDX) (c_regs c RCX)
                (c_regs c R8) (c_regs c R9) (c_mem c (c_regs c RSP)))
       (\<lambda>k'. Some (Inr (J c, k'))))"

definition syscall_entry ::
  "('m, 'b, 'q, 'u) sys_ops \<Rightarrow> (cpu \<Rightarrow> cpu) \<Rightarrow> u16 \<Rightarrow> u16 \<Rightarrow> ('m, 'b, 'q, 'u) sysk instr list" where
  "syscall_entry S J cs ss =
     [Push RBP, Push R15, Push R14, Push R13, Push R12, Push R11, Push RCX,
      Push R9,
      Mov R9 R8, Mov R8 R10, Mov RCX RDX, Mov RDX RSI, Mov RSI RDI, Mov RDI RAX,
      Call (call_syscall_handler S J),
      Pop RAX,
      Pop RCX, Pop R11, Pop R12, Pop R13, Pop R14, Pop R15, Pop RBP,
      Sysretq cs ss]"

text \<open>
  What the calling convention promises of the compiled handler: the callee-saved registers, and the
  seven slots of the caller above its stack argument (a buffer of the user lies elsewhere).
\<close>

definition handler_abi_ok :: "(cpu \<Rightarrow> cpu) \<Rightarrow> bool" where
  "handler_abi_ok J \<longleftrightarrow>
     (\<forall>c. (\<forall>r\<in>callee_saved. c_regs (J c) r = c_regs c r) \<and>
        (\<forall>i\<in>{8, 16, 24, 32, 40, 48, 56}. c_mem (J c) (c_regs c RSP + i) = c_mem c (c_regs c RSP + i)))"

section \<open>Properties\<close>

lemma handler_abi_regs:
  assumes "handler_abi_ok J"
  shows "c_regs (J c) RBX = c_regs c RBX" "c_regs (J c) RSP = c_regs c RSP"
  using assms by (simp_all add: handler_abi_ok_def callee_saved_def)

lemma handler_abi_slots:
  assumes "handler_abi_ok J" "c_regs c RSP = q"
  shows "c_mem (J c) (q + 8) = c_mem c (q + 8)" "c_mem (J c) (q + 16) = c_mem c (q + 16)"
    "c_mem (J c) (q + 24) = c_mem c (q + 24)" "c_mem (J c) (q + 32) = c_mem c (q + 32)"
    "c_mem (J c) (q + 40) = c_mem c (q + 40)" "c_mem (J c) (q + 48) = c_mem c (q + 48)"
    "c_mem (J c) (q + 56) = c_mem c (q + 56)"
  using assms by (auto simp: handler_abi_ok_def)

text \<open>
  C30: the system call convention. A user's \<open>syscall\<close> instruction runs the handler with the number in
  \<open>rax\<close> and the arguments in \<open>rdi\<close>, \<open>rsi\<close>, \<open>rdx\<close>, \<open>r10\<close>, \<open>r8\<close> and \<open>r9\<close>. When the handler returns, the user
  continues after the instruction, in user mode, with its stack pointer, \<open>rbx\<close>, \<open>rbp\<close> and \<open>r12\<close> to
  \<open>r15\<close>, and its flags (up to the bits that \<open>sysret\<close> forces).
\<close>

theorem syscall_entry_convention:
  assumes "handler_abi_ok J"
    "syscall_handler S k (c_regs c RAX) (c_regs c RDI) (c_regs c RSI) (c_regs c RDX) (c_regs c R10)
       (c_regs c R8) (c_regs c R9) = Some (Inr k')"
  shows "\<exists>c'. exec (syscall_entry S J ucs uss)
      (syscall_instruction lstar_addr fmask kcs kss c, k) = Some (Inr (c', k')) \<and>
    c_rip c' = c_rip c \<and> c_cs c' = ucs \<and> c_ss c' = uss \<and>
    c_rflags c' = (c_rflags c AND 0x3C7FD7) OR 2 \<and>
    (\<forall>r\<in>callee_saved. c_regs c' r = c_regs c r)"
proof -
  define p where "p = c_regs c RSP - 64"
  have sp: "c_regs c RSP = p + 64" by (simp add: p_def)
  show ?thesis
    using assms(2)
    by (simp add: handler_abi_regs [OF assms(1)] handler_abi_slots [OF assms(1)] syscall_entry_def
        syscall_instruction_def call_syscall_handler_def Let_def sp slot_down callee_saved_def add.assoc add.commute [of _ p])
qed

text \<open>A user that asks for the unused file descriptor 7, on a handler that clobbers \<open>rdi\<close> and \<open>rax\<close>.\<close>

definition user_call :: cpu where
  "user_call =
     \<lparr>c_regs = (\<lambda>r. if r = RSP then 0x1ff000 else if r = RDI then 7 else if r = RAX then 1 else 5),
      c_rip = 0x401002, c_cs = 0x33, c_rflags = 0x202, c_ss = 0x2b, c_mem = (\<lambda>a. 0)\<rparr>"

definition clobbering :: "cpu \<Rightarrow> cpu" where
  "clobbering c = c\<lparr>c_regs := (c_regs c)(RDI := 0, RAX := 0)\<rparr>"

theorem syscall_entry_convention_witness:
  "\<exists>c'. exec (syscall_entry sys_ref clobbering 0x33 0x2b)
      (syscall_instruction 0xffffffff80010000 0 8 0x10 user_call, sample_sys) =
      Some (Inr (c', sample_sys)) \<and>
    c_rip c' = 0x401002 \<and> c_regs c' RSP = 0x1ff000 \<and> c_regs c' RBP = 5 \<and> c_rflags c' = 0x202"
proof -
  have j: "handler_abi_ok clobbering"
    by (auto simp: handler_abi_ok_def clobbering_def callee_saved_def)
  have h: "syscall_handler sys_ref sample_sys (c_regs user_call RAX) (c_regs user_call RDI)
      (c_regs user_call RSI) (c_regs user_call RDX) (c_regs user_call R10)
      (c_regs user_call R8) (c_regs user_call R9) = Some (Inr sample_sys)"
    by (simp add: write_syscall_unfold user_call_def)
  show ?thesis
    using syscall_entry_convention [OF j h, of "0x33" "0x2b" "0xffffffff80010000" 0 8 "0x10"]
    by (auto simp: callee_saved_def user_call_def)
qed

end
