(* ===== verification/Segments.thy ===== *)
theory Segments
  imports X86_Addr
begin

text \<open>
  Segments: \<open>kernel/src/gdt.rs\<close> and the part of \<open>kernel/src/syscall.rs\<close> that programs the system call
  registers. The descriptor table and the register STAR are code of the crate \<open>x86_64\<close>, so
  parameters; the scheduler writes the selectors as constants, which must be those of the table.
\<close>

section \<open>The crate's descriptor table\<close>

datatype descriptor =
    KernelCode
  | KernelData
  | UserData
  | UserCode
  | TssSegment

record 'g gdt_ops =
  gdt_new :: 'g
  gdt_append :: "'g \<Rightarrow> descriptor \<Rightarrow> (u16 \<times> 'g) res"

fun slots :: "descriptor \<Rightarrow> nat" where
  "slots TssSegment = 2"
| "slots _ = 1"

fun ring :: "descriptor \<Rightarrow> nat" where
  "ring UserData = 3"
| "ring UserCode = 3"
| "ring _ = 0"

text \<open>\<open>SegmentSelector::new(index, rpl)\<close>: the index above three bits, two of them the ring.\<close>

definition segment_selector :: "nat \<Rightarrow> nat \<Rightarrow> u16" where
  "segment_selector i rpl = of_nat (8 * i + rpl)"

text \<open>
  The documented behaviour: a new table holds the null descriptor, it has room for eight entries, a
  system segment takes two, and \<open>append\<close> returns the selector of the first entry it used, with the
  descriptor's privilege level.
\<close>

definition gdt_ok :: "'g gdt_ops \<Rightarrow> ('g \<Rightarrow> nat) \<Rightarrow> bool" where
  "gdt_ok G used \<longleftrightarrow>
     used (gdt_new G) = 1 \<and>
     (\<forall>g d. used g + slots d \<le> 8 \<longrightarrow>
        (\<exists>g'. gdt_append G g d = Inr (segment_selector (used g) (ring d), g') \<and>
           used g' = used g + slots d)) \<and>
     (\<forall>g d. 8 < used g + slots d \<longrightarrow> (\<exists>e. gdt_append G g d = Inl e))"

definition gdt_ref :: "nat gdt_ops" where
  "gdt_ref =
     \<lparr>gdt_new = 1,
      gdt_append = (\<lambda>n d. if n + slots d \<le> 8 then Inr (segment_selector n (ring d), n + slots d)
                          else Inl ExternalPanic)\<rparr>"

section \<open>The kernel's tables\<close>

record selectors =
  code_selector :: u16
  data_selector :: u16
  tss_selector :: u16
  user_data_selector :: u16
  user_code_selector :: u16

definition gdt_build :: "'g gdt_ops \<Rightarrow> ('g \<times> selectors) res" where
  "gdt_build G =
     rbind (gdt_append G (gdt_new G) KernelCode) (\<lambda>(code, g1).
     rbind (gdt_append G g1 KernelData) (\<lambda>(data, g2).
     rbind (gdt_append G g2 TssSegment) (\<lambda>(tss, g3).
     rbind (gdt_append G g3 UserData) (\<lambda>(user_data, g4).
     rbind (gdt_append G g4 UserCode) (\<lambda>(user_code, g5).
       Inr (g5, \<lparr>code_selector = code, data_selector = data, tss_selector = tss,
                 user_data_selector = user_data, user_code_selector = user_code\<rparr>))))))"

text \<open>
  The task state segment: the addresses of the two static stacks are those the linker gives them.
\<close>

record tss =
  privilege_stack_table :: "u64 list"
  interrupt_stack_table :: "u64 list"

definition DOUBLE_FAULT_IST_INDEX :: nat where
  "DOUBLE_FAULT_IST_INDEX = 0"

definition tss_build :: "x86_addr \<Rightarrow> u64 \<Rightarrow> u64 \<Rightarrow> tss res" where
  "tss_build X stack1 stack2 =
     rbind (virt_addr_new X stack1) (\<lambda>stack_start1.
     rbind (virt_addr_add X stack_start1 (4096 * 5)) (\<lambda>end1.
     rbind (virt_addr_new X stack2) (\<lambda>stack_start2.
     rbind (virt_addr_add X stack_start2 (4096 * 5)) (\<lambda>end2.
       Inr \<lparr>privilege_stack_table = (replicate 3 0)[0 := end1],
            interrupt_stack_table = (replicate 7 0)[DOUBLE_FAULT_IST_INDEX := end2]\<rparr>))))"

record segment_registers =
  sr_cs :: u16
  sr_es :: u16
  sr_ss :: u16
  sr_ds :: u16
  sr_fs :: u16
  sr_gs :: u16
  sr_tr :: u16

definition gdt_init :: "selectors \<Rightarrow> segment_registers \<Rightarrow> segment_registers" where
  "gdt_init sel r =
     r\<lparr>sr_cs := code_selector sel, sr_es := data_selector sel, sr_ss := data_selector sel,
       sr_ds := data_selector sel, sr_fs := data_selector sel, sr_gs := data_selector sel,
       sr_tr := tss_selector sel\<rparr>"

section \<open>The system call registers\<close>

text \<open>
  \<open>syscall::init\<close>: \<open>Star::write\<close> is a parameter that returns whether it accepts the selectors. As
  documented it accepts them exactly if each pair has the offset that \<open>sysret\<close> and \<open>syscall\<close>
  require, and the rings are 3 and 0. The frame allocator's cell may be initialised only once. The
  register FMASK, which says what flags a system call clears, is written nowhere in the kernel.
\<close>

type_synonym star_write = "u16 \<Rightarrow> u16 \<Rightarrow> u16 \<Rightarrow> u16 \<Rightarrow> bool"

definition star_ok :: "star_write \<Rightarrow> bool" where
  "star_ok W \<longleftrightarrow>
     (\<forall>cs_sysret ss_sysret cs_syscall ss_syscall.
        W cs_sysret ss_sysret cs_syscall ss_syscall \<longleftrightarrow>
        cs_sysret - 16 = ss_sysret - 8 \<and> cs_syscall = ss_syscall - 8 \<and>
        ss_sysret AND 3 = 3 \<and> ss_syscall AND 3 = 0)"

record 'f msr =
  efer :: u64
  lstar :: u64
  star :: "(u16 \<times> u16 \<times> u16 \<times> u16) option"
  fmask :: u64
  fs_base :: u64
  frame_allocator_cell :: "'f option"

definition syscall_init ::
  "x86_addr \<Rightarrow> star_write \<Rightarrow> selectors \<Rightarrow> u64 \<Rightarrow> 'f \<Rightarrow> 'f msr \<Rightarrow> 'f msr res" where
  "syscall_init X W sel syscall_entry frame_allocator r =
     (let r1 = r\<lparr>efer := efer r OR 1\<rparr> in
      rbind (virt_addr_new X syscall_entry) (\<lambda>entry.
      let r2 = r1\<lparr>lstar := entry\<rparr> in
      if \<not> W (user_code_selector sel) (user_data_selector sel) (code_selector sel) (data_selector sel)
      then Inl UnwrapFailed
      else
        let r3 = r2\<lparr>star := Some (user_code_selector sel, user_data_selector sel,
                                  code_selector sel, data_selector sel)\<rparr> in
        rbind (virt_addr_new X 0x1fc000) (\<lambda>fs.
        let r4 = r3\<lparr>fs_base := fs\<rparr> in
        case frame_allocator_cell r4 of
          Some _ \<Rightarrow> Inl UnwrapFailed
        | None \<Rightarrow> Inr (r4\<lparr>frame_allocator_cell := Some frame_allocator\<rparr>))))"

section \<open>Lemmas and properties\<close>

lemma gdt_ref_ok: "gdt_ok gdt_ref (\<lambda>n. n)"
  by (simp add: gdt_ok_def gdt_ref_def)

lemma gdt_append_room:
  assumes "gdt_ok G used" "used g = n" "n + slots d \<le> 8"
  shows "\<exists>g'. gdt_append G g d = Inr (segment_selector n (ring d), g') \<and> used g' = n + slots d"
  using assms unfolding gdt_ok_def by blast

definition star_ref :: star_write where
  "star_ref cs_sysret ss_sysret cs_syscall ss_syscall \<longleftrightarrow>
     cs_sysret - 16 = ss_sysret - 8 \<and> cs_syscall = ss_syscall - 8 \<and>
     ss_sysret AND 3 = 3 \<and> ss_syscall AND 3 = 0"

lemma star_ref_ok: "star_ok star_ref"
  by (simp add: star_ok_def star_ref_def)

lemma gdt_build_selectors:
  assumes G: "gdt_ok G used"
  shows "\<exists>g. gdt_build G = Inr (g, \<lparr>code_selector = segment_selector 1 0,
    data_selector = segment_selector 2 0, tss_selector = segment_selector 3 0,
    user_data_selector = segment_selector 5 3, user_code_selector = segment_selector 6 3\<rparr>)"
proof -
  have n: "used (gdt_new G) = 1" using G by (simp add: gdt_ok_def)
  obtain g1 where 1: "gdt_append G (gdt_new G) KernelCode = Inr (segment_selector 1 0, g1)" "used g1 = 2"
    using gdt_append_room [OF G n, of KernelCode] by auto
  obtain g2 where 2: "gdt_append G g1 KernelData = Inr (segment_selector 2 0, g2)" "used g2 = 3"
    using gdt_append_room [OF G 1(2), of KernelData] by auto
  obtain g3 where 3: "gdt_append G g2 TssSegment = Inr (segment_selector 3 0, g3)" "used g3 = 5"
    using gdt_append_room [OF G 2(2), of TssSegment] by auto
  obtain g4 where 4: "gdt_append G g3 UserData = Inr (segment_selector 5 3, g4)" "used g4 = 6"
    using gdt_append_room [OF G 3(2), of UserData] by auto
  obtain g5 where 5: "gdt_append G g4 UserCode = Inr (segment_selector 6 3, g5)" "used g5 = 7"
    using gdt_append_room [OF G 4(2), of UserCode] by auto
  show ?thesis using 1 2 3 4 5 by (simp add: gdt_build_def)
qed

lemma syscall_init_ok:
  assumes "star_ok W" "x86_addr_ok X" "canonical entry" "frame_allocator_cell r = None"
    "user_code_selector sel = 0x33" "user_data_selector sel = 0x2b" "code_selector sel = 8"
    "data_selector sel = 0x10"
  shows "syscall_init X W sel entry fa r =
    Inr (r\<lparr>efer := efer r OR 1, lstar := entry, star := Some (0x33, 0x2b, 8, 0x10), fs_base := 0x1fc000,
           frame_allocator_cell := Some fa\<rparr>)"
proof -
  have "W 0x33 0x2b 8 0x10" using assms(1) by (simp add: star_ok_def)
  moreover have "virt_addr_new X 0x1fc000 = Inr 0x1fc000" "virt_addr_new X entry = Inr entry"
    using assms(2,3) by (simp_all add: virt_addr_new_ok canonical_def)
  ultimately show ?thesis using assms(4-) by (simp add: syscall_init_def Let_def)
qed

lemma tss_build_ok:
  assumes "x86_addr_ok X" "canonical a" "canonical (a + 0x5000)" "unat a + 0x5000 < 2 ^ 64"
    "canonical b" "canonical (b + 0x5000)" "unat b + 0x5000 < 2 ^ 64"
  shows "tss_build X a b = Inr \<lparr>privilege_stack_table = (replicate 3 0)[0 := a + 0x5000],
      interrupt_stack_table = (replicate 7 0)[DOUBLE_FAULT_IST_INDEX := b + 0x5000]\<rparr>"
proof -
  have "virt_addr_add X a 0x5000 = Inr (a + 0x5000)" "virt_addr_add X b 0x5000 = Inr (b + 0x5000)"
    using assms by (simp_all add: virt_addr_add_ok)
  then show ?thesis using assms(1,2,5) by (simp add: tss_build_def virt_addr_new_ok)
qed

text \<open>
  The segment setup: the selectors of the descriptor table, the registers that \<open>gdt::init\<close> loads, and
  what \<open>syscall::init\<close> does with them.
\<close>

lemma segments_setup:
  fixes regs :: segment_registers
  assumes "gdt_ok G used" "star_ok W" "x86_addr_ok X" "canonical entry"
    "frame_allocator_cell r = None"
  shows "\<exists>g sel. gdt_build G = Inr (g, sel) \<and>
    code_selector sel = segment_selector 1 0 \<and> data_selector sel = segment_selector 2 0 \<and>
    user_code_selector sel = segment_selector 6 3 \<and> user_data_selector sel = segment_selector 5 3 \<and>
    gdt_init sel regs = \<lparr>sr_cs = 8, sr_es = 0x10, sr_ss = 0x10, sr_ds = 0x10, sr_fs = 0x10,
      sr_gs = 0x10, sr_tr = 0x18\<rparr> \<and>
    syscall_init X W sel entry fa r =
      Inr (r\<lparr>efer := efer r OR 1, lstar := entry,
             star := Some (0x33, 0x2b, 8, 0x10), fs_base := 0x1fc000,
             frame_allocator_cell := Some fa\<rparr>)"
proof -
  obtain g where g: "gdt_build G = Inr (g, \<lparr>code_selector = segment_selector 1 0,
    data_selector = segment_selector 2 0, tss_selector = segment_selector 3 0,
    user_data_selector = segment_selector 5 3, user_code_selector = segment_selector 6 3\<rparr>)"
    using gdt_build_selectors [OF assms(1)] by blast
  then show ?thesis
    using syscall_init_ok [OF assms(2-5)] by (simp add: gdt_init_def segment_selector_def)
qed

text \<open>
  The stacks of the task state segment. Both entries point to the end of their own 20 KiB
  stack, so a push stays inside it, and the double fault handler has a stack of its own.
\<close>

theorem tss_stacks:
  assumes "x86_addr_ok X" "canonical a" "canonical (a + 0x5000)" "unat a + 0x5000 < 2 ^ 64"
    "canonical b" "canonical (b + 0x5000)" "unat b + 0x5000 < 2 ^ 64"
    "disjoint_blocks (unat a, 0x5000) (unat b, 0x5000)"
  shows "\<exists>t. tss_build X a b = Inr t \<and> length (privilege_stack_table t) = 3 \<and>
    length (interrupt_stack_table t) = 7 \<and>
    unat (privilege_stack_table t ! 0) = unat a + 0x5000 \<and>
    unat (interrupt_stack_table t ! DOUBLE_FAULT_IST_INDEX) = unat b + 0x5000 \<and>
    privilege_stack_table t ! 0 \<noteq> interrupt_stack_table t ! DOUBLE_FAULT_IST_INDEX"
proof -
  have s: "unat (a + 0x5000) = unat a + 0x5000" "unat (b + 0x5000) = unat b + 0x5000"
    using assms(4,7) by (simp_all add: unat_add_noovf)
  note tss_build_ok [OF assms(1-7)]
  moreover have "unat a \<noteq> unat b" using assms(8) by (auto simp: disjoint_blocks_def)
  then have "a + 0x5000 \<noteq> b + 0x5000" using s by auto
  ultimately show ?thesis using s by (simp add: DOUBLE_FAULT_IST_INDEX_def)
qed

theorem tss_stacks_witness:
  "\<exists>t. tss_build x86_ref 0xffffffff80100000 0xffffffff80105000 = Inr t \<and>
    privilege_stack_table t ! 0 \<noteq> interrupt_stack_table t ! DOUBLE_FAULT_IST_INDEX"
  using tss_stacks [OF x86_ref_ok, of "0xffffffff80100000" "0xffffffff80105000"]
  by (auto simp: canonical_def disjoint_blocks_def)

end
