(* ===== verification/Loader.thy ===== *)
theory Loader
  imports Elf Paging Context Segments
begin

text \<open>
  Loading a user program: \<open>add_user_process\<close> of \<open>kernel/src/sched.rs\<close>. It maps and fills the segments
  of the ELF file that the boot loader put in memory, maps the user stack, writes the stack frame
  that the first context switch to the process restores, and appends the process to the list. The
  memory at an address that is not mapped yet stands for what the frame mapped there will hold.
\<close>

section \<open>Definitions\<close>

definition copy_nonoverlapping :: "bytes_mem \<Rightarrow> u64 \<Rightarrow> u64 \<Rightarrow> nat \<Rightarrow> bytes_mem" where
  "copy_nonoverlapping m src dst n = (\<lambda>a. if unat (a - dst) < n then m (src + (a - dst)) else m a)"

definition write_bytes :: "bytes_mem \<Rightarrow> u64 \<Rightarrow> u8 \<Rightarrow> nat \<Rightarrow> bytes_mem" where
  "write_bytes m dst v n = (\<lambda>a. if unat (a - dst) < n then v else m a)"

definition segment_pages :: "x86_addr \<Rightarrow> elf_program \<Rightarrow> u64 list res" where
  "segment_pages X p =
     rbind (virt_addr_new X (p_vaddr p)) (\<lambda>start.
     rbind (add_chk (p_vaddr p) (p_memsz p)) (\<lambda>e.
     rbind (sub_chk e 1) (\<lambda>e'.
     rbind (virt_addr_new X e') (\<lambda>end_addr.
       Inr (page_range_inclusive X (page_containing X start) (page_containing X end_addr))))))"

definition user_flags :: "page_flag set" where
  "user_flags = {PRESENT, WRITABLE, USER_ACCESSIBLE}"

text \<open>The body of the loop over the program headers; the error is the \<open>MapToError\<close> returned.\<close>

definition load_segment ::
  "x86_addr \<Rightarrow> ('m, 's) mapper \<Rightarrow> 's frame_alloc \<Rightarrow> u64 \<Rightarrow> elf_program \<Rightarrow> 'm \<times> 's \<times> bytes_mem \<Rightarrow>
   ((map_error + unit) \<times> 'm \<times> 's \<times> bytes_mem) res" where
  "load_segment X M fa efi p = (\<lambda>(m, s, mem).
     if p_type p = 1
     then rbind (segment_pages X p) (\<lambda>page_range.
          rbind (map_range M fa user_flags m s page_range) (\<lambda>(r, m', s').
            case r of
              Inl e \<Rightarrow> Inr (Inl e, m', s', mem)
            | Inr _ \<Rightarrow>
                rbind (add_chk efi (p_offset p)) (\<lambda>src.
                let mem1 = copy_nonoverlapping mem src (p_vaddr p) (unat (p_memsz p)) in
                if p_filesz p < p_memsz p
                then rbind (add_chk (p_vaddr p) (p_filesz p)) (\<lambda>bss.
                       Inr (Inr (), m', s', write_bytes mem1 bss 0 (unat (p_memsz p - p_filesz p))))
                else Inr (Inr (), m', s', mem1))))
     else Inr (Inr (), m, s, mem))"

text \<open>The loop: the program headers are read from memory as it is at that moment.\<close>

fun load_segments ::
  "x86_addr \<Rightarrow> ('m, 's) mapper \<Rightarrow> 's frame_alloc \<Rightarrow> u64 \<Rightarrow> u64 \<Rightarrow> nat \<Rightarrow> 'm \<times> 's \<times> bytes_mem \<Rightarrow>
   ((map_error + unit) \<times> 'm \<times> 's \<times> bytes_mem) res" where
  "load_segments X M fa efi ph 0 (m, s, mem) = Inr (Inr (), m, s, mem)"
| "load_segments X M fa efi ph (Suc n) (m, s, mem) =
     rbind (load_segment X M fa efi (read_program mem ph) (m, s, mem)) (\<lambda>(r, m', s', mem').
       case r of
         Inl e \<Rightarrow> Inr (Inl e, m', s', mem')
       | Inr _ \<Rightarrow> load_segments X M fa efi (ph + 56) n (m', s', mem'))"

definition stack_pages :: "x86_addr \<Rightarrow> u64 list res" where
  "stack_pages X =
     rbind (virt_addr_new X (0x200000 - 0x5000)) (\<lambda>start.
     rbind (virt_addr_new X (0x200000 - 1)) (\<lambda>end_addr.
       Inr (page_range_inclusive X (page_containing X start) (page_containing X end_addr))))"

text \<open>
  The interrupt stack frame (the selectors are two bytes wide) and the thread control block.
\<close>

definition user_frame :: "x86_addr \<Rightarrow> u64 \<Rightarrow> u64 \<Rightarrow> bytes_mem \<Rightarrow> bytes_mem res" where
  "user_frame X entry cpu_flags mem =
     (let stack = 0x200000 - 0x4000; stack_frame = stack + 120 + 8; tcb = 0x200000 - 0x4000 in
      rbind (virt_addr_new X entry) (\<lambda>rip.
      let mem1 = store_bytes mem stack_frame (le_bytes 8 rip);
          mem2 = store_bytes mem1 (stack_frame + 8) (le_bytes 2 (segment_selector 6 3));
          mem3 = store_bytes mem2 (stack_frame + 16) (le_bytes 8 cpu_flags) in
      rbind (virt_addr_new X 0x200000) (\<lambda>sp.
      let mem4 = store_bytes mem3 (stack_frame + 24) (le_bytes 8 sp);
          mem5 = store_bytes mem4 (stack_frame + 32) (le_bytes 2 (segment_selector 5 3)) in
      Inr (store_bytes mem5 tcb (le_bytes 8 (0x200000 - 0x4000 :: u64))))))"

record ('m, 'b) loadk =
  ld_sched :: sched
  ld_mapper :: 'm
  ld_mapper_locked :: bool
  ld_frames :: "'b bitmap_allocator"
  ld_frames_locked :: bool
  ld_mem :: bytes_mem

definition user_process :: process where
  "user_process =
     \<lparr>p_id = 2, p_status = READY, p_rsp = 0x200000 - 0x4000 + 8, p_kernel_stack = None,
      p_mapper = Some 0, p_pages = Some 0x100000000\<rparr>"

text \<open>
  \<open>add_user_process\<close>; \<open>rflags\<close> is the value of the flags register. Both guards are dropped when it
  returns, also with an error.
\<close>

definition add_user_process ::
  "spin \<Rightarrow> x86_addr \<Rightarrow> ('m, 'b bitmap_allocator) mapper \<Rightarrow> 'b bitvec \<Rightarrow> u64 \<Rightarrow> u64 \<Rightarrow>
   ('m, 'b) loadk \<Rightarrow> ((map_error + unit) \<times> ('m, 'b) loadk) run" where
  "add_user_process L X M B rflags efi k =
     (case (spin_acquire L (ld_mapper_locked k), spin_acquire L (ld_frames_locked k)) of
        (None, _) \<Rightarrow> None
      | (_, None) \<Rightarrow> None
      | (Some _, Some _) \<Rightarrow>
          let fa = bitmap_allocate_frame X B;
              elf_header = read_header (ld_mem k) efi;
              fin = (\<lambda>m s mem. k\<lparr>ld_mapper := m, ld_mapper_locked := False, ld_frames := s,
                                 ld_frames_locked := False, ld_mem := mem\<rparr>) in
          runbind (Some (add_chk efi (e_phoff elf_header))) (\<lambda>ph.
          runbind (Some (load_segments X M fa efi ph (unat (e_phnum elf_header))
                           (ld_mapper k, ld_frames k, ld_mem k))) (\<lambda>(r, m, s, mem).
          case r of Inl e \<Rightarrow> Some (Inr (Inl e, fin m s mem)) | Inr _ \<Rightarrow>
          runbind (Some (stack_pages X)) (\<lambda>page_range.
          runbind (Some (map_range M fa user_flags m s page_range)) (\<lambda>(r, m', s').
          case r of Inl e \<Rightarrow> Some (Inr (Inl e, fin m' s' mem)) | Inr _ \<Rightarrow>
          runbind (Some (user_frame X (e_entry (read_header mem efi)) (rflags OR 0x200) mem)) (\<lambda>mem'.
          runbind (push_process L (ld_sched k) user_process) (\<lambda>sch.
            Some (Inr (Inr (), (fin m' s' mem')\<lparr>ld_sched := sch\<rparr>)))))))))"

section \<open>One segment\<close>

text \<open>
  A segment that the loader handles: not empty, in the lower half, its file part not larger than
  its memory part, and its source range inside the address space.
\<close>

definition seg_ok :: "u64 \<Rightarrow> elf_program \<Rightarrow> bool" where
  "seg_ok efi p \<longleftrightarrow>
     (p_type p = 1 \<longrightarrow>
        0 < unat (p_memsz p) \<and> unat (p_filesz p) \<le> unat (p_memsz p) \<and>
        unat (p_vaddr p) + unat (p_memsz p) < 2 ^ 47 \<and>
        unat efi + unat (p_offset p) < 2 ^ 64)"

definition seg_count :: "elf_program \<Rightarrow> nat" where
  "seg_count p =
     (if p_type p = 1
      then (unat (p_vaddr p) + unat (p_memsz p) - 1) div 4096 - unat (p_vaddr p) div 4096 + 1 else 0)"

definition seg_base :: "elf_program \<Rightarrow> u64" where
  "seg_base p = p_vaddr p AND NOT 4095"

definition seg_pages :: "elf_program \<Rightarrow> u64 list" where
  "seg_pages p = page_list (seg_base p) (seg_count p)"

text \<open>Memory with the segment's bytes: the file part, then zeros.\<close>

definition in_seg :: "elf_program \<Rightarrow> u64 \<Rightarrow> bool" where
  "in_seg p a \<longleftrightarrow> p_type p = 1 \<and> unat (a - p_vaddr p) < unat (p_memsz p)"

definition seg_mem :: "u64 \<Rightarrow> elf_program \<Rightarrow> bytes_mem \<Rightarrow> bytes_mem" where
  "seg_mem efi p mem = (\<lambda>a.
     if in_seg p a
     then (if unat (a - p_vaddr p) < unat (p_filesz p) then mem (efi + p_offset p + (a - p_vaddr p))
           else 0)
     else mem a)"

lemma segment_pages_ok:
  assumes X: "x86_addr_ok X" and p: "seg_ok efi p" "p_type p = 1"
  shows "segment_pages X p = Inr (seg_pages p)" "unat (seg_base p) + 4096 * seg_count p \<le> 2 ^ 64"
proof -
  define v n where "v = unat (p_vaddr p)" and "n = unat (p_memsz p)"
  have lim: "0 < n" "v + n < 2 ^ 47" using p by (simp_all add: seg_ok_def v_def n_def)
  let ?e = "p_vaddr p + p_memsz p" 
  have e: "unat ?e = v + n" using lim by (simp add: unat_add_noovf v_def n_def)
  have one: "1 \<le> ?e" using e lim by (simp add: word_le_nat_alt)
  have e1: "unat (?e - 1) = v + n - 1" using one e by (simp add: unat_sub_le)
  have add: "add_chk (p_vaddr p) (p_memsz p) = Inr ?e" using lim by (simp add: add_chk_ok v_def n_def)
  have sub: "sub_chk ?e 1 = Inr (?e - 1)" using one by (simp add: sub_chk_def)
  have c: "canonical (p_vaddr p)" "canonical (?e - 1)"
    unfolding canonical_def e1 using lim by (auto simp: v_def)
  have us: "unat (seg_base p) = v div 4096 * 4096"
    unfolding seg_base_def v_def by (rule unat_and_not_4095)
  have ps: "page_containing X (p_vaddr p) = seg_base p"
    using page_containing_unat [OF X, of "p_vaddr p"] us by (simp add: word_unat_eq_iff v_def)
  have ue: "unat (page_containing X (?e - 1)) = (v + n - 1) div 4096 * 4096"
    using page_containing_unat [OF X, of "?e - 1"] e1 by simp
  have le: "v div 4096 \<le> (v + n - 1) div 4096" using lim by (intro div_le_mono) simp
  have cnt: "pages_between (seg_base p) (page_containing X (?e - 1)) = seg_count p"
    using le p(2)
    by (auto simp: pages_between_def word_less_nat_alt us ue seg_count_def v_def n_def
        simp flip: diff_mult_distrib)
  have small: "(v + n - 1) div 4096 * 4096 < 2 ^ 47"
    using div_times_less_eq_dividend [of "v + n - 1" 4096] lim by linarith
  moreover have "v div 4096 * 4096 < 2 ^ 47"
    using div_times_less_eq_dividend [of v 4096] lim by linarith
  ultimately have half: "same_half (seg_base p) (page_containing X (?e - 1))"
    by (simp add: same_half_def us ue)
  show "segment_pages X p = Inr (seg_pages p)"
    using page_range_ok(1) [OF X _ _ half] us ue
    by (simp add: segment_pages_def virt_addr_new_ok [OF X] c add sub ps cnt seg_pages_def)
  have "4096 * seg_count p = (v + n - 1) div 4096 * 4096 - v div 4096 * 4096 + 4096"
    using p(2) le by (simp add: seg_count_def v_def n_def algebra_simps)
  moreover have "v div 4096 * 4096 \<le> (v + n - 1) div 4096 * 4096" using le by simp
  ultimately show "unat (seg_base p) + 4096 * seg_count p \<le> 2 ^ 64" using us small by simp
qed

lemma segment_fill:
  assumes "seg_ok efi p" "p_type p = 1"
  shows "(if p_filesz p < p_memsz p
      then write_bytes (copy_nonoverlapping mem (efi + p_offset p) (p_vaddr p) (unat (p_memsz p)))
             (p_vaddr p + p_filesz p) 0 (unat (p_memsz p - p_filesz p))
      else copy_nonoverlapping mem (efi + p_offset p) (p_vaddr p) (unat (p_memsz p))) =
    seg_mem efi p mem"
proof (rule ext)
  fix a
  define d where "d = a - p_vaddr p"
  have lim: "unat (p_filesz p) \<le> unat (p_memsz p)" "unat (p_memsz p) < 2 ^ 47"
    using assms by (auto simp: seg_ok_def)
  have sub: "unat (p_memsz p - p_filesz p) = unat (p_memsz p) - unat (p_filesz p)"
    using lim by (simp add: unat_sub_le word_le_nat_alt)
  have d': "a - (p_vaddr p + p_filesz p) = d - p_filesz p" by (simp add: d_def)
  have tail: "unat (d - p_filesz p) < unat (p_memsz p) - unat (p_filesz p) \<longleftrightarrow>
      unat (p_filesz p) \<le> unat d \<and> unat d < unat (p_memsz p)"
  proof (cases "p_filesz p \<le> d")
    case True
    then show ?thesis using lim by (auto simp: unat_sub_le word_le_nat_alt)
  next
    case False
    then have "unat (d - p_filesz p) = 2 ^ 64 + unat d - unat (p_filesz p)"
      by (simp add: unat_sub_if' word_le_nat_alt)
    then show ?thesis using False lim by (simp add: word_le_nat_alt)
  qed
  have fs: "\<not> p_filesz p < p_memsz p \<Longrightarrow> unat (p_filesz p) = unat (p_memsz p)"
    using lim by (simp add: word_less_nat_alt)
  show "(if p_filesz p < p_memsz p
      then write_bytes (copy_nonoverlapping mem (efi + p_offset p) (p_vaddr p) (unat (p_memsz p)))
             (p_vaddr p + p_filesz p) 0 (unat (p_memsz p - p_filesz p))
      else copy_nonoverlapping mem (efi + p_offset p) (p_vaddr p) (unat (p_memsz p))) a =
    seg_mem efi p mem a"
    using tail fs lim assms(2)
    by (auto simp: write_bytes_def copy_nonoverlapping_def seg_mem_def in_seg_def d' sub d_def [symmetric])
qed

section \<open>All segments\<close>

text \<open>What the loop needs of the file, for the program headers that are still to be loaded.\<close>

fun file_ok :: "u64 \<Rightarrow> (u64 \<Rightarrow> bool) \<Rightarrow> u64 \<Rightarrow> elf_program list \<Rightarrow> bytes_mem \<Rightarrow> bool" where
  "file_ok efi F ph [] mem = True"
| "file_ok efi F ph (p # ps) mem =
     (read_program mem ph = p \<and> (\<forall>i<56. F (ph + of_nat i)) \<and> seg_ok efi p \<and>
      (p_type p = 1 \<longrightarrow> (\<forall>i<unat (p_filesz p). F (efi + p_offset p + of_nat i))) \<and>
      file_ok efi F (ph + 56) ps mem)"

definition total_pages :: "elf_program list \<Rightarrow> nat" where
  "total_pages ps = sum_list (map seg_count ps)"

definition all_pages :: "elf_program list \<Rightarrow> u64 list" where
  "all_pages ps = concat (map seg_pages ps)"

text \<open>The memory that the loop leaves: the segments on top of the memory it started with.\<close>

fun load_mem :: "u64 \<Rightarrow> elf_program list \<Rightarrow> bytes_mem \<Rightarrow> bytes_mem" where
  "load_mem efi [] mem = mem"
| "load_mem efi (p # ps) mem = load_mem efi ps (seg_mem efi p mem)"

lemma mem_bytes_cong: "(\<And>i. i < n \<Longrightarrow> m (a + of_nat i) = m' (a + of_nat i)) \<Longrightarrow> mem_bytes m a n = mem_bytes m' a n"
  by (simp add: mem_bytes_def)

lemma read_program_cong:
  assumes "\<And>i. i < 56 \<Longrightarrow> m (a + of_nat i) = m' (a + of_nat i)"
  shows "read_program m a = read_program m' a"
proof -
  have e: "mem_bytes m a 56 = mem_bytes m' a 56" using assms by (rule mem_bytes_cong)
  have "mem_bytes m a 4 = mem_bytes m' a 4"
    using assms by (intro mem_bytes_cong) simp
  then show ?thesis by (simp add: read_program_def mem_bytes_numeral [where k = 56] e)
qed

lemma file_ok_cong:
  "file_ok efi F ph ps mem \<Longrightarrow> (\<And>a. F a \<Longrightarrow> mem' a = mem a) \<Longrightarrow> file_ok efi F ph ps mem'"
proof (induction ps arbitrary: ph)
  case Nil
  then show ?case by simp
next
  case (Cons p ps)
  have "read_program mem' ph = read_program mem ph"
    using Cons.prems by (intro read_program_cong) simp
  then show ?case using Cons by simp
qed

context frame_source
begin

lemma load_segment_ok:
  assumes X: "x86_addr_ok X" and M: "mapper_ok M tr hp allocate" and p: "seg_ok efi p"
    and s: "inv s" "4 * seg_count p \<le> length (free s)"
    and un: "\<forall>q\<in>set (seg_pages p). tr m q = None \<and> \<not> hp m q"
  shows "\<exists>m' s'. load_segment X M allocate efi p (m, s, mem) = Inr (Inr (), m', s', seg_mem efi p mem) \<and>
    inv s' \<and> set (free s') \<subseteq> set (free s) \<and> length (free s) \<le> length (free s') + 4 * seg_count p \<and>
    hp m' = hp m \<and> (\<forall>q\<in>set (seg_pages p). \<exists>f\<in>set (free s) - set (free s'). tr m' q = Some (f, user_flags)) \<and>
    (\<forall>q. q \<notin> set (seg_pages p) \<longrightarrow> tr m' q = tr m q)"
proof (cases "p_type p = 1")
  case False
  then have "seg_pages p = []" "seg_mem efi p mem = mem" "seg_count p = 0"
    by (simp_all add: seg_pages_def seg_count_def page_list_def seg_mem_def in_seg_def)
  then show ?thesis using False s(1) by (simp add: load_segment_def)
next
  case True
  note pg = segment_pages_ok [OF X p True]
  obtain m' s' fs where r: "map_range M allocate user_flags m s (seg_pages p) = Inr (Inr (), m', s')"
    "inv s'" "length fs = seg_count p" "set fs \<subseteq> set (free s)" "set fs \<inter> set (free s') = {}"
    "set (free s') \<subseteq> set (free s)" "length (free s) \<le> length (free s') + 4 * seg_count p" "hp m' = hp m"
    "\<forall>i < seg_count p. tr m' (seg_base p + 4096 * of_nat i) = Some (fs ! i, user_flags)"
    "\<forall>q. q \<notin> set (seg_pages p) \<longrightarrow> tr m' q = tr m q"
    using map_pages_ok [OF M s pg(2) un [unfolded seg_pages_def], of user_flags]
    unfolding seg_pages_def by blast
  have src: "add_chk efi (p_offset p) = Inr (efi + p_offset p)"
    using p True by (simp add: seg_ok_def add_chk_ok)
  have bss: "add_chk (p_vaddr p) (p_filesz p) = Inr (p_vaddr p + p_filesz p)"
    using p True by (simp add: seg_ok_def add_chk_ok)
  have "load_segment X M allocate efi p (m, s, mem) = Inr (Inr (), m', s', seg_mem efi p mem)"
    using segment_fill [OF p True, of mem] pg(1) r(1) src bss True
    by (simp add: load_segment_def Let_def split: if_splits)
  moreover have "\<exists>f\<in>set (free s) - set (free s'). tr m' q = Some (f, user_flags)"
    if q: "q \<in> set (seg_pages p)" for q
  proof -
    obtain i where i: "i < seg_count p" "q = seg_base p + 4096 * of_nat i"
      using q by (auto simp: seg_pages_def page_list_def)
    then have "fs ! i \<in> set fs" using r(3) by simp
    then show ?thesis using i r(4,5,9) by blast
  qed
  ultimately show ?thesis using r(2,6,7,8,10) by blast
qed


lemma load_segments_ok:
  assumes X: "x86_addr_ok X" and M: "mapper_ok M tr hp allocate"
  shows "file_ok efi F ph ps mem \<Longrightarrow> (\<forall>p\<in>set ps. \<forall>a. in_seg p a \<longrightarrow> \<not> F a) \<Longrightarrow>
    distinct (all_pages ps) \<Longrightarrow> (\<forall>q\<in>set (all_pages ps). tr m q = None \<and> \<not> hp m q) \<Longrightarrow>
    inv s \<Longrightarrow> 4 * total_pages ps \<le> length (free s) \<Longrightarrow>
    \<exists>m' s'. load_segments X M allocate efi ph (length ps) (m, s, mem) =
        Inr (Inr (), m', s', load_mem efi ps mem) \<and>
      inv s' \<and> set (free s') \<subseteq> set (free s) \<and>
      length (free s) \<le> length (free s') + 4 * total_pages ps \<and> hp m' = hp m \<and>
      (\<forall>q\<in>set (all_pages ps). \<exists>f\<in>set (free s) - set (free s'). tr m' q = Some (f, user_flags)) \<and>
      (\<forall>q. q \<notin> set (all_pages ps) \<longrightarrow> tr m' q = tr m q)"
proof (induction ps arbitrary: ph m s mem)
  case Nil
  then show ?case by (simp add: all_pages_def total_pages_def)
next
  case (Cons p ps)
  let ?mem = "seg_mem efi p mem"
  have p: "read_program mem ph = p" "seg_ok efi p" "file_ok efi F (ph + 56) ps mem"
    using Cons.prems(1) by auto
  have d: "set (seg_pages p) \<inter> set (all_pages ps) = {}" "distinct (all_pages ps)"
    using Cons.prems(3) by (auto simp: all_pages_def)
  have un: "\<forall>q\<in>set (seg_pages p). tr m q = None \<and> \<not> hp m q"
    using Cons.prems(4) by (simp add: all_pages_def)
  have fr: "4 * seg_count p \<le> length (free s)" using Cons.prems(6) by (simp add: total_pages_def)
  obtain m1 s1 where s1: "load_segment X M allocate efi p (m, s, mem) = Inr (Inr (), m1, s1, ?mem)"
    "inv s1" "set (free s1) \<subseteq> set (free s)"
    "length (free s) \<le> length (free s1) + 4 * seg_count p" "hp m1 = hp m"
    "\<forall>q\<in>set (seg_pages p). \<exists>f\<in>set (free s) - set (free s1). tr m1 q = Some (f, user_flags)"
    "\<forall>q. q \<notin> set (seg_pages p) \<longrightarrow> tr m1 q = tr m q"
    using load_segment_ok [OF X M p(2) Cons.prems(5) fr un, of mem] by blast
  have f1: "file_ok efi F (ph + 56) ps ?mem"
    using p(3) by (rule file_ok_cong) (use Cons.prems(2) in \<open>auto simp: seg_mem_def\<close>)
  have un1: "\<forall>q\<in>set (all_pages ps). tr m1 q = None \<and> \<not> hp m1 q"
  proof
    fix q assume q: "q \<in> set (all_pages ps)"
    then have "q \<notin> set (seg_pages p)" using d(1) by blast
    moreover have "q \<in> set (all_pages (p # ps))" using q by (simp add: all_pages_def)
    ultimately show "tr m1 q = None \<and> \<not> hp m1 q" using Cons.prems(4) s1(5,7) by simp
  qed
  have fr1: "4 * total_pages ps \<le> length (free s1)"
    using Cons.prems(6) s1(4) by (simp add: total_pages_def)
  obtain m' s' where s': "load_segments X M allocate efi (ph + 56) (length ps) (m1, s1, ?mem) =
      Inr (Inr (), m', s', load_mem efi ps ?mem)" "inv s'" "set (free s') \<subseteq> set (free s1)"
    "length (free s1) \<le> length (free s') + 4 * total_pages ps" "hp m' = hp m1"
    "\<forall>q\<in>set (all_pages ps). \<exists>f\<in>set (free s1) - set (free s'). tr m' q = Some (f, user_flags)"
    "\<forall>q. q \<notin> set (all_pages ps) \<longrightarrow> tr m' q = tr m1 q"
    using Cons.IH [OF f1 _ d(2) un1 s1(2) fr1] Cons.prems(2) by auto
  have run: "load_segments X M allocate efi ph (length (p # ps)) (m, s, mem) =
      Inr (Inr (), m', s', load_mem efi (p # ps) mem)"
    using s1(1) s'(1) p(1) by simp
  have mapped: "\<exists>f\<in>set (free s) - set (free s'). tr m' q = Some (f, user_flags)"
    if "q \<in> set (all_pages (p # ps))" for q
  proof (cases "q \<in> set (all_pages ps)")
    case True
    then show ?thesis using s'(6) s1(3) by blast
  next
    case False
    then have "q \<in> set (seg_pages p)" using that by (simp add: all_pages_def)
    then show ?thesis using s1(6) s'(3,7) False by fastforce
  qed
  have other: "\<forall>q. q \<notin> set (all_pages (p # ps)) \<longrightarrow> tr m' q = tr m q"
    using s'(7) s1(7) by (simp add: all_pages_def)
  have "length (free s) \<le> length (free s') + 4 * total_pages (p # ps)"
    using s1(4) s'(4) by (simp add: total_pages_def)
  moreover have "set (free s') \<subseteq> set (free s)" "hp m' = hp m" using s'(3,5) s1(3,5) by simp_all
  ultimately show ?case using run mapped other s'(2) by blast
qed

end

section \<open>The loaded memory\<close>

lemma in_seg_page:
  assumes "seg_ok efi p" "in_seg p a"
  shows "a AND NOT 4095 \<in> set (seg_pages p)"
proof -
  define v n i where "v = unat (p_vaddr p)" and "n = unat (p_memsz p)" and "i = unat (a - p_vaddr p)"
  have t: "p_type p = 1" and i: "i < n" and lim: "v + n < 2 ^ 47"
    using assms by (auto simp: in_seg_def seg_ok_def v_def n_def i_def)
  have a: "unat a = v + i"
  proof -
    have "unat (p_vaddr p + (a - p_vaddr p)) = v + i"
      using lim i by (subst unat_add_noovf) (simp_all add: v_def i_def)
    then show ?thesis by simp
  qed
  define j where "j = (v + i) div 4096 - v div 4096"
  have le: "v div 4096 \<le> (v + i) div 4096" by (intro div_le_mono) simp
  have "(v + i) div 4096 \<le> (v + n - 1) div 4096" using i by (intro div_le_mono) linarith
  then have j: "j < seg_count p" using t
    by (simp add: seg_count_def j_def v_def n_def less_Suc_eq_le diff_le_mono)
  have small: "(v + i) div 4096 * 4096 < 2 ^ 47"
    using div_times_less_eq_dividend [of "v + i" 4096] lim i by linarith
  have j4: "4096 * j = (v + i) div 4096 * 4096 - v div 4096 * 4096" by (simp add: j_def algebra_simps)
  have us: "unat (seg_base p) = v div 4096 * 4096"
    unfolding seg_base_def v_def by (rule unat_and_not_4095)
  have uj: "unat (4096 * of_nat j :: u64) = 4096 * j"
    using small j4 by (simp add: unat_mul_noovf unsigned_of_nat take_bit_nat_eq_self)
  have "unat (seg_base p + 4096 * of_nat j) = (v + i) div 4096 * 4096"
    using us uj j4 small le by (subst unat_add_noovf) simp_all
  then have "unat (a AND NOT 4095) = unat (seg_base p + 4096 * of_nat j)"
    unfolding unat_and_not_4095 a by simp
  then have "a AND NOT 4095 = seg_base p + 4096 * of_nat j" by (simp only: word_unat_eq_iff)
  then show ?thesis using j by (auto simp: seg_pages_def page_list_def)
qed

lemma load_mem_outside: "(\<forall>p\<in>set ps. \<not> in_seg p a) \<Longrightarrow> load_mem efi ps mem a = mem a"
proof (induction ps arbitrary: mem)
  case (Cons p ps)
  then have "load_mem efi (p # ps) mem a = seg_mem efi p mem a" by simp
  then show ?case using Cons.prems by (simp add: seg_mem_def)
qed simp

lemma load_mem_inside:
  "(\<forall>p\<in>set ps. seg_ok efi p) \<Longrightarrow> distinct (all_pages ps) \<Longrightarrow> p \<in> set ps \<Longrightarrow> in_seg p a \<Longrightarrow>
    (\<forall>q\<in>set ps. unat (a - p_vaddr p) < unat (p_filesz p) \<longrightarrow>
       \<not> in_seg q (efi + p_offset p + (a - p_vaddr p))) \<Longrightarrow>
    load_mem efi ps mem a = seg_mem efi p mem a"
proof (induction ps arbitrary: mem)
  case Nil
  then show ?case by simp
next
  case (Cons q ps)
  have d: "set (seg_pages q) \<inter> set (all_pages ps) = {}" "distinct (all_pages ps)"
    using Cons.prems(2) by (auto simp: all_pages_def)
  have notq: "\<not> in_seg q a \<or> (\<forall>r\<in>set ps. \<not> in_seg r a)"
  proof (rule ccontr)
    assume "\<not> (\<not> in_seg q a \<or> (\<forall>r\<in>set ps. \<not> in_seg r a))"
    then obtain r where r: "in_seg q a" "r \<in> set ps" "in_seg r a" by blast
    then have "a AND NOT 4095 \<in> set (seg_pages q)" "a AND NOT 4095 \<in> set (seg_pages r)"
      using in_seg_page Cons.prems(1) by (meson list.set_intros)+
    then show False using d(1) r(2) by (auto simp: all_pages_def)
  qed
  show ?case
  proof (cases "in_seg q a")
    case True
    then have "\<forall>r\<in>set ps. \<not> in_seg r a" using notq by blast
    moreover from this have "p = q" using Cons.prems(3,4) by auto
    ultimately show ?thesis using load_mem_outside [of ps a efi "seg_mem efi q mem"] by simp
  next
    case False
    then have "p \<in> set ps" using Cons.prems(3,4) by auto
    then have "load_mem efi ps (seg_mem efi q mem) a = seg_mem efi p (seg_mem efi q mem) a"
      using Cons.IH [of "seg_mem efi q mem"] Cons.prems(1,4,5) d(2) by auto
    also have "\<dots> = seg_mem efi p mem a"
      using Cons.prems(4,5) by (auto simp: seg_mem_def)
    finally show ?thesis by simp
  qed
qed

section \<open>The stack and its first frame\<close>

definition word_at :: "bytes_mem \<Rightarrow> u64 \<Rightarrow> u64" where
  "word_at m a = le_word (mem_bytes m a 8)"

definition user_stack :: "u64 list" where
  "user_stack = page_list 0x1fb000 5"

lemma stack_pages_ok:
  assumes X: "x86_addr_ok X" shows "stack_pages X = Inr user_stack"
proof -
  have "unat (page_containing X 0x1fb000) = unat (0x1fb000 :: u64)"
    "unat (page_containing X 0x1fffff) = unat (0x1ff000 :: u64)"
    using page_containing_unat [OF X, of "0x1fb000"] page_containing_unat [OF X, of "0x1fffff"] by simp_all
  then have p: "page_containing X 0x1fb000 = 0x1fb000" "page_containing X 0x1fffff = 0x1ff000"
    by (simp_all only: word_unat_eq_iff)
  have "page_range_inclusive X 0x1fb000 0x1ff000 = page_list 0x1fb000 5"
    using page_range_ok(1) [OF X, of "0x1fb000" "0x1ff000"]
    by (simp add: same_half_def pages_between_def)
  then show ?thesis
    by (simp add: stack_pages_def user_stack_def p virt_addr_new_ok [OF X] canonical_def)
qed

lemma page_of_offset:
  fixes a b :: u64
  assumes "unat (a - b) < n" "unat b mod 4096 + n \<le> 4096" "unat b + n < 2 ^ 64"
  shows "a AND NOT 4095 = b AND NOT 4095"
proof -
  define d where "d = unat (a - b)"
  have "unat (b + (a - b)) = unat b + d"
    using assms(1,3) by (subst unat_add_noovf) (simp_all add: d_def)
  then have a: "unat a = unat b + d" by simp
  have "unat b mod 4096 + d < 4096" using assms(1,2) by (simp add: d_def)
  then have "(unat b + d) div 4096 = unat b div 4096"
    by (metis div_add1_eq add.right_neutral div_less mod_add_left_eq div_mult_mod_eq
        add.assoc div_mult_self3 zero_neq_numeral)
  then have "unat (a AND NOT 4095) = unat (b AND NOT 4095)"
    unfolding unat_and_not_4095 a by simp
  then show ?thesis by (simp only: word_unat_eq_iff)
qed

lemma unat_minus_1_64: "unat (- 1 :: u64) = 18446744073709551615"
  by (simp add: unsigned_minus_1_eq_mask mask_eq_exp_minus_1)

lemma store_bytes_other:
  assumes "a AND NOT 4095 \<noteq> b AND NOT 4095" "unat b mod 4096 + length bs \<le> 4096"
    "unat b + length bs < 2 ^ 64"
  shows "store_bytes m b bs a = m a"
  using page_of_offset [of a b "length bs"] assms by (auto simp: store_bytes_def)

lemma ucast_word_16: "ucast (le_word (a # b # bs) :: u64) = (le_word [a, b] :: u16)"
  by (rule bit_word_eqI) (auto simp: bit_simps)

lemma user_frame_ok:
  assumes X: "x86_addr_ok X" and c: "canonical entry"
  shows "\<exists>mem'. user_frame X entry fl mem = Inr mem' \<and>
    mem_bytes mem' 0x1fc080 8 = le_bytes 8 entry \<and> mem_bytes mem' 0x1fc088 2 = le_bytes 2 (0x33 :: u16) \<and>
    mem_bytes mem' 0x1fc090 8 = le_bytes 8 fl \<and> mem_bytes mem' 0x1fc098 8 = le_bytes 8 (0x200000 :: u64) \<and>
    mem_bytes mem' 0x1fc0a0 2 = le_bytes 2 (0x2b :: u16) \<and>
    (\<forall>a. a AND NOT 4095 \<noteq> 0x1fc000 \<longrightarrow> mem' a = mem a)"
proof -
  let ?m1 = "store_bytes mem 0x1fc080 (le_bytes 8 entry)"
  let ?m2 = "store_bytes ?m1 0x1fc088 (le_bytes 2 (0x33 :: u16))"
  let ?m3 = "store_bytes ?m2 0x1fc090 (le_bytes 8 fl)"
  let ?m4 = "store_bytes ?m3 0x1fc098 (le_bytes 8 (0x200000 :: u64))"
  let ?m5 = "store_bytes ?m4 0x1fc0a0 (le_bytes 2 (0x2b :: u16))"
  let ?m6 = "store_bytes ?m5 0x1fc000 (le_bytes 8 (0x1fc000 :: u64))"
  have r: "user_frame X entry fl mem = Inr ?m6"
    using c by (simp add: user_frame_def Let_def virt_addr_new_ok [OF X] canonical_def
        segment_selector_def)
  have bytes: "mem_bytes ?m6 0x1fc080 8 = le_bytes 8 entry" "mem_bytes ?m6 0x1fc088 2 = le_bytes 2 (0x33 :: u16)"
    "mem_bytes ?m6 0x1fc090 8 = le_bytes 8 fl" "mem_bytes ?m6 0x1fc098 8 = le_bytes 8 (0x200000 :: u64)"
    "mem_bytes ?m6 0x1fc0a0 2 = le_bytes 2 (0x2b :: u16)"
    by (simp_all add: mem_bytes_def store_bytes_def le_bytes_def upt_rec unat_minus_1_64)
  have other: "?m6 a = mem a" if "a AND NOT 4095 \<noteq> 0x1fc000" for a
    using that by (simp add: store_bytes_other)
  show ?thesis using r bytes other by blast
qed

section \<open>The whole loader\<close>

text \<open>
  An ELF file at \<open>efi\<close> that can be loaded: \<open>F\<close> are the addresses of the file, which holds the header,
  the program headers \<open>progs\<close> and the file parts of the segments; no segment is loaded over the file,
  and no two segments, nor a segment and the user stack, share a page.
\<close>

definition loadable :: "u64 \<Rightarrow> (u64 \<Rightarrow> bool) \<Rightarrow> elf_program list \<Rightarrow> bytes_mem \<Rightarrow> bool" where
  "loadable efi F progs mem \<longleftrightarrow>
     (let h = read_header mem efi in
      unat efi + unat (e_phoff h) < 2 ^ 64 \<and> unat (e_phnum h) = length progs \<and>
      file_ok efi F (efi + e_phoff h) progs mem \<and> (\<forall>i<64. F (efi + of_nat i)) \<and>
      (\<forall>p\<in>set progs. \<forall>a. in_seg p a \<longrightarrow> \<not> F a) \<and>
      distinct (all_pages progs @ user_stack) \<and> canonical (e_entry h))"

lemma read_header_entry_cong:
  assumes "\<And>i. i < 64 \<Longrightarrow> m (a + of_nat i) = m' (a + of_nat i)"
  shows "e_entry (read_header m a) = e_entry (read_header m' a)"
proof -
  have e: "mem_bytes m a 64 = mem_bytes m' a 64" using assms by (rule mem_bytes_cong)
  show ?thesis by (simp add: read_header_def mem_bytes_numeral [where k = 64] e)
qed

lemma file_ok_seg_ok: "file_ok efi F ph ps mem \<Longrightarrow> p \<in> set ps \<Longrightarrow> seg_ok efi p"
  by (induction ps arbitrary: ph) auto

lemma file_ok_source:
  "file_ok efi F ph ps mem \<Longrightarrow> p \<in> set ps \<Longrightarrow> p_type p = 1 \<Longrightarrow> i < unat (p_filesz p) \<Longrightarrow>
    F (efi + p_offset p + of_nat i)"
  by (induction ps arbitrary: ph) auto

lemma word_at_le_bytes: "mem_bytes m a 8 = le_bytes 8 v \<Longrightarrow> word_at m a = v"
  by (simp add: word_at_def le_word_le_bytes)

lemma ucast_word_at: "mem_bytes m a 2 = le_bytes 2 v \<Longrightarrow> ucast (word_at m a) = (v :: u16)"
proof -
  assume v: "mem_bytes m a 2 = le_bytes 2 v"
  have "mem_bytes m a 8 = m a # m (a + 1) # map (\<lambda>i. m (a + of_nat i)) [2..<8]"
    by (simp add: mem_bytes_def upt_rec)
  then have "ucast (word_at m a) = (le_word [m a, m (a + 1)] :: u16)"
    unfolding word_at_def by (simp only: ucast_word_16)
  also have "[m a, m (a + 1)] = le_bytes 2 v" using v by (simp add: mem_bytes_def upt_rec)
  finally show ?thesis by (simp add: le_word_le_bytes)
qed

lemma user_context:
  assumes "mem_bytes m 0x1fc080 8 = le_bytes 8 entry" "mem_bytes m 0x1fc088 2 = le_bytes 2 (0x33 :: u16)"
    "mem_bytes m 0x1fc090 8 = le_bytes 8 fl" "mem_bytes m 0x1fc098 8 = le_bytes 8 (0x200000 :: u64)"
    "mem_bytes m 0x1fc0a0 2 = le_bytes 2 (0x2b :: u16)"
  shows "c_rip (context_at (word_at m) (p_rsp user_process)) = entry"
    "c_cs (context_at (word_at m) (p_rsp user_process)) = 0x33"
    "c_rflags (context_at (word_at m) (p_rsp user_process)) = fl"
    "c_regs (context_at (word_at m) (p_rsp user_process)) RSP = 0x200000"
    "c_ss (context_at (word_at m) (p_rsp user_process)) = 0x2b"
  using word_at_le_bytes [OF assms(1)] ucast_word_at [OF assms(2)] word_at_le_bytes [OF assms(3)]
    word_at_le_bytes [OF assms(4)] ucast_word_at [OF assms(5)]
  by (simp_all add: context_at_def user_process_def)

lemma add_user_process_ok:
  assumes L: "spin_ok L" and X: "x86_addr_ok X"
    and M: "mapper_ok M tr hp (bitmap_allocate_frame X B)"
    and inv: "bitmap_inv X B bits (ld_frames k)"
    and locks: "\<not> ld_mapper_locked k" "\<not> ld_frames_locked k" "sched_state (ld_sched k) ps c"
    and prog: "loadable efi F progs (ld_mem k)"
    and room: "4 * (total_pages progs + 5) \<le> length (bitmap_free bits (ld_frames k))"
    and un: "\<forall>q\<in>set (all_pages progs @ user_stack). tr (ld_mapper k) q = None \<and> \<not> hp (ld_mapper k) q"
  shows "\<exists>m s mem'. add_user_process L X M B rflags efi k =
      Some (Inr (Inr (), k\<lparr>ld_mapper := m, ld_mapper_locked := False, ld_frames := s,
        ld_frames_locked := False, ld_mem := mem',
        ld_sched := (ld_sched k)\<lparr>proc_list := Some (ps @ [user_process])\<rparr>\<rparr>)) \<and>
    user_frame X (e_entry (read_header (ld_mem k) efi)) (rflags OR 0x200)
      (load_mem efi progs (ld_mem k)) = Inr mem' \<and>
    bitmap_inv X B bits s \<and>
    (\<forall>q\<in>set (all_pages progs @ user_stack). \<exists>f. f \<in> set (bitmap_free bits (ld_frames k)) \<and>
       f \<notin> set (bitmap_free bits s) \<and> tr m q = Some (f, user_flags)) \<and>
    (\<forall>q. q \<notin> set (all_pages progs @ user_stack) \<longrightarrow> tr m q = tr (ld_mapper k) q)"
proof -
  let ?h = "read_header (ld_mem k) efi" and ?mem = "load_mem efi progs (ld_mem k)"
  let ?fa = "bitmap_allocate_frame X B"
  have pr: "unat efi + unat (e_phoff ?h) < 2 ^ 64" "unat (e_phnum ?h) = length progs"
    "file_ok efi F (efi + e_phoff ?h) progs (ld_mem k)" "\<forall>i<64. F (efi + of_nat i)"
    "\<forall>p\<in>set progs. \<forall>a. in_seg p a \<longrightarrow> \<not> F a" "distinct (all_pages progs)" "canonical (e_entry ?h)"
    "set (all_pages progs) \<inter> set user_stack = {}"
    using prog by (simp_all add: loadable_def Let_def)
  have un1: "\<forall>q\<in>set (all_pages progs). tr (ld_mapper k) q = None \<and> \<not> hp (ld_mapper k) q"
    using un by simp
  have r1: "4 * total_pages progs \<le> length (bitmap_free bits (ld_frames k))" using room by simp
  obtain m1 s1 where s1: "load_segments X M ?fa efi (efi + e_phoff ?h) (length progs)
      (ld_mapper k, ld_frames k, ld_mem k) = Inr (Inr (), m1, s1, ?mem)" "bitmap_inv X B bits s1"
    "set (bitmap_free bits s1) \<subseteq> set (bitmap_free bits (ld_frames k))"
    "length (bitmap_free bits (ld_frames k)) \<le> length (bitmap_free bits s1) + 4 * total_pages progs"
    "hp m1 = hp (ld_mapper k)"
    "\<forall>q\<in>set (all_pages progs). \<exists>f\<in>set (bitmap_free bits (ld_frames k)) - set (bitmap_free bits s1).
       tr m1 q = Some (f, user_flags)"
    "\<forall>q. q \<notin> set (all_pages progs) \<longrightarrow> tr m1 q = tr (ld_mapper k) q"
    using bitmap.load_segments_ok [OF X M pr(3,5,6) un1 inv r1] by blast
  have un2: "\<forall>q\<in>set (page_list 0x1fb000 5). tr m1 q = None \<and> \<not> hp m1 q"
  proof
    fix q assume q: "q \<in> set (page_list 0x1fb000 5)"
    then have "q \<notin> set (all_pages progs)" using pr(8) by (auto simp: user_stack_def)
    then show "tr m1 q = None \<and> \<not> hp m1 q" using s1(5,7) un q by (simp add: user_stack_def)
  qed
  have r2: "4 * 5 \<le> length (bitmap_free bits s1)" using room s1(4) by simp
  have a5: "unat (0x1fb000 :: u64) + 4096 * 5 \<le> 2 ^ 64" by simp
  obtain m2 s2 fs where s2: "map_range M ?fa user_flags m1 s1 user_stack = Inr (Inr (), m2, s2)"
    "bitmap_inv X B bits s2" "length fs = 5" "set fs \<subseteq> set (bitmap_free bits s1)"
    "set fs \<inter> set (bitmap_free bits s2) = {}" "set (bitmap_free bits s2) \<subseteq> set (bitmap_free bits s1)"
    "\<forall>i<5. tr m2 (0x1fb000 + 4096 * of_nat i) = Some (fs ! i, user_flags)"
    "\<forall>q. q \<notin> set user_stack \<longrightarrow> tr m2 q = tr m1 q"
    using bitmap.map_pages_ok [OF M s1(2) r2 a5 un2, of user_flags] unfolding user_stack_def by blast
  have entry: "e_entry (read_header ?mem efi) = e_entry ?h"
  proof (rule read_header_entry_cong)
    fix i :: nat assume "i < 64"
    then have "\<forall>p\<in>set progs. \<not> in_seg p (efi + of_nat i)" using pr(4,5) by blast
    then show "?mem (efi + of_nat i) = ld_mem k (efi + of_nat i)" by (rule load_mem_outside)
  qed
  obtain mem' where mem': "user_frame X (e_entry ?h) (rflags OR 0x200) ?mem = Inr mem'"
    using user_frame_ok [OF X pr(7), of "rflags OR 0x200" ?mem] by blast
  have push: "push_process L (ld_sched k) user_process =
      Some (Inr ((ld_sched k)\<lparr>proc_list := Some (ps @ [user_process])\<rparr>))"
    by (rule push_process_state(1) [OF L locks(3)]) (simp add: user_process_def)
  have ph: "add_chk efi (e_phoff ?h) = Inr (efi + e_phoff ?h)" using pr(1) by (simp add: add_chk_ok)
  have run: "add_user_process L X M B rflags efi k =
      Some (Inr (Inr (), k\<lparr>ld_mapper := m2, ld_mapper_locked := False, ld_frames := s2,
        ld_frames_locked := False, ld_mem := mem',
        ld_sched := (ld_sched k)\<lparr>proc_list := Some (ps @ [user_process])\<rparr>\<rparr>))"
    using L locks(1,2)
    by (simp add: add_user_process_def spin_ok_def Let_def ph pr(2) s1(1) stack_pages_ok [OF X] s2(1)
        entry mem' push)
  have mapped: "\<exists>f. f \<in> set (bitmap_free bits (ld_frames k)) \<and> f \<notin> set (bitmap_free bits s2) \<and>
      tr m2 q = Some (f, user_flags)" if q: "q \<in> set (all_pages progs @ user_stack)" for q
  proof (cases "q \<in> set user_stack")
    case True
    then obtain i where i: "i < 5" "q = 0x1fb000 + 4096 * of_nat i"
      by (auto simp: user_stack_def page_list_def)
    then have "fs ! i \<in> set fs" using s2(3) by simp
    then show ?thesis using i s2(4,5,7) s1(3) by blast
  next
    case False
    then have "q \<in> set (all_pages progs)" using q by simp
    then show ?thesis using s1(6) s2(6,8) False by fastforce
  qed
  have other: "\<forall>q. q \<notin> set (all_pages progs @ user_stack) \<longrightarrow> tr m2 q = tr (ld_mapper k) q"
    using s1(7) s2(8) by simp
  show ?thesis using run mem' s2(2) mapped other by blast
qed

lemma loaded_segment:
  assumes prog: "loadable efi F progs mem" and p: "p \<in> set progs" "in_seg p a"
    and mem': "\<And>a. a AND NOT 4095 \<noteq> 0x1fc000 \<Longrightarrow> mem' a = load_mem efi progs mem a"
  shows "mem' a = (if unat (a - p_vaddr p) < unat (p_filesz p)
    then mem (efi + p_offset p + (a - p_vaddr p)) else 0)"
proof -
  have f: "file_ok efi F (efi + e_phoff (read_header mem efi)) progs mem"
    "\<forall>p\<in>set progs. \<forall>a. in_seg p a \<longrightarrow> \<not> F a" "distinct (all_pages progs)"
    "set (all_pages progs) \<inter> set user_stack = {}"
    using prog by (simp_all add: loadable_def Let_def)
  have ok: "\<forall>p\<in>set progs. seg_ok efi p" using file_ok_seg_ok [OF f(1)] by blast
  have src: "unat (a - p_vaddr p) < unat (p_filesz p) \<Longrightarrow>
      F (efi + p_offset p + (a - p_vaddr p))"
    using file_ok_source [OF f(1) p(1), of "unat (a - p_vaddr p)"] p(2) by (simp add: in_seg_def)
  have "a AND NOT 4095 \<in> set (all_pages progs)"
    using in_seg_page [of efi p a] ok p by (auto simp: all_pages_def)
  moreover have "0x1fc000 \<in> set user_stack" by (simp add: user_stack_def page_list_def upt_rec)
  ultimately have "a AND NOT 4095 \<noteq> 0x1fc000" using f(4) by (metis disjoint_iff)
  then have "mem' a = load_mem efi progs mem a" by (rule mem')
  also have "\<dots> = seg_mem efi p mem a"
    by (rule load_mem_inside [OF ok f(3) p]) (use src f(2) in blast)
  finally show ?thesis using p(2) by (simp add: seg_mem_def)
qed

lemma user_process_loaded_ok:
  assumes "spin_ok L" "x86_addr_ok X" "mapper_ok M tr hp (bitmap_allocate_frame X B)"
    "bitmap_inv X B bits (ld_frames k)"
    "\<not> ld_mapper_locked k" "\<not> ld_frames_locked k" "sched_state (ld_sched k) ps c"
    "loadable efi F progs (ld_mem k)"
    "4 * (total_pages progs + 5) \<le> length (bitmap_free bits (ld_frames k))"
    "\<forall>q\<in>set (all_pages progs @ user_stack). tr (ld_mapper k) q = None \<and> \<not> hp (ld_mapper k) q"
  shows "\<exists>k'. add_user_process L X M B rflags efi k = Some (Inr (Inr (), k')) \<and>
    \<not> ld_mapper_locked k' \<and> \<not> ld_frames_locked k' \<and>
    sched_state (ld_sched k') (ps @ [user_process]) c \<and> bitmap_inv X B bits (ld_frames k') \<and>
    (\<forall>p\<in>set progs. \<forall>a. in_seg p a \<longrightarrow> ld_mem k' a =
       (if unat (a - p_vaddr p) < unat (p_filesz p)
        then ld_mem k (efi + p_offset p + (a - p_vaddr p)) else 0)) \<and>
    (\<forall>q\<in>set (all_pages progs @ user_stack). \<exists>f. f \<in> set (bitmap_free bits (ld_frames k)) \<and>
       f \<notin> set (bitmap_free bits (ld_frames k')) \<and> tr (ld_mapper k') q = Some (f, user_flags)) \<and>
    (\<forall>q. q \<notin> set (all_pages progs @ user_stack) \<longrightarrow> tr (ld_mapper k') q = tr (ld_mapper k) q) \<and>
    (let x = context_at (word_at (ld_mem k')) (p_rsp user_process)
     in c_rip x = e_entry (read_header (ld_mem k) efi) \<and> c_cs x = 0x33 \<and> c_ss x = 0x2b \<and>
        c_rflags x = rflags OR 0x200 \<and> c_regs x RSP = 0x200000)"
proof -
  let ?h = "read_header (ld_mem k) efi"
  have can: "canonical (e_entry ?h)" using assms(8) by (simp add: loadable_def Let_def)
  obtain m s mem' where r: "add_user_process L X M B rflags efi k =
      Some (Inr (Inr (), k\<lparr>ld_mapper := m, ld_mapper_locked := False, ld_frames := s,
        ld_frames_locked := False, ld_mem := mem',
        ld_sched := (ld_sched k)\<lparr>proc_list := Some (ps @ [user_process])\<rparr>\<rparr>))"
    "user_frame X (e_entry ?h) (rflags OR 0x200) (load_mem efi progs (ld_mem k)) = Inr mem'"
    "bitmap_inv X B bits s"
    "\<forall>q\<in>set (all_pages progs @ user_stack). \<exists>f. f \<in> set (bitmap_free bits (ld_frames k)) \<and>
       f \<notin> set (bitmap_free bits s) \<and> tr m q = Some (f, user_flags)"
    "\<forall>q. q \<notin> set (all_pages progs @ user_stack) \<longrightarrow> tr m q = tr (ld_mapper k) q"
    using add_user_process_ok [OF assms, of rflags] by blast
  obtain mem'' where fr: "user_frame X (e_entry ?h) (rflags OR 0x200) (load_mem efi progs (ld_mem k)) = Inr mem''"
    "mem_bytes mem'' 0x1fc080 8 = le_bytes 8 (e_entry ?h)"
    "mem_bytes mem'' 0x1fc088 2 = le_bytes 2 (0x33 :: u16)"
    "mem_bytes mem'' 0x1fc090 8 = le_bytes 8 (rflags OR 0x200)"
    "mem_bytes mem'' 0x1fc098 8 = le_bytes 8 (0x200000 :: u64)"
    "mem_bytes mem'' 0x1fc0a0 2 = le_bytes 2 (0x2b :: u16)"
    "\<And>a. a AND NOT 4095 \<noteq> 0x1fc000 \<Longrightarrow> mem'' a = load_mem efi progs (ld_mem k) a"
    using user_frame_ok [OF assms(2) can, of "rflags OR 0x200" "load_mem efi progs (ld_mem k)"] by blast
  have mm: "mem'' = mem'" using r(2) fr(1) by simp
  note ctx = user_context [OF fr(2-6), unfolded mm]
  have seg: "\<forall>p\<in>set progs. \<forall>a. in_seg p a \<longrightarrow> mem' a =
       (if unat (a - p_vaddr p) < unat (p_filesz p)
        then ld_mem k (efi + p_offset p + (a - p_vaddr p)) else 0)"
    using loaded_segment [OF assms(8) _ _ fr(7), unfolded mm] by blast
  have st: "sched_state ((ld_sched k)\<lparr>proc_list := Some (ps @ [user_process])\<rparr>) (ps @ [user_process]) c"
    by (rule push_process_state(2) [OF assms(1,7)]) (simp add: user_process_def)
  show ?thesis
    unfolding r(1) Let_def
    by (rule exI, intro conjI, rule refl) (use ctx seg st r(3-5) in simp_all)
qed

section \<open>Properties\<close>

text \<open>
  C4: a program is loaded as its file says. For a loadable ELF file and enough free frames,
  \<open>add_user_process\<close> succeeds: every segment's memory holds the bytes of the file and zeros after
  them; every page of the segments and of the stack is mapped present, writable and for the user,
  to a frame that was free and no longer is; no other page changes; and the process is appended to
  the list, ready, with a saved context that starts at the file's entry point in ring 3, with
  interrupts enabled and the stack pointer at the top of the user stack. All locks are free again.
\<close>

theorem user_process_loaded:
  assumes "spin_ok L" "x86_addr_ok X" "mapper_ok M tr hp (bitmap_allocate_frame X B)"
    "bitmap_inv X B bits (ld_frames k)"
    "\<not> ld_mapper_locked k" "\<not> ld_frames_locked k" "sched_state (ld_sched k) ps c"
    "loadable efi F progs (ld_mem k)"
    "4 * (total_pages progs + 5) \<le> length (bitmap_free bits (ld_frames k))"
    "\<forall>q\<in>set (all_pages progs @ user_stack). tr (ld_mapper k) q = None \<and> \<not> hp (ld_mapper k) q"
  shows "\<exists>k'. add_user_process L X M B rflags efi k = Some (Inr (Inr (), k')) \<and>
    \<not> ld_mapper_locked k' \<and> \<not> ld_frames_locked k' \<and>
    sched_state (ld_sched k') (ps @ [user_process]) c \<and>
    (\<forall>p\<in>set progs. \<forall>a. in_seg p a \<longrightarrow> ld_mem k' a =
       (if unat (a - p_vaddr p) < unat (p_filesz p)
        then ld_mem k (efi + p_offset p + (a - p_vaddr p)) else 0)) \<and>
    (\<forall>q\<in>set (all_pages progs @ user_stack). \<exists>f. f \<in> set (bitmap_free bits (ld_frames k)) \<and>
       f \<notin> set (bitmap_free bits (ld_frames k')) \<and> tr (ld_mapper k') q = Some (f, user_flags)) \<and>
    (\<forall>q. q \<notin> set (all_pages progs @ user_stack) \<longrightarrow> tr (ld_mapper k') q = tr (ld_mapper k) q) \<and>
    (let x = context_at (word_at (ld_mem k')) (p_rsp user_process)
     in c_rip x = e_entry (read_header (ld_mem k) efi) \<and> c_cs x = 0x33 \<and> c_ss x = 0x2b \<and>
        c_rflags x = rflags OR 0x200 \<and> c_regs x RSP = 0x200000)"
  using user_process_loaded_ok [OF assms, of rflags] by blast

text \<open>A file with one segment of three bytes, and a kernel with 2048 free frames.\<close>

definition sample_efi :: u64 where
  "sample_efi = 0x10000000"

definition sample_file :: bytes_mem where
  "sample_file = store_bytes (store_bytes (store_bytes (\<lambda>a. 0xcc) 0x10000000 (header_bytes sample_header))
     0x10000040 (program_bytes sample_program)) 0x10001000 [0xeb, 0xfe, 0x90]"

definition in_file :: "u64 \<Rightarrow> bool" where
  "in_file a \<longleftrightarrow> unat (a - 0x10000000) < 0x1003"

lemma mem_bytes_store_apart:
  assumes "unat a + n \<le> unat b \<or> unat b + length bs \<le> unat a" "unat a + n < 2 ^ 63" "unat b + length bs < 2 ^ 63"
  shows "mem_bytes (store_bytes m b bs) a n = mem_bytes m a n"
proof (rule mem_bytes_cong)
  fix i assume i: "i < n"
  then have ui: "unat (of_nat i :: u64) = i"
    using assms(2) by (simp add: unsigned_of_nat take_bit_nat_eq_self)
  have a: "unat (a + of_nat i) = unat a + i" using i assms(2) by (subst unat_add_noovf) (simp_all add: ui)
  have "\<not> unat (a + of_nat i - b) < length bs"
    using assms i by (auto simp: unat_sub_if' a)
  then show "store_bytes m b bs (a + of_nat i) = m (a + of_nat i)" by (simp add: store_bytes_def)
qed

lemma sample_header_length: "length (header_bytes sample_header) = 64"
  by (rule length_header_bytes) (simp add: sample_header_def)

lemma sample_file_header: "read_header sample_file 0x10000000 = sample_header"
proof (rule read_header_bytes)
  show "length (e_ident sample_header) = 16" by (simp add: sample_header_def)
  show "mem_bytes sample_file 0x10000000 64 = header_bytes sample_header"
    using mem_bytes_store [of "header_bytes sample_header" "\<lambda>a. 0xcc" "0x10000000"]
    by (simp add: sample_file_def mem_bytes_store_apart length_program_bytes sample_header_length)
qed

lemma sample_file_program: "read_program sample_file 0x10000040 = sample_program"
proof (rule read_program_bytes)
  show "mem_bytes sample_file 0x10000040 56 = program_bytes sample_program"
    using mem_bytes_store [of "program_bytes sample_program"
        "store_bytes (\<lambda>a. 0xcc) 0x10000000 (header_bytes sample_header)" "0x10000040"]
    by (simp add: sample_file_def mem_bytes_store_apart length_program_bytes)
qed

lemma in_file_offset: "n < 0x1003 \<Longrightarrow> unat b + n < 0x1003 \<Longrightarrow> in_file (0x10000000 + b + of_nat n)"
proof -
  assume n: "n < 0x1003" "unat b + n < 0x1003"
  then have "unat (of_nat n :: u64) = n" by (simp add: unsigned_of_nat take_bit_nat_eq_self)
  then have "unat (b + of_nat n) = unat b + n" using n(2) by (subst unat_add_noovf) simp_all
  then show ?thesis using n by (simp add: in_file_def)
qed

lemma sample_loadable: "loadable sample_efi in_file [sample_program] sample_file"
proof -
  have h: "e_phoff sample_header = 0x40" "e_phnum sample_header = 1" "e_entry sample_header = 0x401000"
    by (simp_all add: sample_header_def)
  have p: "p_type sample_program = 1" "p_vaddr sample_program = 0x401000" "p_memsz sample_program = 8"
    "p_filesz sample_program = 3" "p_offset sample_program = 0x1000"
    by (simp_all add: sample_program_def)
  have "in_file (0x10000040 + of_nat i)" if "i < 56" for i
    using in_file_offset [of i "0x40"] that by simp
  moreover have "in_file (0x10001000 + of_nat i)" if "i < 3" for i
    using in_file_offset [of i "0x1000"] that by simp
  ultimately have f: "file_ok 0x10000000 in_file 0x10000040 [sample_program] sample_file"
    by (simp add: sample_file_program seg_ok_def p)
  have out: "\<not> in_file a" if a: "in_seg sample_program a" for a
  proof -
    define d where "d = unat (a - 0x401000)"
    have d: "d < 8" using a by (simp add: in_seg_def p d_def)
    have "a = 0x401000 + of_nat d" by (simp add: d_def)
    moreover have "unat (of_nat d :: u64) = d" using d by (simp add: unsigned_of_nat take_bit_nat_eq_self)
    ultimately have "unat a = 0x401000 + d" using d by (simp add: unat_add_noovf)
    then show ?thesis using d by (simp add: in_file_def unat_sub_if')
  qed
  have pg: "all_pages [sample_program] = [0x401000]"
    by (simp add: all_pages_def seg_pages_def seg_base_def seg_count_def p page_list_def)
  have "\<forall>i<64. in_file (0x10000000 + of_nat i)" using in_file_offset [of _ 0] by simp
  then show ?thesis
    using f out
    by (simp add: loadable_def Let_def sample_efi_def sample_file_header h pg user_stack_def page_list_def
        upt_rec canonical_def)
qed

definition sample_load :: "(u64 \<rightharpoonup> u64 \<times> page_flag set, bool list) loadk" where
  "sample_load =
     \<lparr>ld_sched = sched_init sched_uninit, ld_mapper = Map.empty, ld_mapper_locked = False,
      ld_frames = \<lparr>bm_memory_map = big_map, bm_bitmap = replicate 2048 False\<rparr>,
      ld_frames_locked = False, ld_mem = sample_file\<rparr>"

theorem user_process_loaded_witness:
  "\<exists>k'. add_user_process spin_ref x86_ref mapper_ref bitvec_ref 2 sample_efi sample_load =
      Some (Inr (Inr (), k')) \<and>
    map (ld_mem k') [0x401000, 0x401001, 0x401002, 0x401003, 0x401007] = [0xeb, 0xfe, 0x90, 0, 0] \<and>
    c_rip (context_at (word_at (ld_mem k')) (p_rsp user_process)) = 0x401000 \<and>
    ld_mapper k' 0x402000 = None"
proof -
  have k: "ld_frames sample_load = \<lparr>bm_memory_map = big_map, bm_bitmap = replicate 2048 False\<rparr>"
    "ld_mem sample_load = sample_file" "ld_mapper sample_load = Map.empty"
    "ld_sched sample_load = sched_init sched_uninit"
    "\<not> ld_mapper_locked sample_load" "\<not> ld_frames_locked sample_load"
    by (simp_all add: sample_load_def)
  have p: "p_type sample_program = 1" "p_vaddr sample_program = 0x401000" "p_memsz sample_program = 8"
    "p_filesz sample_program = 3" "p_offset sample_program = 0x1000"
    by (simp_all add: sample_program_def)
  have n: "total_pages [sample_program] = 1" by (simp add: total_pages_def seg_count_def p)
  have pg: "0x402000 \<notin> set (all_pages [sample_program] @ user_stack)"
    by (simp add: all_pages_def seg_pages_def seg_base_def seg_count_def p page_list_def user_stack_def upt_rec)
  obtain k' where k': "add_user_process spin_ref x86_ref mapper_ref bitvec_ref 2 sample_efi sample_load =
      Some (Inr (Inr (), k'))"
    "\<forall>q\<in>set [sample_program]. \<forall>a. in_seg q a \<longrightarrow> ld_mem k' a =
       (if unat (a - p_vaddr q) < unat (p_filesz q)
        then sample_file (sample_efi + p_offset q + (a - p_vaddr q)) else 0)"
    "\<forall>q. q \<notin> set (all_pages [sample_program] @ user_stack) \<longrightarrow> ld_mapper k' q = None"
    "c_rip (context_at (word_at (ld_mem k')) (p_rsp user_process)) =
       e_entry (read_header sample_file sample_efi)"
    using user_process_loaded [where bits = "\<lambda>b. b" and tr = "\<lambda>m. m" and hp = "\<lambda>_ _. False"
        and k = sample_load and rflags = 2, OF spin_ref_ok x86_ref_ok mapper_ref_ok _ _ _ _ _ _ _,
        unfolded k, OF big_frames_inv k(5,6) sched_init_state sample_loadable]
    by (auto simp: n big_frames_free Let_def)
  have bytes: "ld_mem k' (0x401000 + d) = (if unat d < 3 then sample_file (0x10001000 + d) else 0)"
    if "unat d < 8" for d
    using k'(2) that by (auto simp: in_seg_def p sample_efi_def)
  have "map (ld_mem k') [0x401000, 0x401001, 0x401002, 0x401003, 0x401007] = [0xeb, 0xfe, 0x90, 0, 0]"
    using bytes [of 0] bytes [of 1] bytes [of 2] bytes [of 3] bytes [of 7]
    by (simp add: sample_file_def store_bytes_def)
  then show ?thesis
    using k'(1,3,4) pg by (simp add: sample_efi_def sample_file_header) (simp add: sample_header_def)
qed

end
