(* ===== verification/Kernel_Thread.thy ===== *)
theory Kernel_Thread
  imports Loader
begin

text \<open>
  Kernel threads: \<open>add_process\<close> of \<open>kernel/src/sched.rs\<close>. It takes a stack of 0x4000 bytes from the
  kernel heap, writes at its bottom the context that the first switch to the thread restores, and
  appends the process to the list, with interrupts disabled. The heap is the allocator's model, the
  bytes of the stack are in the byte memory, and clearing the stack destroys every list node of the
  allocator that it would overlap.
\<close>

section \<open>Definitions\<close>

record threadk =
  th_sched :: sched
  th_heap :: heap
  th_mem :: bytes_mem

definition stack_layout :: layout where
  "stack_layout = \<lparr>lsize = 0x4000, lalign = 1\<rparr>"

text \<open>The interrupt stack frame, 120 bytes above the bottom of the stack.\<close>

definition thread_frame :: "x86_addr \<Rightarrow> u64 \<Rightarrow> u64 \<Rightarrow> u64 \<Rightarrow> bytes_mem \<Rightarrow> bytes_mem res" where
  "thread_frame X kernel_stack entry cpu_flags mem =
     (let stack_frame = kernel_stack + 120 in
      rbind (virt_addr_new X entry) (\<lambda>rip.
      let mem1 = store_bytes mem stack_frame (le_bytes 8 rip);
          mem2 = store_bytes mem1 (stack_frame + 8) (le_bytes 2 (segment_selector 1 0));
          mem3 = store_bytes mem2 (stack_frame + 16) (le_bytes 8 cpu_flags) in
      rbind (virt_addr_new X (kernel_stack + 0x4000)) (\<lambda>sp.
      let mem4 = store_bytes mem3 (stack_frame + 24) (le_bytes 8 sp) in
      Inr (store_bytes mem4 (stack_frame + 32) (le_bytes 2 (segment_selector 2 0))))))"

definition thread_process :: "u64 \<Rightarrow> process" where
  "thread_process kernel_stack =
     \<lparr>p_id = 1, p_status = READY, p_rsp = kernel_stack, p_kernel_stack = Some kernel_stack,
      p_mapper = None, p_pages = None\<rparr>"

text \<open>\<open>rflags\<close> is what reading the flags register gives; a failed \<open>Box::new\<close> panics.\<close>

definition add_process :: "spin \<Rightarrow> x86_addr \<Rightarrow> u64 \<Rightarrow> u64 \<Rightarrow> threadk \<Rightarrow> threadk run" where
  "add_process L X rflags entry k =
     runbind (acquire_list L (th_sched k)) (\<lambda>(s1, ps).
     let cpu_flags = rflags OR 0x200 in
     runbind (alloc (th_heap k) stack_layout) (\<lambda>(h, kernel_stack).
       if kernel_stack = 0 then Some (Inl (PanicMsg ''memory allocation of 16384 bytes failed''))
       else
         let mem0 = write_bytes (th_mem k) kernel_stack 0 0x4000 in
         runbind (Some (thread_frame X kernel_stack entry cpu_flags mem0)) (\<lambda>mem.
           Some (Inr (k\<lparr>th_heap := h\<lparr>store := clobber (store h) kernel_stack 0x4000\<rparr>,
                        th_mem := mem,
                        th_sched := s1\<lparr>proc_list := Some (ps @ [thread_process kernel_stack]),
                                       list_locked := False\<rparr>\<rparr>)))))"

section \<open>The first frame\<close>

lemma stack_layout [simp]: "layout_ok stack_layout" "adj_size stack_layout = 0x4000"
  "lsize stack_layout = 0x4000"
  using layout_okI [of 0 stack_layout]
  by (simp_all add: stack_layout_def adj_size_def adj_align_def round_up_def)

text \<open>Memory seen from the bottom of the stack.\<close>

definition seen_from :: "u64 \<Rightarrow> bytes_mem \<Rightarrow> bytes_mem" where
  "seen_from b m = (\<lambda>d. m (b + d))"

lemma seen_from_store [simp]: "seen_from b (store_bytes m (b + x) bs) = store_bytes (seen_from b m) x bs"
  by (simp add: seen_from_def store_bytes_def fun_eq_iff)

lemma seen_from_zeroed: "seen_from b (write_bytes m b 0 n) d = (if unat d < n then 0 else m (b + d))"
  by (simp add: seen_from_def write_bytes_def)

lemma word_at_seen_from: "word_at m (b + x) = word_at (seen_from b m) x"
  by (simp add: word_at_def mem_bytes_def seen_from_def add.assoc)

lemma context_at_seen_from: "context_at (word_at m) b = context_at (word_at (seen_from b m)) 0"
  using word_at_seen_from [of m b 0] by (simp add: context_at_def word_at_seen_from fun_eq_iff split: reg.split)

definition thread_context :: "u64 \<Rightarrow> u64 \<Rightarrow> u64 \<Rightarrow> cpu_context" where
  "thread_context kernel_stack entry cpu_flags =
     \<lparr>c_regs = (\<lambda>r. if r = RSP then kernel_stack + 0x4000 else 0), c_rip = entry, c_cs = 8,
      c_rflags = cpu_flags, c_ss = 0x10\<rparr>"

lemma le_word_zeros: "le_word (replicate n 0) = 0"
  by (induction n) auto

lemma thread_frame_ok:
  assumes X: "x86_addr_ok X" and c: "canonical entry" "canonical (b + 0x4000)"
  shows "\<exists>mem'. thread_frame X b entry fl (write_bytes mem b 0 0x4000) = Inr mem' \<and>
    context_at (word_at mem') b = thread_context b entry fl \<and>
    (\<forall>a. 0x4000 \<le> unat (a - b) \<longrightarrow> mem' a = mem a)"
proof -
  let ?z = "seen_from b (write_bytes mem b 0 0x4000)"
  let ?m1 = "store_bytes ?z 120 (le_bytes 8 entry)"
  let ?m2 = "store_bytes ?m1 128 (le_bytes 2 (8 :: u16))"
  let ?m3 = "store_bytes ?m2 136 (le_bytes 8 fl)"
  let ?m4 = "store_bytes ?m3 144 (le_bytes 8 (b + 0x4000))"
  let ?m5 = "store_bytes ?m4 152 (le_bytes 2 (0x10 :: u16))"
  obtain mem' where r: "thread_frame X b entry fl (write_bytes mem b 0 0x4000) = Inr mem'"
    "seen_from b mem' = ?m5"
    using c by (simp add: thread_frame_def Let_def virt_addr_new_ok [OF X] segment_selector_def add.assoc)
  have hi: "mem_bytes ?m5 120 8 = le_bytes 8 entry" "mem_bytes ?m5 128 2 = le_bytes 2 (8 :: u16)"
    "mem_bytes ?m5 136 8 = le_bytes 8 fl" "mem_bytes ?m5 144 8 = le_bytes 8 (b + 0x4000)"
    "mem_bytes ?m5 152 2 = le_bytes 2 (0x10 :: u16)"
    by (simp_all add: mem_bytes_def store_bytes_def le_bytes_def upt_rec unat_minus_1_64)
  have zero: "word_at ?m5 x = 0" if x: "unat x + 8 \<le> 120" for x
  proof -
    have "mem_bytes ?m5 x 8 = mem_bytes ?z x 8"
      using x by (simp add: mem_bytes_store_apart)
    also have "\<dots> = replicate 8 0"
      unfolding list_eq_iff_nth_eq mem_bytes_def
    proof (intro conjI allI impI)
      fix i assume i: "i < length (map (\<lambda>i. ?z (x + of_nat i)) [0..<8])"
      then have "unat (x + of_nat i) = unat x + i"
        using x by (subst unat_add_noovf) (simp_all add: unsigned_of_nat take_bit_nat_eq_self)
      then show "map (\<lambda>i. ?z (x + of_nat i)) [0..<8] ! i = replicate 8 0 ! i"
        using x i by (simp add: seen_from_zeroed)
    qed simp
    finally show ?thesis unfolding word_at_def by (simp only: le_word_zeros)
  qed
  have "context_at (word_at ?m5) 0 = thread_context b entry fl"
    using word_at_le_bytes [OF hi(1)] ucast_word_at [OF hi(2)] word_at_le_bytes [OF hi(3)]
      word_at_le_bytes [OF hi(4)] ucast_word_at [OF hi(5)]
    by (simp add: context_at_def thread_context_def zero fun_eq_iff split: reg.split)
  then have ctx: "context_at (word_at mem') b = thread_context b entry fl"
    using context_at_seen_from [of mem' b] r(2) by simp
  have "mem' a = mem a" if a: "0x4000 \<le> unat (a - b)" for a
  proof -
    have lim: "(unat (a - b - x) < n) = False" if "unat x + n \<le> 0x4000" for n and x :: u64
      using a that by (simp add: unat_sub_le word_le_nat_alt)
    have "mem' a = seen_from b mem' (a - b)" by (simp add: seen_from_def)
    also have "\<dots> = ?z (a - b)"
      unfolding r(2) by (simp add: store_bytes_def le_bytes_def lim)
    also have "\<dots> = mem a" using a by (simp add: seen_from_zeroed)
    finally show ?thesis .
  qed
  then show ?thesis using r(1) ctx by blast
qed

section \<open>The thread\<close>

lemma heap_block_canonical:
  assumes "heap_inv h ((p, stack_layout) # live)"
  shows "canonical (p + 0x4000)" "unat p + 0x4000 \<le> 0xffffffff80000000" "unat HEAP_START \<le> unat p"
proof -
  have b: "block_ok (unat p, 0x4000)"
    using heap_inv_blocks(2) [OF assms] by (simp add: owned_def)
  then show lim: "unat p + 0x4000 \<le> 0xffffffff80000000" "unat HEAP_START \<le> unat p"
    by (simp_all add: block_ok_def)
  have "unat (p + 0x4000) = unat p + 0x4000" using lim(1) by (subst unat_add_noovf) simp_all
  then show "canonical (p + 0x4000)" using lim by (simp add: canonical_def)
qed

lemma add_process_ok:
  assumes L: "spin_ok L" and X: "x86_addr_ok X" and s: "sched_state (th_sched k) ps c"
    and inv: "heap_inv (th_heap k) live" and e: "canonical entry"
    and a: "alloc (th_heap k) stack_layout = Some (Inr (h, b))" "b \<noteq> 0"
  shows "\<exists>k'. add_process L X rflags entry k = Some (Inr k') \<and>
    sched_state (th_sched k') (ps @ [thread_process b]) c \<and>
    heap_inv (th_heap k') ((b, stack_layout) # live) \<and>
    context_at (word_at (th_mem k')) b = thread_context b entry (rflags OR 0x200) \<and>
    (\<forall>a. 0x4000 \<le> unat (a - b) \<longrightarrow> th_mem k' a = th_mem k a)"
proof -
  have h: "heap_inv h ((b, stack_layout) # live)"
    using kernel_heap.alloc_law [OF inv stack_layout(1)] a by auto
  let ?h = "h\<lparr>store := clobber (store h) b 0x4000\<rparr>"
  have h': "heap_inv ?h ((b, stack_layout) # live)"
    by (rule client_write_inv [OF h, of b stack_layout]) simp_all
  obtain mem' where m: "thread_frame X b entry (rflags OR 0x200) (write_bytes (th_mem k) b 0 0x4000) = Inr mem'"
    "context_at (word_at mem') b = thread_context b entry (rflags OR 0x200)"
    "\<forall>a. 0x4000 \<le> unat (a - b) \<longrightarrow> mem' a = th_mem k a"
    using thread_frame_ok [OF X e heap_block_canonical(1) [OF h], of "rflags OR 0x200" "th_mem k"] by blast
  have push: "push_process L (th_sched k) (thread_process b) =
      Some (Inr ((th_sched k)\<lparr>proc_list := Some (ps @ [thread_process b])\<rparr>))"
    "sched_state ((th_sched k)\<lparr>proc_list := Some (ps @ [thread_process b])\<rparr>) (ps @ [thread_process b]) c"
    using push_process_state [OF L s, of "thread_process b"] by (simp_all add: thread_process_def)
  obtain s1 where s1: "acquire_list L (th_sched k) = Some (Inr (s1, ps))"
    "s1\<lparr>proc_list := Some (ps @ [thread_process b]), list_locked := False\<rparr> =
       (th_sched k)\<lparr>proc_list := Some (ps @ [thread_process b])\<rparr>"
    using L s push(1) by (auto simp: push_process_def acquire_simps sched_state_def)
  show ?thesis
    using a s1 m h' push(2) by (simp add: add_process_def Let_def)
qed

section \<open>Properties\<close>

text \<open>
  C19: a new kernel thread gets a stack of its own and a first context. If the heap has no block for
  the stack, \<open>add_process\<close> panics; otherwise the thread is appended to the list, ready; its stack is
  a live block of the heap (disjoint from all others, and the allocator's list is intact although
  the stack was cleared); and the context that the first switch will restore starts at the entry
  point in ring 0 with interrupts enabled, all registers zero and the stack pointer at the stack's
  top. No other byte changes.
\<close>

theorem kernel_thread_started:
  assumes "spin_ok L" "x86_addr_ok X" "sched_state (th_sched k) ps c"
    "heap_inv (th_heap k) live" "canonical entry"
  shows "\<exists>h b. alloc (th_heap k) stack_layout = Some (Inr (h, b)) \<and>
    (if b = 0
     then add_process L X rflags entry k =
       Some (Inl (PanicMsg ''memory allocation of 16384 bytes failed''))
     else \<exists>k'. add_process L X rflags entry k = Some (Inr k') \<and>
       sched_state (th_sched k') (ps @ [thread_process b]) c \<and>
       heap_inv (th_heap k') ((b, stack_layout) # live) \<and>
       context_at (word_at (th_mem k')) b = thread_context b entry (rflags OR 0x200) \<and>
       (\<forall>a. 0x4000 \<le> unat (a - b) \<longrightarrow> th_mem k' a = th_mem k a))"
proof -
  obtain h b where a: "alloc (th_heap k) stack_layout = Some (Inr (h, b))"
    using kernel_heap.alloc_law [OF assms(4) stack_layout(1)] by blast
  show ?thesis
  proof (cases "b = 0")
    case True
    then have "add_process L X rflags entry k =
        Some (Inl (PanicMsg ''memory allocation of 16384 bytes failed''))"
      using a assms(1,3) by (simp add: add_process_def acquire_simps sched_state_def)
    then show ?thesis using a True by simp
  next
    case False
    then show ?thesis using add_process_ok [OF assms a] a by simp
  qed
qed

text \<open>A kernel after \<open>sched::init\<close> and \<open>init_heap\<close>.\<close>

definition sample_thread :: threadk where
  "sample_thread =
     \<lparr>th_sched = sched_init sched_uninit, th_heap = fresh_heap, th_mem = (\<lambda>a. 0xcc)\<rparr>"

lemma stack_alloc_fresh: "\<exists>h. alloc fresh_heap stack_layout = Some (Inr (h, HEAP_START))"
proof -
  have al: "adj_align stack_layout = 8" by (simp add: stack_layout_def adj_align_def)
  have sp: "spec_alloc 0x4000 8 [(unat HEAP_START, unat HEAP_SIZE)] =
      ([(0xffffffff7fe04000, 0x1fc000)], Some (unat HEAP_START))"
    by (simp add: spec_alloc_def fits_def leftover_def round_up_def)
  obtain h p where a: "alloc fresh_heap stack_layout = Some (Inr (h, p))"
    "case snd (spec_alloc (adj_size stack_layout) (adj_align stack_layout)
       [(unat HEAP_START, unat HEAP_SIZE)]) of None \<Rightarrow> p = 0 | Some s \<Rightarrow> unat p = s"
    by (rule alloc_refines_ex [OF fresh_heap_ok stack_layout(1)])
  then have "unat p = unat HEAP_START" using sp al by simp
  then have "p = HEAP_START" by (simp only: word_unat_eq_iff)
  then show ?thesis using a(1) by blast
qed

theorem kernel_thread_started_witness:
  "\<exists>k'. add_process spin_ref x86_ref 2 0xffffffff80001000 sample_thread = Some (Inr k') \<and>
    context_at (word_at (th_mem k')) HEAP_START = thread_context HEAP_START 0xffffffff80001000 0x202"
proof -
  obtain h where h: "alloc fresh_heap stack_layout = Some (Inr (h, HEAP_START))"
    using stack_alloc_fresh by blast
  have k: "th_sched sample_thread = sched_init sched_uninit" "th_heap sample_thread = fresh_heap"
    by (simp_all add: sample_thread_def)
  have "(HEAP_START :: u64) \<noteq> 0" by (simp add: HEAP_START_def HEAP_SIZE_def)
  then show ?thesis
    using kernel_thread_started [of spin_ref x86_ref sample_thread "[kernel_process]" 0 "[]"
        "0xffffffff80001000" 2] h
    by (auto simp: k spin_ref_ok x86_ref_ok sched_init_state fresh_heap_inv canonical_def)
qed

text \<open>
  C18: a new kernel thread runs. If the process before it in the list is interrupted by the timer
  after \<open>add_process\<close> has returned, with its own stack outside the new one, the CPU leaves the
  handler in the thread's first context: at its entry point in ring 0, with interrupts enabled, on
  its own stack.
\<close>

theorem new_thread_runs:
  assumes "timer_ok D T" "x86_addr_ok X" "sched_state (th_sched k) ps c" "c = length ps - 1"
    "p_status (ps ! c) = RUNNING" "heap_inv (th_heap k) live" "canonical entry"
    "alloc (th_heap k) stack_layout = Some (Inr (h, b))" "b \<noteq> 0"
    "add_process (t_spin T) X rflags entry k = Some (Inr k')"
    "lapic_ready kn" "k_sched kn = th_sched k'" "c_mem cpu = word_at (th_mem k')"
    "stack_room D (save_addr T cpu)"
    "unat (save_addr T cpu) + 160 \<le> unat b \<or> unat b + 0x4000 \<le> unat (save_addr T cpu) - D"
  shows "\<exists>cpu' kn'. timer_interrupt T (cpu, kn) = Some (Inr (cpu', kn')) \<and>
    context_of cpu' = thread_context b entry (rflags OR 0x200)"
proof -
  have L: "spin_ok (t_spin T)" using assms(1) by (simp add: timer_ok_def)
  have k': "sched_state (th_sched k') (ps @ [thread_process b]) c"
    "heap_inv (th_heap k') ((b, stack_layout) # live)"
    "context_at (word_at (th_mem k')) b = thread_context b entry (rflags OR 0x200)"
    using add_process_ok [OF L assms(2,3,6,7,8,9), of rflags] assms(10) by auto
  have c: "c < length ps" "Suc c = length ps" using assms(3,4) by (auto simp: sched_state_def)
  let ?rs = "map p_rsp (ps @ [thread_process b])"
  have v: "sched_view (k_sched kn) = Some (?rs, c)"
    using k'(1) assms(5,12) c(1) by (auto simp: sched_view_iff nth_append)
  obtain cpu' kn' v' r where t: "timer_interrupt T (cpu, kn) = Some (Inr (cpu', kn'))"
    "rr_tick (?rs, c) (save_addr T cpu) = (v', r)" "context_of cpu' = context_at (c_mem cpu') r"
    "\<forall>a. unat a < unat (save_addr T cpu) - D \<or> unat (save_addr T cpu) + 160 \<le> unat a \<longrightarrow>
       c_mem cpu' a = c_mem cpu a"
    using timer_interrupt_switch [OF assms(1,11) v assms(14)] by blast
  have r: "r = b" using t(2) c by (auto simp: Let_def nth_append thread_process_def)
  have "context_at (c_mem cpu') b = context_at (c_mem cpu) b"
  proof (rule context_at_cong [of 0])
    show "stack_room 0 b" using heap_block_canonical(2) [OF k'(2)] by (simp add: stack_room_def)
    fix a :: u64 assume a: "unat b \<le> unat a" "unat a < unat b + 160"
    then have "unat a < unat (save_addr T cpu) - D \<or> unat (save_addr T cpu) + 160 \<le> unat a"
      using assms(15) by linarith
    then show "c_mem cpu' a = c_mem cpu a" using t(4) by blast
  qed
  then show ?thesis using t(1,3) r k'(3) assms(13) by simp
qed

theorem new_thread_runs_witness:
  "\<exists>k' cpu' kn'. add_process spin_ref x86_ref 2 0xffffffff80001000 sample_thread = Some (Inr k') \<and>
    timer_interrupt sample_timer (sample_cpu\<lparr>c_mem := word_at (th_mem k')\<rparr>,
        sample_kern\<lparr>k_sched := th_sched k'\<rparr>) = Some (Inr (cpu', kn')) \<and>
    context_of cpu' = thread_context HEAP_START 0xffffffff80001000 0x202"
proof -
  obtain h where h: "alloc (th_heap sample_thread) stack_layout = Some (Inr (h, HEAP_START))"
    using stack_alloc_fresh by (auto simp: sample_thread_def)
  have s: "sched_state (th_sched sample_thread) [kernel_process] 0"
    by (simp add: sample_thread_def sched_init_state)
  have i: "heap_inv (th_heap sample_thread) []" by (simp add: sample_thread_def fresh_heap_inv)
  have c: "canonical 0xffffffff80001000" by (simp add: canonical_def)
  have n: "(HEAP_START :: u64) \<noteq> 0" by (simp add: HEAP_START_def HEAP_SIZE_def)
  obtain k' where k': "add_process spin_ref x86_ref 2 0xffffffff80001000 sample_thread = Some (Inr k')"
    using add_process_ok [OF spin_ref_ok x86_ref_ok s i c h n] by blast
  let ?cpu = "sample_cpu\<lparr>c_mem := word_at (th_mem k')\<rparr>"
  have p: "save_addr sample_timer ?cpu = 0x7f60"
    by (simp add: save_addr_def frame_base_def sample_timer_def sample_cpu_def)
  have t: "t_spin sample_timer = spin_ref" by (simp add: sample_timer_def)
  have "\<exists>cpu' kn'. timer_interrupt sample_timer (?cpu, sample_kern\<lparr>k_sched := th_sched k'\<rparr>) =
      Some (Inr (cpu', kn')) \<and> context_of cpu' = thread_context HEAP_START 0xffffffff80001000 (2 OR 0x200)"
    by (rule new_thread_runs [OF sample_timer_ok x86_ref_ok s _ _ i c h n])
      (use k' sample_kern_ok in \<open>simp_all add: p t kernel_process_def lapic_ready_def
         stack_room_def\<close>)
  then show ?thesis using k' by auto
qed

end
