(* ===== verification/Interrupts.thy ===== *)
theory Interrupts
  imports Context Pipe Framebuffer Segments
begin

text \<open>
  Interrupts: the descriptor table, the exception handlers and the interrupt handlers of
  \<open>kernel/src/int.rs\<close>. The table is keyed by the exception or the vector that the CPU delivers; the
  naked timer handler is the instruction list of the theory \<open>Context\<close>, the other handlers are
  functions on the kernel's state. The decoder of key codes (crate \<open>pc_keyboard\<close>) and the texts of
  stack frames (\<open>Debug\<close> of the crate \<open>x86_64\<close>) are parameters.
\<close>

section \<open>The descriptor table\<close>

datatype interrupt_index = Timer | Keyboard | LapicError | Spurious

fun as_u8 :: "interrupt_index \<Rightarrow> u8" where
  "as_u8 Timer = 32"
| "as_u8 Keyboard = 33"
| "as_u8 LapicError = 34"
| "as_u8 Spurious = 0xFF"

fun as_u32 :: "interrupt_index \<Rightarrow> u32" where
  "as_u32 Timer = 32"
| "as_u32 Keyboard = 33"
| "as_u32 LapicError = 34"
| "as_u32 Spurious = 0xFF"

datatype exc =
    Divide_Error | Debug | Non_Maskable_Interrupt | Breakpoint | Overflow | Bound_Range_Exceeded
  | Invalid_Opcode | Device_Not_Available | Double_Fault | Invalid_Tss | Segment_Not_Present
  | Stack_Segment_Fault | General_Protection_Fault | Page_Fault | X87_Floating_Point
  | Alignment_Check | Machine_Check | Simd_Floating_Point | Virtualization
  | Cp_Protection_Exception | Hv_Injection_Exception | Vmm_Communication_Exception
  | Security_Exception

datatype handler =
    divide_error_handler | debug_handler | non_maskable_interrupt_handler | breakpoint_handler
  | overflow_handler | bound_range_exceeded_handler | invalid_opcode_handler
  | device_not_available_handler | double_fault_handler | invalid_tss_handler
  | segment_not_present_handler | stack_segment_fault_handler | general_protection_fault_handler
  | page_fault_handler | x87_floating_point_handler | alignment_check_handler
  | machine_check_handler | simd_floating_point_handler | virtualization_handler
  | cp_protection_handler | hv_injection_handler | vmm_communication_handler | security_handler
  | naked_timer_handler | keyboard_interrupt_handler | lapic_error_handler
  | spurious_interrupt_handler

record gate =
  g_handler :: handler
  g_stack_index :: "nat option"

record idt =
  idt_exc :: "exc \<rightharpoonup> gate"
  idt_irq :: "u8 \<rightharpoonup> gate"

definition idt_new :: idt where
  "idt_new = \<lparr>idt_exc = Map.empty, idt_irq = Map.empty\<rparr>"

definition set_handler_fn :: "exc \<Rightarrow> handler \<Rightarrow> idt \<Rightarrow> idt" where
  "set_handler_fn e h t = t\<lparr>idt_exc := (idt_exc t)(e \<mapsto> \<lparr>g_handler = h, g_stack_index = None\<rparr>)\<rparr>"

definition set_stack_index :: "exc \<Rightarrow> nat \<Rightarrow> idt \<Rightarrow> idt" where
  "set_stack_index e i t =
     t\<lparr>idt_exc := (idt_exc t)(e := map_option (\<lambda>g. g\<lparr>g_stack_index := Some i\<rparr>) (idt_exc t e))\<rparr>"

definition set_irq :: "interrupt_index \<Rightarrow> handler \<Rightarrow> idt \<Rightarrow> idt" where
  "set_irq v h t = t\<lparr>idt_irq := (idt_irq t)(as_u8 v \<mapsto> \<lparr>g_handler = h, g_stack_index = None\<rparr>)\<rparr>"

definition IDT :: idt where
  "IDT =
     (let t = idt_new;
          t = set_handler_fn Divide_Error divide_error_handler t;
          t = set_handler_fn Debug debug_handler t;
          t = set_handler_fn Non_Maskable_Interrupt non_maskable_interrupt_handler t;
          t = set_handler_fn Breakpoint breakpoint_handler t;
          t = set_handler_fn Overflow overflow_handler t;
          t = set_handler_fn Bound_Range_Exceeded bound_range_exceeded_handler t;
          t = set_handler_fn Invalid_Opcode invalid_opcode_handler t;
          t = set_handler_fn Device_Not_Available device_not_available_handler t;
          t = set_stack_index Double_Fault DOUBLE_FAULT_IST_INDEX
                (set_handler_fn Double_Fault double_fault_handler t);
          t = set_handler_fn Invalid_Tss invalid_tss_handler t;
          t = set_handler_fn Segment_Not_Present segment_not_present_handler t;
          t = set_handler_fn Stack_Segment_Fault stack_segment_fault_handler t;
          t = set_handler_fn General_Protection_Fault general_protection_fault_handler t;
          t = set_handler_fn Page_Fault page_fault_handler t;
          t = set_handler_fn X87_Floating_Point x87_floating_point_handler t;
          t = set_handler_fn Alignment_Check alignment_check_handler t;
          t = set_handler_fn Machine_Check machine_check_handler t;
          t = set_handler_fn Simd_Floating_Point simd_floating_point_handler t;
          t = set_handler_fn Virtualization virtualization_handler t;
          t = set_handler_fn Cp_Protection_Exception cp_protection_handler t;
          t = set_handler_fn Hv_Injection_Exception hv_injection_handler t;
          t = set_handler_fn Vmm_Communication_Exception vmm_communication_handler t;
          t = set_handler_fn Security_Exception security_handler t;
          t = set_irq Timer naked_timer_handler t;
          t = set_irq Keyboard keyboard_interrupt_handler t;
          t = set_irq LapicError lapic_error_handler t;
          t = set_irq Spurious spurious_interrupt_handler t
      in t)"

section \<open>The state and the parameters\<close>

record ('q, 'kb) intk =
  ik_kern :: kern
  ik_pipe :: "'q option"
  ik_keyboard :: 'kb
  ik_keyboard_locked :: bool
  ik_logger :: "logger option"

datatype 'raw decoded_key = Unicode u32 | RawKey 'raw

record ('kb, 'ev, 'raw) pc_keyboard =
  kb_add_byte :: "'kb \<Rightarrow> u8 \<Rightarrow> (unit + 'ev option) \<times> 'kb"
  kb_process_keyevent :: "'kb \<Rightarrow> 'ev \<Rightarrow> 'raw decoded_key option \<times> 'kb"

record ('q, 'kb, 'ev, 'raw, 'f) int_ops =
  io_spin :: spin
  io_font :: font
  io_queue :: "'q array_queue"
  io_keyboard :: "('kb, 'ev, 'raw) pc_keyboard"
  io_show_frame :: "'f \<Rightarrow> string"
  io_show_page_fault :: "u64 \<Rightarrow> string"

definition codes :: "string \<Rightarrow> u32 list" where
  "codes s = map (\<lambda>c. of_nat (of_char c)) s"

text \<open>Numbers as \<open>core::fmt\<close> writes them.\<close>

function digits :: "nat \<Rightarrow> nat \<Rightarrow> string" where
  "digits b n =
     (let d = (\<lambda>i. char_of (if i < 10 then 48 + i else 87 + i))
      in if n < b \<or> b < 2 then [d n] else digits b (n div b) @ [d (n mod b)])"
  by auto
termination
  by (relation "measure snd") auto

declare digits.simps [simp del]

text \<open>The macros of the crate \<open>log\<close>: without a logger they do nothing. A panic stops the machine.\<close>

definition log_msg :: "('q, 'kb, 'ev, 'raw, 'f) int_ops \<Rightarrow> string \<Rightarrow> string list \<Rightarrow>
    ('q, 'kb) intk \<Rightarrow> ('q, 'kb) intk run" where
  "log_msg S level args k =
     (case ik_logger k of
        None \<Rightarrow> Some (Inr k)
      | Some lg \<Rightarrow>
          (case log (io_spin S) (io_font S) lg (codes level) (map codes args) of
             None \<Rightarrow> None
           | Some (Inl (e, lg')) \<Rightarrow> Some (Inl e)
           | Some (Inr lg') \<Rightarrow> Some (Inr (k\<lparr>ik_logger := Some lg'\<rparr>))))"

definition fault :: "('q, 'kb, 'ev, 'raw, 'f) int_ops \<Rightarrow> string \<Rightarrow> string \<Rightarrow> 'f \<Rightarrow> ('q, 'kb) intk run" where
  "fault S name detail fr =
     Some (Inl (PanicMsg (''EXCEPTION: '' @ name @ [CHR 0x0A] @ detail @ io_show_frame S fr)))"

section \<open>The keyboard\<close>

definition as_ascii :: "u32 \<Rightarrow> u8 option" where
  "as_ascii c = (if c < 128 then Some (ucast c) else None)"

text \<open>\<open>scancode\<close> is the byte that reading port 0x60 gives.\<close>

definition keyboard_handler :: "('q, 'kb, 'ev, 'raw, 'f) int_ops \<Rightarrow> u8 \<Rightarrow> ('q, 'kb) intk \<Rightarrow> ('q, 'kb) intk run" where
  "keyboard_handler S scancode k =
     runbind (send_eoi (io_spin S) (ik_kern k)) (\<lambda>kern.
       let K = io_keyboard S in
       case spin_acquire (io_spin S) (ik_keyboard_locked k) of
         None \<Rightarrow> None
       | Some _ \<Rightarrow>
           let fin = (\<lambda>kb. k\<lparr>ik_kern := kern, ik_keyboard := kb, ik_keyboard_locked := False\<rparr>) in
           (case kb_add_byte K (ik_keyboard k) scancode of
              (Inr (Some key_event), kb1) \<Rightarrow>
                (case kb_process_keyevent K kb1 key_event of
                   (Some (Unicode character), kb2) \<Rightarrow>
                     (case as_ascii character of
                        Some c \<Rightarrow>
                          runbind (Some (runwrap UnwrapFailed (ik_pipe k))) (\<lambda>pipe.
                          runbind (Some (pipe_write (io_queue S) pipe [c])) (\<lambda>pipe'.
                            Some (Inr ((fin kb2)\<lparr>ik_pipe := Some pipe'\<rparr>))))
                      | None \<Rightarrow> Some (Inr (fin kb2)))
                 | (Some (RawKey _), kb2) \<Rightarrow> Some (Inr (fin kb2))
                 | (None, kb2) \<Rightarrow> Some (Inr (fin kb2)))
            | (_, kb1) \<Rightarrow> Some (Inr (fin kb1))))"

section \<open>All handlers\<close>

text \<open>
  The handlers by name, with the stack frame and the error code that the CPU pushes, and the byte
  that the keyboard's port gives. The naked handler is not a Rust function on this state.
\<close>

definition lapic_error_log :: "('q, 'kb, 'ev, 'raw, 'f) int_ops \<Rightarrow> ('q, 'kb) intk \<Rightarrow> ('q, 'kb) intk run" where
  [simp]: "lapic_error_log S k = log_msg S ''ERROR'' [''lapic internal''] k"

definition spurious_interrupt_log :: "('q, 'kb, 'ev, 'raw, 'f) int_ops \<Rightarrow> ('q, 'kb) intk \<Rightarrow> ('q, 'kb) intk run" where
  [simp]: "spurious_interrupt_log S k = log_msg S ''INFO'' [''spurious interrupt''] k"

fun run_handler :: "('q, 'kb, 'ev, 'raw, 'f) int_ops \<Rightarrow> handler \<Rightarrow> 'f \<Rightarrow> u64 \<Rightarrow> u8 \<Rightarrow>
    ('q, 'kb) intk \<Rightarrow> ('q, 'kb) intk run" where
  "run_handler S divide_error_handler fr ec sc k = fault S ''DIVIDE ERROR'' [] fr"
| "run_handler S debug_handler fr ec sc k =
     log_msg S ''WARN'' [''EXCEPTION: DEBUG'' @ [CHR 0x0A], io_show_frame S fr] k"
| "run_handler S non_maskable_interrupt_handler fr ec sc k = fault S ''NON MASKABLE INTERRUPT'' [] fr"
| "run_handler S breakpoint_handler fr ec sc k =
     log_msg S ''WARN'' [''EXCEPTION: BREAKPOINT'' @ [CHR 0x0A], io_show_frame S fr] k"
| "run_handler S overflow_handler fr ec sc k = fault S ''OVERFLOW'' [] fr"
| "run_handler S bound_range_exceeded_handler fr ec sc k = fault S ''BOUND RANGE EXCEEDED'' [] fr"
| "run_handler S invalid_opcode_handler fr ec sc k = fault S ''INVALID OPCODE'' [] fr"
| "run_handler S device_not_available_handler fr ec sc k = fault S ''DEVICE NOT AVAILABLE'' [] fr"
| "run_handler S double_fault_handler fr ec sc k = fault S ''DOUBLE FAULT'' [] fr"
| "run_handler S invalid_tss_handler fr ec sc k = fault S ''INVALID TSS'' [] fr"
| "run_handler S segment_not_present_handler fr ec sc k =
     fault S ''SEGMENT NOT PRESENT'' (''ERROR_CODE: '' @ digits 10 (unat ec) @ [CHR 0x0A]) fr"
| "run_handler S stack_segment_fault_handler fr ec sc k = fault S ''STACK SEGMENT FAULT'' [] fr"
| "run_handler S general_protection_fault_handler fr ec sc k =
     fault S ''GENERAL PROTECTION FAULT'' (''ERROR_CODE: '' @ digits 16 (unat ec) @ [CHR 0x0A]) fr"
| "run_handler S page_fault_handler fr ec sc k =
     fault S ''PAGE FAULT'' (''ERROR_CODE: '' @ io_show_page_fault S ec @ [CHR 0x0A]) fr"
| "run_handler S x87_floating_point_handler fr ec sc k = fault S ''X87 FLOATING POINT'' [] fr"
| "run_handler S alignment_check_handler fr ec sc k = fault S ''ALIGMENT CHECK'' [] fr"
| "run_handler S machine_check_handler fr ec sc k = fault S ''MACHINE CHECK'' [] fr"
| "run_handler S simd_floating_point_handler fr ec sc k = fault S ''SIMD FLOATING POINT'' [] fr"
| "run_handler S virtualization_handler fr ec sc k = fault S ''VIRTUALIZATION'' [] fr"
| "run_handler S cp_protection_handler fr ec sc k = fault S ''CP PROTECTION'' [] fr"
| "run_handler S hv_injection_handler fr ec sc k = fault S ''HV INJECTION'' [] fr"
| "run_handler S vmm_communication_handler fr ec sc k = fault S ''VMM COMMUNICATION'' [] fr"
| "run_handler S security_handler fr ec sc k = fault S ''SECURITY'' [] fr"
| "run_handler S keyboard_interrupt_handler fr ec sc k = keyboard_handler S sc k"
| "run_handler S lapic_error_handler fr ec sc k = lapic_error_log S k"
| "run_handler S spurious_interrupt_handler fr ec sc k = spurious_interrupt_log S k"
| "run_handler S naked_timer_handler fr ec sc k = Some (Inl Undefined)"

text \<open>
  An exception, and an external interrupt other than the timer's, as the CPU delivers them through
  the table; a vector whose gate is not present raises the segment-not-present exception, whose error
  code has the vector and the bits for an external event and the interrupt table.
\<close>

definition raise_exc :: "('q, 'kb, 'ev, 'raw, 'f) int_ops \<Rightarrow> exc \<Rightarrow> 'f \<Rightarrow> u64 \<Rightarrow>
    ('q, 'kb) intk \<Rightarrow> ('q, 'kb) intk run" where
  "raise_exc S e fr ec k =
     (case idt_exc IDT e of
        None \<Rightarrow> Some (Inl Undefined)
      | Some g \<Rightarrow> run_handler S (g_handler g) fr ec 0 k)"

definition raise_irq :: "('q, 'kb, 'ev, 'raw, 'f) int_ops \<Rightarrow> u8 \<Rightarrow> 'f \<Rightarrow> u8 \<Rightarrow>
    ('q, 'kb) intk \<Rightarrow> ('q, 'kb) intk run" where
  "raise_irq S v fr sc k =
     (case idt_irq IDT v of
        None \<Rightarrow> raise_exc S Segment_Not_Present fr (8 * ucast v + 3) k
      | Some g \<Rightarrow> run_handler S (g_handler g) fr 0 sc k)"

section \<open>Lemmas\<close>

text \<open>Decoding: the bytes that a sequence of key codes types, and the decoder afterwards.\<close>

definition key_of :: "('kb, 'ev, 'raw) pc_keyboard \<Rightarrow> 'kb \<Rightarrow> u8 \<Rightarrow> u8 list \<times> 'kb" where
  "key_of K kb scancode =
     (case kb_add_byte K kb scancode of
        (Inr (Some ev), kb1) \<Rightarrow>
          (case kb_process_keyevent K kb1 ev of
             (Some (Unicode c), kb2) \<Rightarrow> (case as_ascii c of Some b \<Rightarrow> ([b], kb2) | None \<Rightarrow> ([], kb2))
           | (_, kb2) \<Rightarrow> ([], kb2))
      | (_, kb1) \<Rightarrow> ([], kb1))"

fun typed :: "('kb, 'ev, 'raw) pc_keyboard \<Rightarrow> 'kb \<Rightarrow> u8 list \<Rightarrow> u8 list \<times> 'kb" where
  "typed K kb [] = ([], kb)"
| "typed K kb (sc # scs) =
     (let (bs, kb1) = key_of K kb sc; (rest, kb2) = typed K kb1 scs in (bs @ rest, kb2))"

text \<open>One keyboard interrupt after the other, through the table.\<close>

fun key_interrupts :: "('q, 'kb, 'ev, 'raw, 'f) int_ops \<Rightarrow> 'f \<Rightarrow> u8 list \<Rightarrow>
    ('q, 'kb) intk \<Rightarrow> ('q, 'kb) intk run" where
  "key_interrupts S fr [] k = Some (Inr k)"
| "key_interrupts S fr (sc # scs) k =
     runbind (raise_irq S (as_u8 Keyboard) fr sc k) (key_interrupts S fr scs)"

lemma idt_fields [simp]:
  "idt_exc idt_new = Map.empty" "idt_irq idt_new = Map.empty"
  "idt_exc (set_handler_fn e h t) = (idt_exc t)(e \<mapsto> \<lparr>g_handler = h, g_stack_index = None\<rparr>)"
  "idt_irq (set_handler_fn e h t) = idt_irq t"
  "idt_exc (set_stack_index e i t) =
    (idt_exc t)(e := map_option (\<lambda>g. g\<lparr>g_stack_index := Some i\<rparr>) (idt_exc t e))"
  "idt_irq (set_stack_index e i t) = idt_irq t"
  "idt_exc (set_irq v h t) = idt_exc t"
  "idt_irq (set_irq v h t) = (idt_irq t)(as_u8 v \<mapsto> \<lparr>g_handler = h, g_stack_index = None\<rparr>)"
  by (simp_all add: idt_new_def set_handler_fn_def set_stack_index_def set_irq_def)

lemmas idt_irq_IDT = arg_cong [where f = idt_irq, OF IDT_def, unfolded Let_def idt_fields]

lemma idt_irq_gates:
  "idt_irq IDT v =
    (if v = 32 then Some \<lparr>g_handler = naked_timer_handler, g_stack_index = None\<rparr>
     else if v = 33 then Some \<lparr>g_handler = keyboard_interrupt_handler, g_stack_index = None\<rparr>
     else if v = 34 then Some \<lparr>g_handler = lapic_error_handler, g_stack_index = None\<rparr>
     else if v = 0xFF then Some \<lparr>g_handler = spurious_interrupt_handler, g_stack_index = None\<rparr>
     else None)"
  by (simp add: idt_irq_IDT)



definition keyboard_ready :: "spin \<Rightarrow> ('q, 'kb) intk \<Rightarrow> 'q \<Rightarrow> bool" where
  "keyboard_ready L k q \<longleftrightarrow>
     spin_ok L \<and> lapic_ready (ik_kern k) \<and> \<not> ik_keyboard_locked k \<and> ik_pipe k = Some q"

definition eoi_sent :: "kern \<Rightarrow> bool" where
  "eoi_sent k \<longleftrightarrow> (case k_lapic k of None \<Rightarrow> False | Some l \<Rightarrow> l ! 44 = 0)"

lemma send_eoi_sent:
  assumes "spin_ok L" "lapic_ready k"
  shows "\<exists>k'. send_eoi L k = Some (Inr k') \<and> k_sched k' = k_sched k \<and> lapic_ready k' \<and> eoi_sent k'"
  using assms by (auto simp: send_eoi_def lapic_ready_def spin_ok_def eoi_sent_def split: option.splits)

lemma keyboard_handler_step:
  assumes r: "keyboard_ready (io_spin S) k q"
    and key: "key_of (io_keyboard S) (ik_keyboard k) sc = (bs, kb')"
  shows "\<exists>kern. keyboard_handler S sc k =
      runbind (Some (pipe_write (io_queue S) q bs)) (\<lambda>q'.
        Some (Inr (k\<lparr>ik_kern := kern, ik_keyboard := kb', ik_pipe := Some q'\<rparr>))) \<and>
    k_sched kern = k_sched (ik_kern k) \<and> lapic_ready kern \<and> eoi_sent kern"
proof -
  note r' = r [unfolded keyboard_ready_def]
  obtain kern where e: "send_eoi (io_spin S) (ik_kern k) = Some (Inr kern)"
    "k_sched kern = k_sched (ik_kern k)" "lapic_ready kern" "eoi_sent kern"
    using send_eoi_sent r' by blast
  have norm: "k\<lparr>ik_kern := a, ik_keyboard := b, ik_keyboard_locked := False\<rparr> =
      k\<lparr>ik_kern := a, ik_keyboard := b\<rparr>"
    "k\<lparr>ik_kern := a, ik_keyboard := b, ik_pipe := Some q\<rparr> = k\<lparr>ik_kern := a, ik_keyboard := b\<rparr>" for a b
    using r' by (cases k; simp)+
  have "keyboard_handler S sc k =
      runbind (Some (pipe_write (io_queue S) q bs)) (\<lambda>q'.
        Some (Inr (k\<lparr>ik_kern := kern, ik_keyboard := kb', ik_pipe := Some q'\<rparr>)))"
    using r' key e(1) norm
    by (auto simp: keyboard_handler_def Let_def spin_ok_def key_of_def
        split: prod.splits sum.splits option.splits decoded_key.splits)
  then show ?thesis using e by blast
qed

lemma key_interrupts_deliver:
  assumes Q: "array_queue_ok (io_queue S) items cap"
  shows "keyboard_ready (io_spin S) k q \<Longrightarrow>
    typed (io_keyboard S) (ik_keyboard k) scs = (bs, kb') \<Longrightarrow>
    length (items q) + length bs \<le> cap q \<Longrightarrow>
    \<exists>k' q'. key_interrupts S fr scs k = Some (Inr k') \<and> keyboard_ready (io_spin S) k' q' \<and>
      items q' = items q @ bs \<and> cap q' = cap q \<and> ik_keyboard k' = kb' \<and>
      k_sched (ik_kern k') = k_sched (ik_kern k) \<and> ik_logger k' = ik_logger k \<and>
      (scs \<noteq> [] \<longrightarrow> eoi_sent (ik_kern k'))"
proof (induction scs arbitrary: k q bs)
  case Nil
  then show ?case by auto
next
  case (Cons sc scs)
  obtain b1 kb1 where key: "key_of (io_keyboard S) (ik_keyboard k) sc = (b1, kb1)"
    by (cases "key_of (io_keyboard S) (ik_keyboard k) sc")
  obtain b2 where rest: "typed (io_keyboard S) kb1 scs = (b2, kb')" "bs = b1 @ b2"
    using Cons.prems(2) key by (auto split: prod.splits)
  obtain kern where st: "keyboard_handler S sc k =
      runbind (Some (pipe_write (io_queue S) q b1)) (\<lambda>q'.
        Some (Inr (k\<lparr>ik_kern := kern, ik_keyboard := kb1, ik_pipe := Some q'\<rparr>)))"
    "k_sched kern = k_sched (ik_kern k)" "lapic_ready kern" "eoi_sent kern"
    using keyboard_handler_step [OF Cons.prems(1) key] by blast
  obtain q1 where q1: "pipe_write (io_queue S) q b1 = Inr q1" "items q1 = items q @ b1" "cap q1 = cap q"
    using pipe_write_ok [OF Q, of q b1] Cons.prems(3) rest(2) by auto
  let ?k = "k\<lparr>ik_kern := kern, ik_keyboard := kb1, ik_pipe := Some q1\<rparr>"
  have run: "raise_irq S (as_u8 Keyboard) fr sc k = Some (Inr ?k)"
    using st(1) q1(1) by (simp add: raise_irq_def idt_irq_gates)
  have ready: "keyboard_ready (io_spin S) ?k q1"
    using Cons.prems(1) st(3) by (simp add: keyboard_ready_def)
  obtain k' q' where k': "key_interrupts S fr scs ?k = Some (Inr k')" "keyboard_ready (io_spin S) k' q'"
    "items q' = items q1 @ b2" "cap q' = cap q1" "ik_keyboard k' = kb'"
    "k_sched (ik_kern k') = k_sched kern" "ik_logger k' = ik_logger k"
    "scs \<noteq> [] \<longrightarrow> eoi_sent (ik_kern k')"
    using Cons.IH [OF ready, of b2] rest Cons.prems(3) q1 by auto
  have "eoi_sent (ik_kern k')"
    using k'(1,8) st(4) by (cases "scs = []") auto
  then show ?case using run k' q1 rest(2) st(2) by auto
qed

text \<open>The keyboard handler panics on the character for which the pipe has no room.\<close>

lemma key_interrupts_full:
  assumes Q: "array_queue_ok (io_queue S) items cap"
  shows "keyboard_ready (io_spin S) k q \<Longrightarrow> length (items q) \<le> cap q \<Longrightarrow>
    cap q < length (items q) + length (fst (typed (io_keyboard S) (ik_keyboard k) scs)) \<Longrightarrow>
    key_interrupts S fr scs k = Some (Inl (Expect ''Pipe is full''))"
proof (induction scs arbitrary: k q)
  case Nil
  then show ?case by simp
next
  case (Cons sc scs)
  obtain b1 kb1 where key: "key_of (io_keyboard S) (ik_keyboard k) sc = (b1, kb1)"
    by (cases "key_of (io_keyboard S) (ik_keyboard k) sc")
  have len: "length (fst (typed (io_keyboard S) (ik_keyboard k) (sc # scs))) =
      length b1 + length (fst (typed (io_keyboard S) kb1 scs))"
    using key by (simp split: prod.split)
  obtain kern where st: "keyboard_handler S sc k =
      runbind (Some (pipe_write (io_queue S) q b1)) (\<lambda>q'.
        Some (Inr (k\<lparr>ik_kern := kern, ik_keyboard := kb1, ik_pipe := Some q'\<rparr>)))" "lapic_ready kern"
    using keyboard_handler_step [OF Cons.prems(1) key] by blast
  show ?case
  proof (cases "length (items q) + length b1 \<le> cap q")
    case True
    then obtain q1 where q1: "pipe_write (io_queue S) q b1 = Inr q1" "items q1 = items q @ b1" "cap q1 = cap q"
      using pipe_write_ok [OF Q] by blast
    let ?k = "k\<lparr>ik_kern := kern, ik_keyboard := kb1, ik_pipe := Some q1\<rparr>"
    have "keyboard_ready (io_spin S) ?k q1"
      using Cons.prems(1) st(2) by (simp add: keyboard_ready_def)
    from Cons.IH [OF this] have "key_interrupts S fr scs ?k = Some (Inl (Expect ''Pipe is full''))"
      using Cons.prems(3) len q1(2,3) True by simp
    then show ?thesis using st(1) q1(1) by (simp add: raise_irq_def idt_irq_gates)
  next
    case False
    then have "pipe_write (io_queue S) q b1 = Inl (Expect ''Pipe is full'')"
      using pipe_write_full [OF Q] Cons.prems(2) by simp
    then show ?thesis using st(1) by (simp add: raise_irq_def idt_irq_gates)
  qed
qed

section \<open>Properties\<close>

text \<open>
  C13: typing is delivered or stops the kernel. A sequence of keyboard interrupts, dispatched
  through the descriptor table, is equivalent to decoding the key codes. If the typed ASCII
  characters fit the input pipe behind what it holds, every interrupt returns, the pipe holds
  exactly these characters in addition, in order, the decoder is in the state that the key codes
  lead to, the end of the interrupt has been signalled, every lock is free, and the scheduler and
  the screen are untouched. If they do not fit, the handler panics.
\<close>

theorem keyboard_types:
  assumes "array_queue_ok (io_queue S) items cap" "keyboard_ready (io_spin S) k q"
    "length (items q) \<le> cap q"
  shows "if length (items q) + length (fst (typed (io_keyboard S) (ik_keyboard k) scs)) \<le> cap q
    then \<exists>k' q'. key_interrupts S fr scs k = Some (Inr k') \<and> keyboard_ready (io_spin S) k' q' \<and>
      (items q' = items q @ fst (typed (io_keyboard S) (ik_keyboard k) scs)) \<and>
      ik_keyboard k' = snd (typed (io_keyboard S) (ik_keyboard k) scs) \<and>
      k_sched (ik_kern k') = k_sched (ik_kern k) \<and> ik_logger k' = ik_logger k \<and>
      (scs \<noteq> [] \<longrightarrow> eoi_sent (ik_kern k'))
    else key_interrupts S fr scs k = Some (Inl (Expect ''Pipe is full''))"
proof (cases "length (items q) + length (fst (typed (io_keyboard S) (ik_keyboard k) scs)) \<le> cap q")
  case True
  show ?thesis
    unfolding if_P [OF True]
    using key_interrupts_deliver [OF assms(1,2) prod.collapse [symmetric] True] by blast
next
  case False
  then show ?thesis
    unfolding if_not_P [OF False] by (intro key_interrupts_full [OF assms]) simp
qed

text \<open>A decoder that types the code itself when a key is pressed and nothing when it is released.\<close>

definition keyboard_ref :: "(u8, u8, unit) pc_keyboard" where
  "keyboard_ref =
     \<lparr>kb_add_byte = (\<lambda>s c. (if c = 0xE0 then Inl () else if c < 0x80 then Inr (Some c) else Inr None, c)),
      kb_process_keyevent = (\<lambda>s c. (if c = 1 then Some (RawKey ()) else Some (Unicode (ucast c + 0x40)), s))\<rparr>"

definition int_ref :: "(nat \<times> u8 list, u8, u8, unit, unit) int_ops" where
  "int_ref =
     \<lparr>io_spin = spin_ref, io_font = sample_font, io_queue = queue_ref, io_keyboard = keyboard_ref,
      io_show_frame = (\<lambda>_. ''frame''), io_show_page_fault = (\<lambda>_. ''code'')\<rparr>"

definition sample_int :: "(nat \<times> u8 list, u8) intk" where
  "sample_int =
     \<lparr>ik_kern = sample_kern, ik_pipe = Some (128, []), ik_keyboard = 0, ik_keyboard_locked = False,
      ik_logger = Some (logger_new (replicate 144 7) (sample_info Rgb))\<rparr>"

lemma sample_int_ready: "keyboard_ready (io_spin int_ref) sample_int (128, [])"
  by (simp add: keyboard_ready_def int_ref_def sample_int_def spin_ref_ok sample_kern_ok)

lemma int_ref_queue: "array_queue_ok (io_queue int_ref) snd fst"
  using queue_ref_ok by (simp add: int_ref_def)

theorem keyboard_types_witness:
  "\<exists>k' n. key_interrupts int_ref () [8, 0x88, 1, 0xE0, 9, 0x89] sample_int = Some (Inr k') \<and>
    ik_pipe k' = Some (n, [72, 73])"
proof -
  have t: "typed (io_keyboard int_ref) (ik_keyboard sample_int) [8, 0x88, 1, 0xE0, 9, 0x89] = ([72, 73], 0x89)"
    by (simp add: int_ref_def keyboard_ref_def key_of_def as_ascii_def)
  obtain k' q' where k': "key_interrupts int_ref () [8, 0x88, 1, 0xE0, 9, 0x89] sample_int = Some (Inr k')"
    "keyboard_ready (io_spin int_ref) k' q'" "snd q' = [72, 73]"
    using keyboard_types [OF int_ref_queue sample_int_ready, of "[8, 0x88, 1, 0xE0, 9, 0x89]" "()",
        unfolded t] by (auto simp del: key_interrupts.simps)
  then show ?thesis by (cases q') (auto simp: keyboard_ready_def simp del: key_interrupts.simps)
qed







text \<open>A log call on a screen with room for the line.\<close>

definition can_log :: "('q, 'kb, 'ev, 'raw, 'f) int_ops \<Rightarrow> ('q, 'kb) intk \<Rightarrow> string \<Rightarrow> string list \<Rightarrow> bool" where
  "can_log S k level args \<longleftrightarrow>
     (case ik_logger k of
        None \<Rightarrow> True
      | Some lg \<Rightarrow> \<not> lg_locked lg \<and>
          (\<exists>n\<ge>length (log_line (codes level) (map codes args)). writer_inv (io_font S) n (lg_writer lg)))"

lemma log_msg_ok:
  assumes "spin_ok (io_spin S)" "can_log S k level args"
  shows "\<exists>lg'. log_msg S level args k = Some (Inr (k\<lparr>ik_logger := lg'\<rparr>)) \<and>
    (case lg' of None \<Rightarrow> ik_logger k = None | Some lg \<Rightarrow> \<not> lg_locked lg)"
proof (cases "ik_logger k")
  case None
  then show ?thesis by (auto simp: log_msg_def intro!: exI [of _ None])
next
  case (Some lg)
  then obtain n where lg: "\<not> lg_locked lg" "writer_inv (io_font S) n (lg_writer lg)"
    "length (log_line (codes level) (map codes args)) \<le> n"
    using assms(2) by (auto simp: can_log_def)
  obtain w where "write_str (io_font S) (lg_writer lg) (log_line (codes level) (map codes args)) = Inr w"
    using screen.wr_ok [OF lg(2,3)] by blast
  then show ?thesis
    using Some log_free [OF assms(1) lg(1)] by (auto simp: log_msg_def)
qed

lemma log_msg_held:
  "spin_ok (io_spin S) \<Longrightarrow> ik_logger k = Some lg \<Longrightarrow> lg_locked lg \<Longrightarrow> log_msg S level args k = None"
  by (simp add: log_msg_def log_held)


lemma sample_can_log:
  "length (log_line (codes level) (map codes args)) \<le> 99 \<Longrightarrow> can_log int_ref sample_int level args"
  using sample_long_inv by (auto simp: can_log_def sample_int_def int_ref_def logger_new_def)

lemma int_ref_spin: "spin_ok (io_spin int_ref)"
  by (simp add: int_ref_def spin_ref_ok)


text \<open>
  The handlers of the local APIC's error interrupt and of spurious interrupts return and change
  nothing but the screen. In particular the error handler, unlike the timer's and the keyboard's,
  does not write the end-of-interrupt register.
\<close>

theorem lapic_error_no_eoi:
  assumes "spin_ok (io_spin S)" "can_log S k ''ERROR'' [''lapic internal'']"
    "can_log S k ''INFO'' [''spurious interrupt'']"
  shows "\<exists>lg1 lg2. raise_irq S (as_u8 LapicError) fr sc k = Some (Inr (k\<lparr>ik_logger := lg1\<rparr>)) \<and>
    raise_irq S (as_u8 Spurious) fr sc k = Some (Inr (k\<lparr>ik_logger := lg2\<rparr>))"
  using log_msg_ok [OF assms(1,2)] log_msg_ok [OF assms(1,3)]
  by (auto simp: raise_irq_def idt_irq_gates)

theorem lapic_error_no_eoi_witness:
  "\<exists>lg'. raise_irq int_ref 34 () 0 sample_int = Some (Inr (sample_int\<lparr>ik_logger := lg'\<rparr>))"
proof -
  have "can_log int_ref sample_int ''ERROR'' [''lapic internal'']"
    "can_log int_ref sample_int ''INFO'' [''spurious interrupt'']"
    by (rule sample_can_log, simp add: log_line_def pad5_def codes_def)+
  from lapic_error_no_eoi [OF int_ref_spin this, of "()" 0] show ?thesis by auto
qed

end
