(* ===== verification/Phys_Window.thy ===== *)
theory Phys_Window
  imports X86_Addr Spin_Lock
begin

text \<open>
  The window onto physical memory: the boot loader maps all physical memory at one offset, which the
  kernel keeps in its page table object. \<open>memory::init\<close>, \<open>active_level_4_table\<close> and
  \<open>get_virtual_address\<close> of \<open>kernel/src/memory.rs\<close>, and the handler of \<open>kernel/src/acpi.rs\<close>, which
  gives the ACPI library its view of physical memory through the same window.
\<close>

section \<open>Page tables in the window\<close>

record offset_page_table =
  opt_table :: u64
  opt_offset :: u64

text \<open>The frame of the level 4 table is what the register CR3 holds.\<close>

definition active_level_4_table :: "x86_addr \<Rightarrow> u64 \<Rightarrow> u64 \<Rightarrow> u64 res" where
  "active_level_4_table X cr3 physical_memory_offset = virt_addr_add X physical_memory_offset cr3"

definition memory_init :: "x86_addr \<Rightarrow> u64 \<Rightarrow> u64 \<Rightarrow> offset_page_table res" where
  "memory_init X cr3 physical_memory_offset =
     rbind (active_level_4_table X cr3 physical_memory_offset) (\<lambda>level_4_table.
       Inr \<lparr>opt_table = level_4_table, opt_offset = physical_memory_offset\<rparr>)"

text \<open>
  \<open>get_virtual_address\<close> takes the lock of the page table to read the offset and releases it;
  \<open>NonNull::new\<close> fails for the null pointer.
\<close>

definition get_virtual_address :: "spin \<Rightarrow> bool \<Rightarrow> u64 \<Rightarrow> usize \<Rightarrow> u64 run" where
  "get_virtual_address L locked phys_offset physical_address =
     (case spin_acquire L locked of
        None \<Rightarrow> None
      | Some _ \<Rightarrow>
          let p = phys_offset + physical_address
          in if p = 0 then Some (Inl UnwrapFailed) else Some (Inr p))"

section \<open>The ACPI handler\<close>

record physical_mapping =
  physical_start :: usize
  virtual_start :: u64
  region_length :: usize
  mapped_length :: usize

definition map_physical_region :: "spin \<Rightarrow> bool \<Rightarrow> u64 \<Rightarrow> usize \<Rightarrow> usize \<Rightarrow> physical_mapping run" where
  "map_physical_region L locked phys_offset physical_address sz =
     runbind (get_virtual_address L locked phys_offset physical_address) (\<lambda>v.
       Some (Inr \<lparr>physical_start = physical_address, virtual_start = v, region_length = sz,
                  mapped_length = sz\<rparr>))"

definition unmap_physical_region :: "physical_mapping \<Rightarrow> 's \<Rightarrow> 's" where
  "unmap_physical_region region s = s"

text \<open>The other methods of the trait: each is \<open>todo!()\<close>.\<close>

datatype 'pci acpi_method =
    read_u8 usize | read_u16 usize | read_u32 usize | read_u64 usize
  | write_u8 usize u8 | write_u16 usize u16 | write_u32 usize u32 | write_u64 usize u64
  | read_io_u8 u16 | read_io_u16 u16 | read_io_u32 u16
  | write_io_u8 u16 u8 | write_io_u16 u16 u16 | write_io_u32 u16 u32
  | read_pci_u8 'pci u16 | read_pci_u16 'pci u16 | read_pci_u32 'pci u16
  | write_pci_u8 'pci u16 u8 | write_pci_u16 'pci u16 u16 | write_pci_u32 'pci u16 u32
  | nanos_since_boot | stall u64 | sleep u64
  | create_mutex | acquire_mutex u32 u16 | release_mutex u32

definition acpi_call :: "'pci acpi_method \<Rightarrow> 'v res" where
  "acpi_call m = Inl NotImplemented"

section \<open>Properties\<close>

lemma get_virtual_address_ok:
  assumes "spin_ok L" "0 < unat off + unat a" "unat off + unat a < 2 ^ 64"
  shows "get_virtual_address L False off a = Some (Inr (off + a))"
proof -
  have "unat (off + a) = unat off + unat a" using assms(3) by (simp add: unat_add_noovf)
  then have "off + a \<noteq> 0" using assms(2) by auto
  then show ?thesis using assms(1) by (simp add: get_virtual_address_def spin_ok_def Let_def)
qed

text \<open>
  The window is exact. For a region that the window covers without wrapping around, the ACPI
  handler maps it without waiting; the region keeps its start and length, every byte of it is at
  the window's offset plus its physical address, no two bytes share an address, and it never
  reaches below the window.
\<close>

theorem acpi_region_exact:
  assumes "spin_ok L" "0 < unat off + unat a" "unat off + unat a + unat sz \<le> 2 ^ 64" "i < unat sz"
  shows "\<exists>m. map_physical_region L False off a sz = Some (Inr m) \<and>
    physical_start m = a \<and> region_length m = sz \<and> mapped_length m = sz \<and>
    virtual_start m + of_nat i = off + (a + of_nat i) \<and>
    unat (virtual_start m + of_nat i) = unat off + unat a + i"
proof -
  have lim: "unat off + unat a < 2 ^ 64" using assms(3,4) by linarith
  note g = get_virtual_address_ok [OF assms(1,2) lim]
  have u: "unat (off + a) = unat off + unat a" using lim by (simp add: unat_add_noovf)
  have "unat (of_nat i :: u64) = i"
    using assms(3,4) by (simp add: unsigned_of_nat take_bit_nat_eq_self)
  then have "unat (off + a + of_nat i) = unat off + unat a + i"
    using assms(3,4) u by (subst unat_add_noovf) simp_all
  then show ?thesis using g by (simp add: map_physical_region_def add.assoc)
qed

theorem acpi_region_exact_witness:
  "\<exists>m. map_physical_region spin_ref False 0xffff800000000000 0xe0000 36 = Some (Inr m) \<and>
    unat (virtual_start m + of_nat 35) = 0xffff8000000e0023"
  using acpi_region_exact [OF spin_ref_ok, of "0xffff800000000000" "0xe0000" 36 35] by auto

end
