(* ===== verification/Apic.thy ===== *)
theory Apic
  imports Interrupts Phys_Window
begin

text \<open>
  Setting up the interrupt controllers: \<open>init_apic\<close> of \<open>kernel/src/int.rs\<close>. The devices are not
  code of the kernel: the model records every access to a port or to a device register in a trace,
  and what a read gives is any function of the accesses before it. The registers of the
  local APIC are named by their index in the array \<open>lapic\<close>, those of an IO APIC are reached
  through its select and window registers.
\<close>

section \<open>Device accesses\<close>

datatype event =
    Out u16 u8
  | In u16
  | LapicW nat u32
  | LapicR nat
  | SelW u64 u16
  | WinW u64 u32
  | WinR u64

type_synonym devices = "event list \<Rightarrow> event \<Rightarrow> u32"

type_synonym 'a io = "event list \<Rightarrow> ('a \<times> event list) run"

definition iobind :: "'a io \<Rightarrow> ('a \<Rightarrow> 'b io) \<Rightarrow> 'b io" where
  "iobind m f = (\<lambda>t. runbind (m t) (\<lambda>(x, t'). f x t'))"

definition emits :: "event list \<Rightarrow> unit io" where
  "emits es = (\<lambda>t. Some (Inr ((), t @ es)))"

definition reads :: "devices \<Rightarrow> event \<Rightarrow> u32 io" where
  "reads D e = (\<lambda>t. Some (Inr (D t e, t @ [e])))"

definition iores :: "'a run \<Rightarrow> 'a io" where
  "iores m = (\<lambda>t. runbind m (\<lambda>x. Some (Inr (x, t))))"

definition inb :: "devices \<Rightarrow> u16 \<Rightarrow> u8 io" where
  "inb D p = iobind (reads D (In p)) (\<lambda>v. iores (Some (Inr (ucast v))))"

section \<open>The parts of init\_apic\<close>

definition disable_pic :: "event list" where
  "disable_pic =
     [Out 0x20 0x11, Out 0xA0 0x11,
      Out 0x21 0xF8, Out 0xA1 0xF0,
      Out 0x21 0x4, Out 0xA1 0x2,
      Out 0x21 0x1, Out 0xA1 0x1,
      Out 0x21 0xff, Out 0xA1 0xff]"

definition lapic_setup :: "devices \<Rightarrow> unit io" where
  "lapic_setup D =
     iobind (emits [LapicW 56 0xFFFFFFFF]) (\<lambda>_.
     iobind (reads D (LapicR 52)) (\<lambda>v.
     emits
       [LapicW 52 ((v AND 0xFFFFFF) OR 0x1),
        LapicW 200 0x10000,
        LapicW 208 (push_bit 8 4 OR push_bit 16 1),
        LapicW 212 0x10000,
        LapicW 216 0x10000,
        LapicW 32 0x0,
        LapicW 220 (as_u32 LapicError OR 0x100),
        LapicW 60 (as_u32 Spurious OR 0x100),
        LapicW 200 (as_u32 Timer),
        LapicW 248 0x3]))"

definition pit_setup :: "devices \<Rightarrow> unit io" where
  "pit_setup D =
     iobind (inb D 0x61) (\<lambda>val.
     iobind (emits [Out 0x61 ((val AND 0xfd) OR 1), Out 0x43 0xB2, Out 0x42 0x9b]) (\<lambda>_.
     iobind (inb D 0x60) (\<lambda>_.
     emits [Out 0x42 0x2e])))"

text \<open>Start the one-shot countdown: a falling and a rising edge of its gate.\<close>

definition pit_start :: "devices \<Rightarrow> unit io" where
  "pit_start D =
     iobind (inb D 0x61) (\<lambda>v.
       let val = v AND 0xfe in emits [Out 0x61 val, Out 0x61 (val OR 1)])"

partial_function (option) pit_wait :: "devices \<Rightarrow> event list \<Rightarrow> (unit \<times> event list) run" where
  "pit_wait D t =
     (if (ucast (D t (In 0x61)) :: u8) AND 0x20 = 0 then pit_wait D (t @ [In 0x61])
      else Some (Inr ((), t @ [In 0x61])))"

text \<open>The timer's calibration; the result is the number of ticks in ten milliseconds.\<close>

definition lapic_timer :: "devices \<Rightarrow> u32 io" where
  "lapic_timer D =
     iobind (pit_setup D) (\<lambda>_.
     iobind (reads D (LapicR 200)) (\<lambda>v.
     iobind (emits [LapicW 200 (v OR 0x10000), LapicW 224 0xffffffff]) (\<lambda>_.
     iobind (pit_start D) (\<lambda>_.
     iobind (pit_wait D) (\<lambda>_.
     iobind (emits [LapicW 200 0x10000]) (\<lambda>_.
     iobind (reads D (LapicR 228)) (\<lambda>cnt.
     iobind (iores (Some (sub_chk 0xffffffff cnt))) (\<lambda>ticks_in_10ms.
     iobind (emits [LapicW 200 (as_u32 Timer OR 0x20000), LapicW 248 0x3, LapicW 224 ticks_in_10ms]) (\<lambda>_.
     iores (Some (Inr ticks_in_10ms)))))))))))"

record io_apic =
  ioa_address :: u32
  ioa_gsi_base :: u32

record apic_info =
  local_apic_address :: u64
  io_apics :: "io_apic list"

datatype interrupt_model = Apic_Model apic_info | Other_Model

text \<open>One iteration of the masking loop.\<close>

definition mask_irq :: "u64 \<Rightarrow> u64 \<Rightarrow> nat \<Rightarrow> event list" where
  "mask_irq sel win i =
     [SelW sel (0x10 + of_nat i * 2), WinW win (push_bit 16 1),
      SelW sel (0x11 + of_nat i * 2), WinW win 0x0]"

definition init_io_apic :: "spin \<Rightarrow> devices \<Rightarrow> bool \<Rightarrow> u64 \<Rightarrow> u32 \<Rightarrow> io_apic \<Rightarrow> unit io" where
  "init_io_apic L D locked off local_apic_id ioa =
     iobind (iores (get_virtual_address L locked off (ucast (ioa_address ioa)))) (\<lambda>ioregsel.
     iobind (iores (Some (add_chk (ioa_address ioa) 16))) (\<lambda>a16.
     iobind (iores (get_virtual_address L locked off (ucast a16))) (\<lambda>ioregwin.
     iobind (emits [SelW ioregsel 0x1]) (\<lambda>_.
     iobind (reads D (WinR ioregwin)) (\<lambda>v.
     iobind (iores (Some (sub_chk (drop_bit 16 v AND 0xFF) 1))) (\<lambda>num_of_irqs.
     iobind (emits (concat (map (mask_irq ioregsel ioregwin) [0..<unat num_of_irqs]))) (\<lambda>_.
     emits
       (if ioa_gsi_base ioa = 0
        then [SelW ioregsel 0x12, WinW ioregwin (as_u32 Keyboard),
              SelW ioregsel 0x13, WinW ioregwin (push_bit 24 local_apic_id)]
        else []))))))))"

fun init_io_apics :: "spin \<Rightarrow> devices \<Rightarrow> bool \<Rightarrow> u64 \<Rightarrow> u32 \<Rightarrow> io_apic list \<Rightarrow> unit io" where
  "init_io_apics L D locked off local_apic_id [] = emits []"
| "init_io_apics L D locked off local_apic_id (ioa # ioas) =
     iobind (init_io_apic L D locked off local_apic_id ioa) (\<lambda>_.
       init_io_apics L D locked off local_apic_id ioas)"

section \<open>init\_apic\<close>

text \<open>
  The cells it touches: the page table's lock and window offset, the local APIC's address and lock,
  and the input pipe. \<open>init_once\<close> keeps an address that is already there, \<open>try_init_once\<close> fails.
\<close>

record 'q apick =
  ap_offset :: u64
  ap_mapper_locked :: bool
  ap_lapic :: "u64 option"
  ap_lapic_locked :: bool
  ap_pipe :: "'q option"

definition init_apic :: "spin \<Rightarrow> 'q array_queue \<Rightarrow> devices \<Rightarrow> interrupt_model \<Rightarrow> 'q apick \<Rightarrow> 'q apick io" where
  "init_apic L Q D interrupt_model k =
     iobind (emits disable_pic) (\<lambda>_.
     case interrupt_model of
       Other_Model \<Rightarrow> iores (Some (Inl (PanicMsg ''Interrupt Model is not APIC'')))
     | Apic_Model apic \<Rightarrow>
     iobind (iores (get_virtual_address L (ap_mapper_locked k) (ap_offset k) (local_apic_address apic))) (\<lambda>a.
     let lapic = (case ap_lapic k of None \<Rightarrow> a | Some b \<Rightarrow> b) in
     iobind (iores (case spin_acquire L (ap_lapic_locked k) of None \<Rightarrow> None | Some b \<Rightarrow> Some (Inr ()))) (\<lambda>_.
     iobind (lapic_setup D) (\<lambda>_.
     iobind (lapic_timer D) (\<lambda>_.
     iobind (reads D (LapicR 8)) (\<lambda>local_apic_id.
     iobind (init_io_apics L D (ap_mapper_locked k) (ap_offset k) local_apic_id (io_apics apic)) (\<lambda>_.
     iores
       (case ap_pipe k of
          Some _ \<Rightarrow> Some (Inl UnwrapFailed)
        | None \<Rightarrow>
            runbind (Some (pipe_new Q 128)) (\<lambda>pipe.
              Some (Inr (k\<lparr>ap_lapic := Some lapic, ap_lapic_locked := False, ap_pipe := Some pipe\<rparr>)))))))))))"

section \<open>What the devices have been told\<close>

text \<open>The last value written to a register of the local APIC, and to a port.\<close>

fun lapic_val :: "nat \<Rightarrow> event list \<Rightarrow> u32 option \<Rightarrow> u32 option" where
  "lapic_val i [] v = v"
| "lapic_val i (e # es) v =
     lapic_val i es (case e of LapicW j x \<Rightarrow> if j = i then Some x else v | _ \<Rightarrow> v)"

fun port_val :: "u16 \<Rightarrow> event list \<Rightarrow> u8 option \<Rightarrow> u8 option" where
  "port_val p [] v = v"
| "port_val p (e # es) v = port_val p es (case e of Out q x \<Rightarrow> if q = p then Some x else v | _ \<Rightarrow> v)"

text \<open>
  The registers of the IO APIC at the given addresses: a write to the window goes to the register
  that was selected last.
\<close>

fun ioa_regs :: "u64 \<Rightarrow> u64 \<Rightarrow> event list \<Rightarrow> u16 option \<times> (u16 \<rightharpoonup> u32) \<Rightarrow> u16 option \<times> (u16 \<rightharpoonup> u32)" where
  "ioa_regs sel win [] st = st"
| "ioa_regs sel win (e # es) (cur, m) =
     ioa_regs sel win es
       (case e of
          SelW a r \<Rightarrow> if a = sel then (Some r, m) else (cur, m)
        | WinW a v \<Rightarrow>
            if a = win then (cur, case cur of None \<Rightarrow> m | Some r \<Rightarrow> m(r \<mapsto> v)) else (cur, m)
        | _ \<Rightarrow> (cur, m))"

section \<open>Lemmas\<close>

lemma io_simps [simp]:
  "iobind (emits es) f t = f () (t @ es)"
  "iobind (reads D e) g t = g (D t e) (t @ [e])"
  "iobind (iores (Some (Inr x))) h t = h x t"
  "iobind (iores (Some (Inl pn))) h t = Some (Inl pn)"
  "iobind (inb D p) b t = b (ucast (D t (In p))) (t @ [In p])"
  by (simp_all add: iobind_def emits_def reads_def iores_def inb_def)

lemma emits_apply [simp]: "emits es t = Some (Inr ((), t @ es))"
  by (simp add: emits_def)

lemma iores_apply [simp]: "iores (Some (Inr x)) t = Some (Inr (x, t))" "iores (Some (Inl p)) t = Some (Inl p)"
  by (simp_all add: iores_def)

lemma iobind_run: "m t = Some (Inr (x, t')) \<Longrightarrow> iobind m f t = f x t'"
  by (simp add: iobind_def)

lemma lapic_val_append [simp]: "lapic_val i (xs @ ys) v = lapic_val i ys (lapic_val i xs v)"
  by (induction xs arbitrary: v) auto

lemma port_val_append [simp]: "port_val p (xs @ ys) v = port_val p ys (port_val p xs v)"
  by (induction xs arbitrary: v) auto

lemma ioa_regs_append [simp]: "ioa_regs s w (xs @ ys) st = ioa_regs s w ys (ioa_regs s w xs st)"
  by (induction s w xs st rule: ioa_regs.induct) auto

text \<open>Accesses that concern neither the local APIC's registers nor a port.\<close>

definition io_only :: "event list \<Rightarrow> bool" where
  "io_only es \<longleftrightarrow> (\<forall>e\<in>set es. case e of SelW _ _ \<Rightarrow> True | WinW _ _ \<Rightarrow> True | WinR _ \<Rightarrow> True | _ \<Rightarrow> False)"

definition no_io :: "event list \<Rightarrow> bool" where
  "no_io es \<longleftrightarrow> (\<forall>e\<in>set es. case e of SelW _ _ \<Rightarrow> False | WinW _ _ \<Rightarrow> False | _ \<Rightarrow> True)"

lemma io_only_simps [simp]:
  "io_only []" "io_only (xs @ ys) \<longleftrightarrow> io_only xs \<and> io_only ys"
  "io_only (e # es) \<longleftrightarrow>
    (case e of SelW _ _ \<Rightarrow> True | WinW _ _ \<Rightarrow> True | WinR _ \<Rightarrow> True | _ \<Rightarrow> False) \<and> io_only es"
  by (auto simp: io_only_def)

lemma no_io_simps [simp]:
  "no_io []" "no_io (xs @ ys) \<longleftrightarrow> no_io xs \<and> no_io ys"
  "no_io (e # es) \<longleftrightarrow> (case e of SelW _ _ \<Rightarrow> False | WinW _ _ \<Rightarrow> False | _ \<Rightarrow> True) \<and> no_io es"
  by (auto simp: no_io_def)

lemma io_only_keeps: "io_only es \<Longrightarrow> lapic_val i es v = v" "io_only es \<Longrightarrow> port_val p es w = w"
  by (induction es) (auto split: event.splits)

lemma no_io_keeps: "no_io es \<Longrightarrow> ioa_regs s w es st = st"
  by (induction s w es st rule: ioa_regs.induct) (auto split: event.splits)

text \<open>Polling.\<close>

definition polls :: "nat \<Rightarrow> event list" where
  "polls n = replicate n (In 0x61)"

definition pit_done :: "devices \<Rightarrow> event list \<Rightarrow> bool" where
  "pit_done D t \<longleftrightarrow> (ucast (D t (In 0x61)) :: u8) AND 0x20 \<noteq> 0"

definition pit_fires :: "devices \<Rightarrow> event list \<Rightarrow> bool" where
  "pit_fires D t \<longleftrightarrow> (\<exists>n. pit_done D (t @ polls n))"

lemma polls_val [simp]: "lapic_val i (polls n) v = v" "port_val p (polls n) w = w" "no_io (polls n)"
  by (induction n) (auto simp: polls_def)

lemma polls_Suc: "t @ polls (Suc n) = (t @ [In 0x61]) @ polls n"
  by (simp add: polls_def)

lemma pit_wait_done: "pit_done D t \<Longrightarrow> pit_wait D t = Some (Inr ((), t @ [In 0x61]))"
  by (subst pit_wait.simps) (simp add: pit_done_def)

lemma pit_wait_more: "\<not> pit_done D t \<Longrightarrow> pit_wait D t = pit_wait D (t @ [In 0x61])"
  by (subst pit_wait.simps) (simp add: pit_done_def)

lemma pit_wait_returns:
  "pit_done D (t @ polls n) \<Longrightarrow>
    \<exists>m. pit_done D (t @ polls m) \<and> pit_wait D t = Some (Inr ((), t @ polls m @ [In 0x61]))"
proof (induction n arbitrary: t)
  case 0
  then show ?case using pit_wait_done [of D t] by (auto simp: polls_def intro!: exI [of _ 0])
next
  case (Suc n)
  show ?case
  proof (cases "pit_done D t")
    case True
    then show ?thesis using pit_wait_done [of D t] by (auto simp: polls_def intro!: exI [of _ 0])
  next
    case False
    obtain m where m: "pit_done D ((t @ [In 0x61]) @ polls m)"
      "pit_wait D (t @ [In 0x61]) = Some (Inr ((), (t @ [In 0x61]) @ polls m @ [In 0x61]))"
      using Suc.IH [of "t @ [In 0x61]"] Suc.prems unfolding polls_Suc by blast
    then show ?thesis
      using pit_wait_more [OF False] by (intro exI [of _ "Suc m"]) (simp add: polls_def)
  qed
qed

lemma pit_wait_fires: "pit_wait D t = Some r \<Longrightarrow> pit_fires D t"
proof (rule pit_wait.raw_induct [where P = "\<lambda>D t r. pit_fires D t"])
  fix loop D t r
  assume IH: "\<And>D t r. loop D t = Some r \<Longrightarrow> pit_fires D t"
    and r: "(if (ucast (D t (In 0x61)) :: u8) AND 0x20 = 0 then loop D (t @ [In 0x61])
      else Some (Inr ((), t @ [In 0x61]))) = Some r"
  show "pit_fires D t"
  proof (cases "pit_done D t")
    case True
    then show ?thesis by (auto simp: pit_fires_def polls_def intro!: exI [of _ 0])
  next
    case False
    then have "pit_fires D (t @ [In 0x61])" using r IH by (simp add: pit_done_def)
    then obtain n where "pit_done D ((t @ [In 0x61]) @ polls n)" by (auto simp: pit_fires_def)
    then show ?thesis unfolding pit_fires_def polls_Suc [symmetric] by blast
  qed
qed

lemma sub_from_max: "sub_chk 0xffffffff cnt = Inr (0xffffffff - cnt :: u32)"
proof -
  have "unat cnt < 2 ^ 32" using unsigned_less [of cnt, where 'a = nat] by simp
  then have "cnt \<le> 0xffffffff" by (simp add: word_le_nat_alt)
  then show ?thesis by (simp add: sub_chk_def)
qed

lemma lapic_setup_run:
  "\<exists>es. lapic_setup D t = Some (Inr ((), t @ es)) \<and> no_io es \<and>
    (\<forall>v. lapic_val 32 es v = Some 0 \<and> lapic_val 60 es v = Some 0x1FF \<and> lapic_val 208 es v = Some 0x10400 \<and>
       lapic_val 212 es v = Some 0x10000 \<and> lapic_val 216 es v = Some 0x10000 \<and>
       lapic_val 220 es v = Some 0x122) \<and> (\<forall>p v. port_val p es v = v)"
  by (simp add: lapic_setup_def push_bit_eq_mult)

lemma lapic_timer_run:
  assumes fires: "\<And>t. pit_fires D t"
  shows "\<exists>es ticks t1. lapic_timer D t = Some (Inr (ticks, t @ es)) \<and> no_io es \<and> pit_done D t1 \<and>
    ticks = 0xffffffff - D (t1 @ [In 0x61, LapicW 200 0x10000]) (LapicR 228) \<and>
    (\<forall>i v. lapic_val i es v =
       (if i = 200 then Some 0x20020 else if i = 248 then Some 3 else if i = 224 then Some ticks else v)) \<and>
    (\<forall>v. port_val 0x21 es v = v \<and> port_val 0xA1 es v = v)"
proof -
  let ?es1 = "[In 0x61, Out 0x61 ((ucast (D t (In 0x61)) AND 0xfd) OR 1), Out 0x43 0xB2, Out 0x42 0x9b,
    In 0x60, Out 0x42 0x2e]"
  have s1: "pit_setup D t = Some (Inr ((), t @ ?es1))" by (simp add: pit_setup_def)
  let ?v = "D (t @ ?es1) (LapicR 200)"
  let ?es2 = "?es1 @ [LapicR 200, LapicW 200 (?v OR 0x10000), LapicW 224 0xffffffff]"
  obtain val where s2: "pit_start D (t @ ?es2) =
      Some (Inr ((), (t @ ?es2) @ [In 0x61, Out 0x61 val, Out 0x61 (val OR 1)]))"
    by (simp add: pit_start_def Let_def)
  let ?es3 = "?es2 @ [In 0x61, Out 0x61 val, Out 0x61 (val OR 1)]"
  obtain m where m: "pit_done D ((t @ ?es3) @ polls m)"
    "pit_wait D (t @ ?es3) = Some (Inr ((), (t @ ?es3) @ polls m @ [In 0x61]))"
    using fires [of "t @ ?es3"] pit_wait_returns unfolding pit_fires_def by blast
  let ?t1 = "(t @ ?es3) @ polls m"
  let ?ticks = "0xffffffff - D (?t1 @ [In 0x61, LapicW 200 0x10000]) (LapicR 228)"
  let ?es = "?es3 @ polls m @ [In 0x61, LapicW 200 0x10000, LapicR 228, LapicW 200 0x20020, LapicW 248 3,
    LapicW 224 ?ticks]"
  have run: "lapic_timer D t = Some (Inr (?ticks, t @ ?es))"
    using s1 s2 m(2)
    by (simp add: lapic_timer_def iobind_run [where m = "pit_setup D"] iobind_run [where m = "pit_start D"]
        iobind_run [where m = "pit_wait D"] sub_from_max)
  show ?thesis
    by (rule exI [of _ ?es], rule exI [of _ ?ticks], rule exI [of _ ?t1]) (use run m(1) in simp)
qed

text \<open>The accesses to one IO APIC.\<close>

definition ioa_events :: "u64 \<Rightarrow> u64 \<Rightarrow> nat \<Rightarrow> u32 \<Rightarrow> bool \<Rightarrow> event list" where
  "ioa_events sel win n local_apic_id first =
     [SelW sel 1, WinR win] @ concat (map (mask_irq sel win) [0..<n]) @
     (if first then [SelW sel 0x12, WinW win 33, SelW sel 0x13, WinW win (push_bit 24 local_apic_id)] else [])"

definition masked :: "nat \<Rightarrow> (u16 \<rightharpoonup> u32) \<Rightarrow> u16 \<rightharpoonup> u32" where
  "masked n m = (\<lambda>r. if 16 \<le> unat r \<and> unat r < 16 + 2 * n
     then Some (if even (unat r) then 0x10000 else 0) else m r)"

lemma redirection_index:
  assumes "i < 256"
  shows "unat (0x10 + of_nat i * 2 :: u16) = 16 + 2 * i" "unat (0x11 + of_nat i * 2 :: u16) = 17 + 2 * i"
proof -
  have "unat (of_nat i :: u16) = i" using assms by (simp add: unsigned_of_nat take_bit_nat_eq_self)
  then have "unat (of_nat i * 2 :: u16) = i * 2" using assms by (subst unat_mul_noovf) simp_all
  then show "unat (0x10 + of_nat i * 2 :: u16) = 16 + 2 * i" "unat (0x11 + of_nat i * 2 :: u16) = 17 + 2 * i"
    using assms by (simp_all add: unat_add_noovf)
qed

lemma masked_Suc:
  assumes "n < 256"
  shows "(masked n m)(0x10 + of_nat n * 2 \<mapsto> 0x10000, 0x11 + of_nat n * 2 \<mapsto> 0) = masked (Suc n) m"
proof (rule ext)
  fix r :: u16
  note ix = redirection_index [OF assms]
  have "r = 0x10 + of_nat n * 2 \<longleftrightarrow> unat r = 16 + 2 * n" "r = 0x11 + of_nat n * 2 \<longleftrightarrow> unat r = 17 + 2 * n"
    by (simp_all only: ix [symmetric] word_unat_eq_iff)
  then show "((masked n m)(0x10 + of_nat n * 2 \<mapsto> 0x10000, 0x11 + of_nat n * 2 \<mapsto> 0)) r = masked (Suc n) m r"
    unfolding masked_def fun_upd_apply by auto
qed

lemma mask_regs:
  "n \<le> 256 \<Longrightarrow> \<exists>cur'. ioa_regs s w (concat (map (mask_irq s w) [0..<n])) (Some cur, m) = (Some cur', masked n m)"
proof (induction n)
  case 0
  then show ?case by (auto simp: masked_def fun_eq_iff)
next
  case (Suc n)
  then obtain cur' where "ioa_regs s w (concat (map (mask_irq s w) [0..<n])) (Some cur, m) = (Some cur', masked n m)"
    by auto
  moreover have "ioa_regs s w (mask_irq s w n) (Some cur', masked n m) =
      (Some (0x11 + of_nat n * 2), masked (Suc n) m)"
    using masked_Suc [of n m] Suc.prems by (simp add: mask_irq_def push_bit_eq_mult)
  ultimately show ?case by simp
qed

lemma ioa_events_own:
  assumes "n \<le> 256"
  shows "snd (ioa_regs s w (ioa_events s w n lid first) (cur, m)) =
    (if first then (masked n m)(0x12 \<mapsto> 33, 0x13 \<mapsto> push_bit 24 lid) else masked n m)"
proof -
  obtain cur' where c: "ioa_regs s w (concat (map (mask_irq s w) [0..<n])) (Some 1, m) = (Some cur', masked n m)"
    using mask_regs [OF assms] by blast
  then show ?thesis by (simp add: ioa_events_def)
qed

lemma ioa_events_other:
  assumes "s \<noteq> s'" "w \<noteq> w'"
  shows "ioa_regs s w (ioa_events s' w' n lid first) st = st"
proof -
  have other: "ioa_regs s w (concat (map (mask_irq s' w') xs)) st = st" for xs st
    using assms by (induction xs arbitrary: st) (auto simp: mask_irq_def)
  show ?thesis using assms by (cases st) (simp add: ioa_events_def other)
qed

lemma ioa_events_io: "io_only (ioa_events s w n lid first)"
proof -
  have "io_only (concat (map (mask_irq s w) xs))" for xs
    by (induction xs) (auto simp: mask_irq_def)
  then show ?thesis by (simp add: ioa_events_def)
qed

text \<open>
  An IO APIC that the kernel can set up: its registers are inside the window, and its version
  register (a read of the window directly after selecting register 1) tells the index of its last
  redirection entry, which is not 0.
\<close>

definition ioa_ok :: "devices \<Rightarrow> u64 \<Rightarrow> (io_apic \<Rightarrow> nat) \<Rightarrow> io_apic \<Rightarrow> bool" where
  "ioa_ok D off last_entry ioa \<longleftrightarrow>
     0 < unat off + unat (ioa_address ioa) \<and> unat (ioa_address ioa) + 16 < 2 ^ 32 \<and>
     unat off + unat (ioa_address ioa) + 16 < 2 ^ 64 \<and> 0 < last_entry ioa \<and>
     (\<forall>t. unat (drop_bit 16 (D (t @ [SelW (off + ucast (ioa_address ioa)) 1])
        (WinR (off + ucast (ioa_address ioa) + 16))) AND 0xFF) = last_entry ioa)"

definition ioa_sel :: "u64 \<Rightarrow> io_apic \<Rightarrow> u64" where
  "ioa_sel off ioa = off + ucast (ioa_address ioa)"

lemma unat_ucast_64 [simp]: "unat (ucast (a :: u32) :: u64) = unat a"
proof -
  have "unat a < 2 ^ 64" using unsigned_less [of a, where 'a = nat] by simp
  then show ?thesis by (simp add: unsigned_ucast_eq take_bit_nat_eq_self)
qed

lemma last_entry_bound: "ioa_ok D off last_entry ioa \<Longrightarrow> last_entry ioa < 256"
proof -
  assume "ioa_ok D off last_entry ioa"
  then have "unat (drop_bit 16 (D ([] @ [SelW (off + ucast (ioa_address ioa)) 1])
      (WinR (off + ucast (ioa_address ioa) + 16))) AND 0xFF) = last_entry ioa"
    unfolding ioa_ok_def by blast
  moreover have "unat (x AND 0xFF :: u32) < 256" for x
    using word_and_le1 [of x "0xFF"] by (simp add: word_le_nat_alt)
  ultimately show ?thesis by metis
qed

lemma init_io_apic_run:
  assumes L: "spin_ok L" and ok: "ioa_ok D off last_entry ioa"
  shows "init_io_apic L D False off lid ioa t = Some (Inr ((), t @
    ioa_events (ioa_sel off ioa) (ioa_sel off ioa + 16) (last_entry ioa - 1) lid (ioa_gsi_base ioa = 0)))"
proof -
  let ?a = "ioa_address ioa"
  note ok' = ok [unfolded ioa_ok_def]
  have u16: "unat (?a + 16) = unat ?a + 16" using ok' by (subst unat_add_noovf) simp_all
  have "unat (ucast (?a + 16) :: u64) = unat (ucast ?a + 16 :: u64)"
    using ok' u16 by (simp add: unat_add_noovf)
  then have uc: "ucast (?a + 16) = (ucast ?a + 16 :: u64)" by (simp only: word_unat_eq_iff)
  have g1: "get_virtual_address L False off (ucast ?a) = Some (Inr (ioa_sel off ioa))"
    using ok' by (simp add: get_virtual_address_ok [OF L] ioa_sel_def)
  have "unat (ucast ?a + 16 :: u64) = unat ?a + 16" using ok' by (simp add: unat_add_noovf)
  then have g2: "get_virtual_address L False off (ucast (?a + 16)) = Some (Inr (ioa_sel off ioa + 16))"
    using ok' by (simp add: get_virtual_address_ok [OF L] ioa_sel_def uc add.assoc)
  let ?v = "drop_bit 16 (D ((t @ [SelW (ioa_sel off ioa) 1])) (WinR (ioa_sel off ioa + 16))) AND 0xFF"
  have v: "unat ?v = last_entry ioa" using ok' by (simp add: ioa_sel_def)
  then have "1 \<le> ?v" using ok' by (simp add: word_le_nat_alt)
  then have n: "sub_chk ?v 1 = Inr (?v - 1)" "unat (?v - 1) = last_entry ioa - 1"
    using v by (simp_all add: sub_chk_def unat_sub_le)
  have a: "add_chk ?a 16 = Inr (?a + 16)" using ok' by (simp add: add_chk_ok)
  show ?thesis
    unfolding init_io_apic_def g1 a io_simps g2 n(1) emits_apply n(2) ioa_events_def as_u32.simps
    by simp
qed

fun ioas_events :: "u64 \<Rightarrow> (io_apic \<Rightarrow> nat) \<Rightarrow> u32 \<Rightarrow> io_apic list \<Rightarrow> event list" where
  "ioas_events off last_entry lid [] = []"
| "ioas_events off last_entry lid (ioa # ioas) =
     ioa_events (ioa_sel off ioa) (ioa_sel off ioa + 16) (last_entry ioa - 1) lid (ioa_gsi_base ioa = 0) @
     ioas_events off last_entry lid ioas"

lemma init_io_apics_run:
  assumes "spin_ok L"
  shows "\<forall>ioa\<in>set ioas. ioa_ok D off last_entry ioa \<Longrightarrow>
    init_io_apics L D False off lid ioas t = Some (Inr ((), t @ ioas_events off last_entry lid ioas))"
proof (induction ioas arbitrary: t)
  case (Cons ioa ioas)
  then show ?case
    by (simp add: iobind_run [where m = "init_io_apic L D False off lid ioa"]
        init_io_apic_run [OF assms, where last_entry = last_entry])
qed simp

lemma ioas_events_io: "io_only (ioas_events off last_entry lid ioas)"
  by (induction ioas) (auto simp: ioa_events_io)

lemma ioa_sel_inj: "ioa_sel off x = ioa_sel off y \<Longrightarrow> ioa_address x = ioa_address y"
  by (simp add: ioa_sel_def) (metis unat_ucast_64 word_unat_eq_iff)

lemma ioas_events_regs:
  "distinct (map ioa_address ioas) \<Longrightarrow> ioa \<in> set ioas \<Longrightarrow> \<forall>x\<in>set ioas. ioa_ok D off last_entry x \<Longrightarrow>
    snd (ioa_regs (ioa_sel off ioa) (ioa_sel off ioa + 16) (ioas_events off last_entry lid ioas) (None, Map.empty)) =
    (if ioa_gsi_base ioa = 0
     then (masked (last_entry ioa - 1) Map.empty)(0x12 \<mapsto> 33, 0x13 \<mapsto> push_bit 24 lid)
     else masked (last_entry ioa - 1) Map.empty)"
proof (induction ioas)
  case Nil
  then show ?case by simp
next
  case (Cons x ioas)
  have same: "ioa_regs (ioa_sel off ioa) (ioa_sel off ioa + 16) (ioas_events off last_entry lid ys) st = st"
    if "ioa_address ioa \<notin> ioa_address ` set ys" for ys st
    using that
  proof (induction ys arbitrary: st)
    case (Cons y ys)
    then have "ioa_sel off ioa \<noteq> ioa_sel off y" using ioa_sel_inj [of off ioa y] by auto
    then have "ioa_regs (ioa_sel off ioa) (ioa_sel off ioa + 16) (ioa_events (ioa_sel off y)
        (ioa_sel off y + 16) (last_entry y - 1) lid (ioa_gsi_base y = 0)) st = st"
      by (intro ioa_events_other) simp_all
    then show ?case using Cons unfolding ioas_events.simps ioa_regs_append by simp
  qed simp
  show ?case
  proof (cases "ioa_address ioa = ioa_address x")
    case True
    then have "ioa_address ioa \<notin> ioa_address ` set ioas" using Cons.prems(1) by simp
    moreover from this have "ioa = x" using Cons.prems(2) by auto
    ultimately have x: "ioa = x" "ioa_address ioa \<notin> ioa_address ` set ioas" by blast+
    have n: "last_entry x - 1 \<le> 256" using last_entry_bound [of D off last_entry x] Cons.prems(3) by simp
    show ?thesis
      unfolding ioas_events.simps ioa_regs_append same [OF x(2)] unfolding x(1) by (rule ioa_events_own [OF n])
  next
    case False
    then have "ioa \<in> set ioas" "ioa_sel off ioa \<noteq> ioa_sel off x"
      using Cons.prems(2) ioa_sel_inj [of off ioa x] by auto
    then have "ioa_regs (ioa_sel off ioa) (ioa_sel off ioa + 16) (ioa_events (ioa_sel off x)
        (ioa_sel off x + 16) (last_entry x - 1) lid (ioa_gsi_base x = 0)) (None, Map.empty) = (None, Map.empty)"
      by (intro ioa_events_other) simp_all
    moreover have "distinct (map ioa_address ioas)" "\<forall>x\<in>set ioas. ioa_ok D off last_entry x"
      using Cons.prems(1,3) by auto
    ultimately show ?thesis
      using Cons.IH \<open>ioa \<in> set ioas\<close> unfolding ioas_events.simps ioa_regs_append by simp
  qed
qed

section \<open>The whole set-up\<close>

definition apic_ready :: "spin \<Rightarrow> devices \<Rightarrow> (io_apic \<Rightarrow> nat) \<Rightarrow> apic_info \<Rightarrow> 'q apick \<Rightarrow> bool" where
  "apic_ready L D last_entry apic k \<longleftrightarrow>
     spin_ok L \<and> (\<forall>t. pit_fires D t) \<and> \<not> ap_mapper_locked k \<and> \<not> ap_lapic_locked k \<and> ap_pipe k = None \<and>
     0 < unat (ap_offset k) + unat (local_apic_address apic) \<and>
     unat (ap_offset k) + unat (local_apic_address apic) < 2 ^ 64 \<and>
     (\<forall>ioa\<in>set (io_apics apic). ioa_ok D (ap_offset k) last_entry ioa)"

lemma init_apic_run:
  assumes r: "apic_ready L D last_entry apic k" and Q: "array_queue_ok Q items cap"
  shows "\<exists>es1 es2 ticks t1 t2 q.
    init_apic L Q D (Apic_Model apic) k t = Some (Inr (k\<lparr>ap_lapic := Some (case ap_lapic k of
        None \<Rightarrow> ap_offset k + local_apic_address apic | Some b \<Rightarrow> b), ap_pipe := Some q\<rparr>,
      t @ disable_pic @ es1 @ es2 @ [LapicR 8] @
        ioas_events (ap_offset k) last_entry (D t2 (LapicR 8)) (io_apics apic))) \<and>
    items q = [] \<and> cap q = 128 \<and>
    no_io es1 \<and> no_io es2 \<and> (\<forall>p v. port_val p es1 v = v) \<and> (\<forall>v. port_val 0x21 es2 v = v \<and> port_val 0xA1 es2 v = v) \<and>
    (\<forall>v. lapic_val 32 es1 v = Some 0 \<and> lapic_val 60 es1 v = Some 0x1FF \<and> lapic_val 208 es1 v = Some 0x10400 \<and>
       lapic_val 212 es1 v = Some 0x10000 \<and> lapic_val 216 es1 v = Some 0x10000 \<and>
       lapic_val 220 es1 v = Some 0x122) \<and> pit_done D t1 \<and>
    ticks = 0xffffffff - D (t1 @ [In 0x61, LapicW 200 0x10000]) (LapicR 228) \<and>
    (\<forall>i v. lapic_val i es2 v =
       (if i = 200 then Some 0x20020 else if i = 248 then Some 3 else if i = 224 then Some ticks else v))"
proof -
  note r' = r [unfolded apic_ready_def]
  let ?t0 = "t @ disable_pic"
  obtain es1 where e1: "lapic_setup D ?t0 = Some (Inr ((), ?t0 @ es1))" "no_io es1"
    "\<forall>v. lapic_val 32 es1 v = Some 0 \<and> lapic_val 60 es1 v = Some 0x1FF \<and> lapic_val 208 es1 v = Some 0x10400 \<and>
       lapic_val 212 es1 v = Some 0x10000 \<and> lapic_val 216 es1 v = Some 0x10000 \<and>
       lapic_val 220 es1 v = Some 0x122" "\<forall>p v. port_val p es1 v = v"
    using lapic_setup_run [of D ?t0] by blast
  obtain es2 ticks t1 where e2: "lapic_timer D (?t0 @ es1) = Some (Inr (ticks, (?t0 @ es1) @ es2))" "no_io es2"
    "pit_done D t1" "ticks = 0xffffffff - D (t1 @ [In 0x61, LapicW 200 0x10000]) (LapicR 228)"
    "\<forall>i v. lapic_val i es2 v =
       (if i = 200 then Some 0x20020 else if i = 248 then Some 3 else if i = 224 then Some ticks else v)"
    "\<forall>v. port_val 0x21 es2 v = v \<and> port_val 0xA1 es2 v = v"
    using lapic_timer_run [of D "?t0 @ es1"] r' by blast
  obtain q where q: "pipe_new Q 128 = Inr q" "items q = []" "cap q = 128"
    using Q [unfolded array_queue_ok_def, THEN conjunct1, rule_format, of 128] by (auto simp: pipe_new_def)
  let ?t2 = "(?t0 @ es1) @ es2"
  have io: "init_io_apics L D False (ap_offset k) lid (io_apics apic) t' =
      Some (Inr ((), t' @ ioas_events (ap_offset k) last_entry lid (io_apics apic)))" for lid t'
    using init_io_apics_run [of L "io_apics apic" D "ap_offset k" last_entry lid t'] r' by blast
  have g: "get_virtual_address L False (ap_offset k) (local_apic_address apic) =
      Some (Inr (ap_offset k + local_apic_address apic))"
    by (rule get_virtual_address_ok) (use r' in simp_all)
  have norm: "k\<lparr>ap_lapic := x, ap_lapic_locked := False, ap_pipe := y\<rparr> = k\<lparr>ap_lapic := x, ap_pipe := y\<rparr>" for x y
    using r' by (cases k) simp
  have lock: "spin_acquire L False = Some True" using r' by (simp add: spin_ok_def)
  have "init_apic L Q D (Apic_Model apic) k t = Some (Inr (k\<lparr>ap_lapic := Some (case ap_lapic k of
        None \<Rightarrow> ap_offset k + local_apic_address apic | Some b \<Rightarrow> b), ap_pipe := Some q\<rparr>,
      t @ disable_pic @ es1 @ es2 @ [LapicR 8] @
        ioas_events (ap_offset k) last_entry (D ?t2 (LapicR 8)) (io_apics apic)))"
    using r' e1(1) e2(1)
    by (simp add: init_apic_def g lock Let_def iobind_run [where m = "lapic_setup D"]
        iobind_run [where m = "lapic_timer D"] iobind_run [OF io] q(1) norm)
  then show ?thesis using e1(2-) e2(2-) q(2,3) by blast
qed

section \<open>Properties\<close>

text \<open>
  C14: the interrupt controllers are set up as intended. With an APIC, a countdown that ends, and
  controllers inside the window, \<open>init_apic\<close> returns. At the end both legacy controllers are
  masked; the local APIC accepts interrupts of every priority and its timer is periodic on the
  timer's vector, counting the ticks that passed until the countdown's end was seen; error and
  spurious interrupts have the vectors of their handlers in the descriptor table; performance and
  local pins are masked; the input pipe is empty with room for 128 bytes, and no lock is held.
\<close>

theorem init_apic_configures:
  assumes "apic_ready L D last_entry apic k" "array_queue_ok Q items cap"
  shows "\<exists>k' es q t1. init_apic L Q D (Apic_Model apic) k t = Some (Inr (k', t @ es)) \<and>
    ap_pipe k' = Some q \<and> items q = [] \<and> cap q = 128 \<and> ap_lapic k' \<noteq> None \<and>
    \<not> ap_lapic_locked k' \<and> \<not> ap_mapper_locked k' \<and>
    port_val 0x21 es None = Some 0xff \<and> port_val 0xA1 es None = Some 0xff \<and>
    lapic_val 32 es None = Some 0 \<and>
    lapic_val 200 es None = Some (ucast (as_u8 Timer) OR 0x20000) \<and> lapic_val 248 es None = Some 3 \<and>
    pit_done D t1 \<and>
    lapic_val 224 es None = Some (0xffffffff - D (t1 @ [In 0x61, LapicW 200 0x10000]) (LapicR 228)) \<and>
    lapic_val 220 es None = Some (ucast (as_u8 LapicError) OR 0x100) \<and>
    lapic_val 60 es None = Some (ucast (as_u8 Spurious) OR 0x100) \<and>
    lapic_val 208 es None = Some 0x10400 \<and> lapic_val 212 es None = Some 0x10000 \<and>
    lapic_val 216 es None = Some 0x10000"
proof -
  obtain es1 es2 ticks t1 t2 q where r:
    "init_apic L Q D (Apic_Model apic) k t = Some (Inr (k\<lparr>ap_lapic := Some (case ap_lapic k of
        None \<Rightarrow> ap_offset k + local_apic_address apic | Some b \<Rightarrow> b), ap_pipe := Some q\<rparr>,
      t @ disable_pic @ es1 @ es2 @ [LapicR 8] @
        ioas_events (ap_offset k) last_entry (D t2 (LapicR 8)) (io_apics apic)))"
    "items q = []" "cap q = 128" "\<forall>p v. port_val p es1 v = v"
    "\<forall>v. port_val 0x21 es2 v = v \<and> port_val 0xA1 es2 v = v"
    "\<forall>v. lapic_val 32 es1 v = Some 0 \<and> lapic_val 60 es1 v = Some 0x1FF \<and> lapic_val 208 es1 v = Some 0x10400 \<and>
       lapic_val 212 es1 v = Some 0x10000 \<and> lapic_val 216 es1 v = Some 0x10000 \<and>
       lapic_val 220 es1 v = Some 0x122" "pit_done D t1"
    "ticks = 0xffffffff - D (t1 @ [In 0x61, LapicW 200 0x10000]) (LapicR 228)"
    "\<forall>i v. lapic_val i es2 v =
       (if i = 200 then Some 0x20020 else if i = 248 then Some 3 else if i = 224 then Some ticks else v)"
    using init_apic_run [OF assms, of t] by blast
  note io = io_only_keeps [OF ioas_events_io]
  have k: "\<not> ap_lapic_locked k" "\<not> ap_mapper_locked k" using assms(1) by (simp_all add: apic_ready_def)
  show ?thesis
    unfolding r(1)
    by (intro exI conjI, rule refl, simp, rule r(2), rule r(3))
      (use k r(4-7,9) in \<open>simp_all add: io disable_pic_def r(8)\<close>)
qed

text \<open>A machine with one IO APIC of 24 entries; the processor's APIC has the identifier 3.\<close>

definition devices_ref :: devices where
  "devices_ref t e =
     (case e of
        In p \<Rightarrow> 0x20
      | WinR a \<Rightarrow> (case rev t of SelW sel r # _ \<Rightarrow> if r = 1 then 0x170011 else 0 | _ \<Rightarrow> 0)
      | LapicR i \<Rightarrow> if i = 8 then 0x3000000 else if i = 228 then 0xfff00000 else 0
      | _ \<Rightarrow> 0)"

definition apic_ref :: apic_info where
  "apic_ref = \<lparr>local_apic_address = 0xfee00000,
     io_apics = [\<lparr>ioa_address = 0xfec00000, ioa_gsi_base = 0\<rparr>]\<rparr>"

definition sample_apick :: "(nat \<times> u8 list) apick" where
  "sample_apick = \<lparr>ap_offset = 0xffff800000000000, ap_mapper_locked = False, ap_lapic = None,
     ap_lapic_locked = False, ap_pipe = None\<rparr>"

lemma sample_apic_ready: "apic_ready spin_ref devices_ref (\<lambda>_. 23) apic_ref sample_apick"
  by (auto simp: apic_ready_def spin_ref_ok pit_fires_def pit_done_def devices_ref_def apic_ref_def
      sample_apick_def ioa_ok_def)

theorem init_apic_configures_witness:
  "\<exists>k' es. init_apic spin_ref queue_ref devices_ref (Apic_Model apic_ref) sample_apick [] =
      Some (Inr (k', es)) \<and>
    lapic_val 200 es None = Some 0x20020 \<and> lapic_val 224 es None = Some 0xfffff"
  using init_apic_configures [OF sample_apic_ready queue_ref_ok, of "[]"]
  by (auto simp: devices_ref_def)

lemma push_bit_24: "v AND 0xFF = 0 \<Longrightarrow> push_bit 24 v = (0 :: u32)"
proof (rule bit_word_eqI)
  fix n assume v: "v AND 0xFF = 0" and n: "n < LENGTH(32)"
  have "take_bit 8 v = 0" using v by (simp add: take_bit_eq_mask mask_eq_exp_minus_1)
  then have "\<not> bit (take_bit 8 v) m" for m by simp
  then have "\<not> bit v m" if "m < 8" for m using that by (simp add: bit_take_bit_iff)
  then show "bit (push_bit 24 v) n \<longleftrightarrow> bit (0 :: u32) n"
    using n by (auto simp: bit_push_bit_iff)
qed

text \<open>
  C33: what an IO APIC has been told at the end. If \<open>n\<close> is the index of its last redirection entry,
  the entries below \<open>n - 1\<close> are masked, the entries \<open>n - 1\<close> and \<open>n\<close> have not been written (although
  the loop is to mask all of them), and on the first IO APIC entry 1, the keyboard's, is
  unmasked with the keyboard's vector. Its destination is the register that holds the identifier of
  the local APIC in its top byte, shifted left by 24 bits: APIC 0, whatever the identifier is.
\<close>

theorem ioapic_programmed:
  assumes "apic_ready L D last_entry apic k" "array_queue_ok Q items cap"
    "distinct (map ioa_address (io_apics apic))" "ioa \<in> set (io_apics apic)"
    "\<forall>t. D t (LapicR 8) AND 0xFF = 0"
  shows "\<exists>k' es. init_apic L Q D (Apic_Model apic) k t = Some (Inr (k', t @ es)) \<and>
    (let regs = snd (ioa_regs (ioa_sel (ap_offset k) ioa) (ioa_sel (ap_offset k) ioa + 16) es (None, Map.empty));
         n = last_entry ioa; first = (ioa_gsi_base ioa = 0) in
      (\<forall>i<n - 1. \<not> (first \<and> i = 1) \<longrightarrow>
         regs (0x10 + of_nat i * 2) = Some 0x10000 \<and> regs (0x11 + of_nat i * 2) = Some 0) \<and>
      (\<forall>i\<in>{n - 1, n}. \<not> (first \<and> i = 1) \<longrightarrow>
         regs (0x10 + of_nat i * 2) = None \<and> regs (0x11 + of_nat i * 2) = None) \<and>
      (first \<longrightarrow> regs 0x12 = Some (ucast (as_u8 Keyboard)) \<and> regs 0x13 = Some 0))"
proof -
  let ?off = "ap_offset k" and ?n = "last_entry ioa"
  obtain es1 es2 k' t2 where r:
    "init_apic L Q D (Apic_Model apic) k t = Some (Inr (k',
      t @ disable_pic @ es1 @ es2 @ [LapicR 8] @
        ioas_events ?off last_entry (D t2 (LapicR 8)) (io_apics apic)))" "no_io es1" "no_io es2"
    using init_apic_run [OF assms(1,2), of t] by blast
  let ?io = "ioas_events ?off last_entry (D t2 (LapicR 8)) (io_apics apic)"
  let ?es = "disable_pic @ es1 @ es2 @ [LapicR 8] @ ?io"
  let ?m = "masked (?n - 1) Map.empty"
  have ok: "\<forall>x\<in>set (io_apics apic). ioa_ok D ?off last_entry x" using assms(1) by (simp add: apic_ready_def)
  have n: "?n < 256" using last_entry_bound ok assms(4) by blast
  have "no_io disable_pic" by (simp add: disable_pic_def)
  then have pre: "ioa_regs s w ?es st = ioa_regs s w ?io st" for s w st
    using r(2,3) by (cases st) (simp add: no_io_keeps)
  have regs: "snd (ioa_regs (ioa_sel ?off ioa) (ioa_sel ?off ioa + 16) ?es (None, Map.empty)) =
      (if ioa_gsi_base ioa = 0 then ?m(0x12 \<mapsto> 33, 0x13 \<mapsto> 0) else ?m)"
    unfolding pre ioas_events_regs [OF assms(3,4) ok] using assms(5) by (simp add: push_bit_24)
  have at: "?m (0x10 + of_nat i * 2) = (if i < ?n - 1 then Some 0x10000 else None)"
    "?m (0x11 + of_nat i * 2) = (if i < ?n - 1 then Some 0 else None)" if "i < 256" for i
    using redirection_index [OF that] by (auto simp: masked_def)
  have ne: "0x10 + of_nat i * 2 \<noteq> (0x12 :: u16)" "0x10 + of_nat i * 2 \<noteq> (0x13 :: u16)"
    "0x11 + of_nat i * 2 \<noteq> (0x12 :: u16)" "0x11 + of_nat i * 2 \<noteq> (0x13 :: u16)" if "i < 256" "i \<noteq> 1" for i
    using redirection_index [OF that(1)] that(2) by (auto simp: word_unat_eq_iff)
  have all: "(if ioa_gsi_base ioa = 0 then ?m(0x12 \<mapsto> 33, 0x13 \<mapsto> 0) else ?m) r = ?m r"
    if "r = 0x10 + of_nat i * 2 \<or> r = 0x11 + of_nat i * 2" "i < 256" "\<not> (ioa_gsi_base ioa = 0 \<and> i = 1)" for r i
    using that ne [of i] by auto
  define g where "g = (if ioa_gsi_base ioa = 0 then ?m(0x12 \<mapsto> 33, 0x13 \<mapsto> 0) else ?m)"
  have entry: "g (0x10 + of_nat i * 2) = (if i < ?n - 1 then Some 0x10000 else None)"
    "g (0x11 + of_nat i * 2) = (if i < ?n - 1 then Some 0 else None)"
    if "i < 256" "\<not> (ioa_gsi_base ioa = 0 \<and> i = 1)" for i
    unfolding g_def all [OF disjI1 [OF refl] that] all [OF disjI2 [OF refl] that] by (rule at [OF that(1)])+
  show ?thesis
  proof (intro exI conjI)
    show "init_apic L Q D (Apic_Model apic) k t = Some (Inr (k', t @ ?es))" by (rule r(1))
    show "let regs = snd (ioa_regs (ioa_sel ?off ioa) (ioa_sel ?off ioa + 16) ?es (None, Map.empty));
         n = ?n; first = (ioa_gsi_base ioa = 0) in
      (\<forall>i<n - 1. \<not> (first \<and> i = 1) \<longrightarrow>
         regs (0x10 + of_nat i * 2) = Some 0x10000 \<and> regs (0x11 + of_nat i * 2) = Some 0) \<and>
      (\<forall>i\<in>{n - 1, n}. \<not> (first \<and> i = 1) \<longrightarrow>
         regs (0x10 + of_nat i * 2) = None \<and> regs (0x11 + of_nat i * 2) = None) \<and>
      (first \<longrightarrow> regs 0x12 = Some (ucast (as_u8 Keyboard)) \<and> regs 0x13 = Some 0)"
      unfolding regs Let_def g_def [symmetric]
    proof (intro conjI allI ballI impI)
      fix i assume i: "i < ?n - 1" "\<not> (ioa_gsi_base ioa = 0 \<and> i = 1)"
      then have "i < 256" using n by simp
      then show "g (0x10 + of_nat i * 2) = Some 0x10000" "g (0x11 + of_nat i * 2) = Some 0"
        using entry [OF _ i(2)] i(1) by simp_all
    next
      fix i assume i: "i \<in> {?n - 1, ?n}" "\<not> (ioa_gsi_base ioa = 0 \<and> i = 1)"
      then have "i < 256" "\<not> i < ?n - 1" using n by auto
      then show "g (0x10 + of_nat i * 2) = None" "g (0x11 + of_nat i * 2) = None"
        using entry [OF _ i(2)] by simp_all
    next
      assume "ioa_gsi_base ioa = 0"
      then show "g 0x12 = Some (ucast (as_u8 Keyboard))" "g 0x13 = Some 0" by (simp_all add: g_def)
    qed
  qed
qed

theorem ioapic_programmed_witness:
  "\<exists>k' es. init_apic spin_ref queue_ref devices_ref (Apic_Model apic_ref) sample_apick [] =
      Some (Inr (k', es)) \<and>
    (let regs = snd (ioa_regs 0xffff8000fec00000 0xffff8000fec00010 es (None, Map.empty)) in
     regs 0x10 = Some 0x10000 \<and> regs 0x12 = Some 33 \<and> regs 0x13 = Some 0 \<and> regs 0x3e = None)"
proof -
  let ?ioa = "\<lparr>ioa_address = 0xfec00000, ioa_gsi_base = 0\<rparr>"
  have s: "ioa_sel (ap_offset sample_apick) ?ioa = 0xffff8000fec00000"
    by (simp add: ioa_sel_def sample_apick_def)
  obtain k' es where r: "init_apic spin_ref queue_ref devices_ref (Apic_Model apic_ref) sample_apick [] =
      Some (Inr (k', [] @ es))"
    "let regs = snd (ioa_regs 0xffff8000fec00000 (0xffff8000fec00000 + 16) es (None, Map.empty));
         n = 23; first = True in
      (\<forall>i<n - 1. \<not> (first \<and> i = 1) \<longrightarrow>
         regs (0x10 + of_nat i * 2) = Some 0x10000 \<and> regs (0x11 + of_nat i * 2) = Some 0) \<and>
      (\<forall>i\<in>{n - 1, n}. \<not> (first \<and> i = 1) \<longrightarrow>
         regs (0x10 + of_nat i * 2) = None \<and> regs (0x11 + of_nat i * 2) = None) \<and>
      (first \<longrightarrow> regs 0x12 = Some (ucast (as_u8 Keyboard)) \<and> regs 0x13 = Some 0)"
    using ioapic_programmed [OF sample_apic_ready queue_ref_ok, of ?ioa "[]", unfolded s]
    by (auto simp: apic_ref_def devices_ref_def)
  let ?regs = "snd (ioa_regs 0xffff8000fec00000 (0xffff8000fec00000 + 16) es (None, Map.empty))"
  have "\<forall>i<22. i \<noteq> 1 \<longrightarrow> ?regs (0x10 + of_nat i * 2) = Some 0x10000" "?regs (0x10 + of_nat 23 * 2) = None"
    and "?regs 0x12 = Some 33" "?regs 0x13 = Some 0"
    using r(2) unfolding Let_def by simp_all
  from this(1) [rule_format, of 0] this(2-) show ?thesis using r(1) by auto
qed

text \<open>
  C34: \<open>init_apic\<close> does not return without its hardware. Without an APIC it panics, and if the
  countdown's end is never signalled it polls for ever (so the kernel does not start).
\<close>

theorem init_apic_waits:
  assumes "spin_ok L" "\<not> ap_mapper_locked k" "\<not> ap_lapic_locked k"
    "0 < unat (ap_offset k) + unat (local_apic_address apic)"
    "unat (ap_offset k) + unat (local_apic_address apic) < 2 ^ 64"
    "\<forall>t. \<not> pit_fires D t"
  shows "init_apic L Q D (Apic_Model apic) k t = None \<and>
    init_apic L Q D Other_Model k t = Some (Inl (PanicMsg ''Interrupt Model is not APIC''))"
proof -
  have w: "pit_wait D t' = None" for t'
    using pit_wait_fires [of D t'] assms(6) by (cases "pit_wait D t'") auto
  have "lapic_timer D t' = None" for t'
    by (simp add: lapic_timer_def iobind_def w pit_setup_def pit_start_def Let_def reads_def inb_def iores_def)
  moreover obtain es1 where "lapic_setup D (t @ disable_pic) = Some (Inr ((), (t @ disable_pic) @ es1))"
    using lapic_setup_run [of D "t @ disable_pic"] by blast
  moreover have "spin_acquire L False = Some True" using assms(1) by (simp add: spin_ok_def)
  ultimately show ?thesis
    using assms(2,3) get_virtual_address_ok [OF assms(1,4,5)]
    by (simp add: init_apic_def Let_def iobind_run [where m = "lapic_setup D"]) (simp add: iobind_def)
qed

definition dead_pit :: devices where
  "dead_pit t e = 0"

theorem init_apic_waits_witness:
  "init_apic spin_ref queue_ref dead_pit (Apic_Model apic_ref) sample_apick [] = None"
  using init_apic_waits [OF spin_ref_ok, of sample_apick apic_ref dead_pit queue_ref "[]"]
  by (simp add: sample_apick_def apic_ref_def dead_pit_def pit_fires_def pit_done_def)

end
