(* ===== verification/Boot.thy ===== *)
theory Boot
  imports Loader Apic
begin

text \<open>
  The boot: \<open>kernel_main\<close> of \<open>kernel/src/main.rs\<close>, which calls the initialisation of every component
  in order, logging a line after each, and ends in the idle loop. The boot loader's information is a
  record of the fields the kernel reads; the ACPI library, which reads the tables through the
  handler of \<open>Phys_Window\<close>, is a parameter. Once interrupts are enabled, timer interrupts come
  between the steps; with a single process each of them resumes the boot where it was.
\<close>

section \<open>Definitions\<close>

text \<open>What the kernel asks of the boot loader.\<close>

datatype mapping_kind = Dynamic | FixedAddress u64

record boot_config =
  dynamic_range_start :: "u64 option"
  physical_memory :: "mapping_kind option"
  kernel_base :: mapping_kind

definition BOOTLOADER_CONFIG :: boot_config where
  "BOOTLOADER_CONFIG =
     \<lparr>dynamic_range_start = Some 0xffff800000000000, physical_memory = Some Dynamic,
      kernel_base = FixedAddress 0xffffffff80000000\<rparr>"

record boot_info =
  bi_framebuffer :: "(u8 list \<times> fb_info) option"
  bi_physical_memory_offset :: "u64 option"
  bi_memory_regions :: memory_regions
  bi_rsdp_addr :: "u64 option"
  bi_ramdisk_addr :: "u64 option"

text \<open>
  Code outside the repository, addresses that the linker chooses, and what the CPU's registers hold
  when they are read; \<open>bo_page_table\<close> is the page table found in memory.
\<close>

record ('g, 'm, 'b, 'q, 'tb) boot_ops =
  bo_spin :: spin
  bo_font :: font
  bo_x86 :: x86_addr
  bo_gdt :: "'g gdt_ops"
  bo_star :: star_write
  bo_map_boot :: "('m, boot_allocator) mapper"
  bo_map_bitmap :: "('m, 'b bitmap_allocator) mapper"
  bo_bitvec :: "'b bitvec"
  bo_queue :: "'q array_queue"
  bo_devices :: devices
  bo_page_table :: "offset_page_table \<Rightarrow> 'm"
  bo_acpi_tables :: "u64 \<Rightarrow> 'tb option"
  bo_acpi_platform :: "'tb \<Rightarrow> interrupt_model option"
  bo_stack1 :: u64
  bo_stack2 :: u64
  bo_syscall_entry :: u64
  bo_cr3 :: u64
  bo_rflags :: u64

record ('m, 'b, 'q) booted =
  bk_logger :: logger
  bk_tss :: tss
  bk_segments :: segment_registers
  bk_idt :: idt
  bk_heap :: heap
  bk_apic :: "'q apick"
  bk_trace :: "event list"
  bk_msr :: "unit msr"
  bk_load :: "('m, 'b) loadk"
  bk_interrupts :: bool

definition say :: "spin \<Rightarrow> font \<Rightarrow> string \<Rightarrow> string list \<Rightarrow> logger \<Rightarrow> logger run" where
  "say L F level args lg =
     (case log L F lg (codes level) (map codes args) of
        None \<Rightarrow> None
      | Some (Inl (e, lg')) \<Rightarrow> Some (Inl e)
      | Some (Inr lg') \<Rightarrow> Some (Inr lg'))"

text \<open>The steps that need no heap: the logger, the segments, the interrupt table.\<close>

definition boot_tables :: "('g, 'm, 'b, 'q, 'tb) boot_ops \<Rightarrow> boot_info \<Rightarrow> segment_registers \<Rightarrow>
    (logger \<times> tss \<times> selectors \<times> segment_registers \<times> idt) run" where
  "boot_tables S bi regs =
     (let info = say (bo_spin S) (bo_font S) ''INFO'' in
      runbind (Some (runwrap UnwrapFailed (bi_framebuffer bi))) (\<lambda>(buf, fb).
      runbind (info [''BAYOS''] (logger_new buf fb)) (\<lambda>lg.
      runbind (Some (tss_build (bo_x86 S) (bo_stack1 S) (bo_stack2 S))) (\<lambda>t.
      runbind (Some (gdt_build (bo_gdt S))) (\<lambda>(g, sel).
      runbind (info [''GDT [OK]''] lg) (\<lambda>lg.
      runbind (info [''interrupts [OK]''] lg) (\<lambda>lg.
        Some (Inr (lg, t, sel, gdt_init sel regs, IDT)))))))))"

text \<open>Memory: the page table, the boot allocator and the heap.\<close>

definition boot_memory :: "('g, 'm, 'b, 'q, 'tb) boot_ops \<Rightarrow> boot_info \<Rightarrow> logger \<Rightarrow>
    (logger \<times> u64 \<times> 'm \<times> boot_allocator \<times> heap) run" where
  "boot_memory S bi lg =
     (let info = say (bo_spin S) (bo_font S) ''INFO''; X = bo_x86 S in
      runbind (Some (runwrap (Expect ''physical memory was not mapped'') (bi_physical_memory_offset bi))) (\<lambda>off.
      runbind (Some (virt_addr_new X off)) (\<lambda>phys_memory_offset.
      runbind (Some (memory_init X (bo_cr3 S) phys_memory_offset)) (\<lambda>mapper.
      let frame_allocator = boot_init (bi_memory_regions bi) in
      runbind (info [''frame allocator [OK]''] lg) (\<lambda>lg.
      runbind (Some (init_heap X (bo_map_boot S) (boot_allocate_frame X) (bo_page_table S mapper)
                       frame_allocator allocator_new)) (\<lambda>(r, m, fa, heap).
      case r of
        Inl e \<Rightarrow> Some (Inl (Expect ''heap initialization failed''))
      | Inr _ \<Rightarrow>
          runbind (info [''heap [OK]''] lg) (\<lambda>lg.
            Some (Inr (lg, opt_offset mapper, m, fa, heap)))))))))"

text \<open>The interrupt controllers.\<close>

definition boot_apic :: "('g, 'm, 'b, 'q, 'tb) boot_ops \<Rightarrow> boot_info \<Rightarrow> u64 \<Rightarrow> logger \<Rightarrow>
    (logger \<times> 'q apick \<times> event list) run" where
  "boot_apic S bi off lg =
     (let info = say (bo_spin S) (bo_font S) ''INFO'' in
      runbind (Some (runwrap (Expect ''bootloader found no rsdp address'') (bi_rsdp_addr bi))) (\<lambda>rsdp.
      runbind (Some (runwrap (Expect ''could not create acpi tables from rsdp'') (bo_acpi_tables S rsdp))) (\<lambda>tables.
      runbind (Some (runwrap (Expect ''could not collect information about platform using acpi'')
                       (bo_acpi_platform S tables))) (\<lambda>interrupt_model.
      runbind (init_apic (bo_spin S) (bo_queue S) (bo_devices S) interrupt_model
                 \<lparr>ap_offset = off, ap_mapper_locked = False, ap_lapic = None, ap_lapic_locked = False,
                  ap_pipe = None\<rparr> []) (\<lambda>(ap, trace).
      runbind (info [''ACPI [OK]''] lg) (\<lambda>lg.
        Some (Inr (lg, ap, trace))))))))"

text \<open>The frame allocator that takes over, the system call registers and the first process.\<close>

definition boot_processes :: "('g, 'm, 'b, 'q, 'tb) boot_ops \<Rightarrow> boot_info \<Rightarrow> selectors \<Rightarrow> unit msr \<Rightarrow>
    bytes_mem \<Rightarrow> 'm \<Rightarrow> boot_allocator \<Rightarrow> sched \<Rightarrow> logger \<Rightarrow> (logger \<times> unit msr \<times> ('m, 'b) loadk) run" where
  "boot_processes S bi sel msr0 mem m fa sch lg =
     (let L = bo_spin S; X = bo_x86 S; B = bo_bitvec S; info = say L (bo_font S) ''INFO'' in
      runbind (Some (boot_frames X fa)) (\<lambda>bitmap_len.
      runbind (info [''creating bitmap allocator with '', digits 16 bitmap_len, '' frames''] lg) (\<lambda>lg.
      runbind (Some (bitmap_init X B fa)) (\<lambda>bm.
      runbind (info [''bitmap allocator [OK]''] lg) (\<lambda>lg.
      runbind (Some (syscall_init X (bo_star S) sel (bo_syscall_entry S) () msr0)) (\<lambda>msr.
      runbind (info [''syscalls [OK]''] lg) (\<lambda>lg.
      let k = \<lparr>ld_sched = sch, ld_mapper = m, ld_mapper_locked = False, ld_frames = bm,
               ld_frames_locked = False, ld_mem = mem\<rparr> in
      case bi_ramdisk_addr bi of
        Some addr \<Rightarrow>
          runbind (add_user_process L X (bo_map_bitmap S) B (bo_rflags S) addr k) (\<lambda>(r, k').
          case r of
            Inl e \<Rightarrow> Some (Inl (Expect ''Could not load init process''))
          | Inr _ \<Rightarrow> Some (Inr (lg, msr, k')))
      | None \<Rightarrow>
          runbind (say L (bo_font S) ''ERROR'' [''No ramdisk passed''] lg) (\<lambda>lg.
            Some (Inr (lg, msr, k))))))))))"

definition kernel_main :: "('g, 'm, 'b, 'q, 'tb) boot_ops \<Rightarrow> boot_info \<Rightarrow> segment_registers \<Rightarrow> unit msr \<Rightarrow>
    bytes_mem \<Rightarrow> ('m, 'b, 'q) booted run" where
  "kernel_main S bi regs msr0 mem =
     runbind (boot_tables S bi regs) (\<lambda>(lg, t, sel, regs', idt).
     runbind (boot_memory S bi lg) (\<lambda>(lg, off, m, fa, heap).
     runbind (boot_apic S bi off lg) (\<lambda>(lg, ap, trace).
     let sch = sched_init sched_uninit in
     runbind (say (bo_spin S) (bo_font S) ''INFO'' [''scheduler [OK]''] lg) (\<lambda>lg.
     let interrupts = True in
     runbind (boot_processes S bi sel msr0 mem m fa sch lg) (\<lambda>(lg, msr, k).
       Some (Inr \<lparr>bk_logger = lg, bk_tss = t, bk_segments = regs', bk_idt = idt, bk_heap = heap,
                  bk_apic = ap, bk_trace = trace, bk_msr = msr, bk_load = k,
                  bk_interrupts = interrupts\<rparr>))))))"

section \<open>Lemmas\<close>

text \<open>
  The heap ends where the kernel begins, and lies with it in the last entry of the top-level page
  table (512 GiB each). The boot loader places dynamic mappings in entries of their own, from entry
  256 on, so it never puts one where the heap is going to be.
\<close>

definition level_4_index :: "u64 \<Rightarrow> u64" where
  "level_4_index a = drop_bit 39 a AND 0x1FF"

lemma heap_next_to_kernel:
  "kernel_base BOOTLOADER_CONFIG = FixedAddress (HEAP_START + HEAP_SIZE) \<and>
   level_4_index HEAP_START = 511 \<and> level_4_index (HEAP_START + HEAP_SIZE) = 511 \<and>
   map_option level_4_index (dynamic_range_start BOOTLOADER_CONFIG) = Some 256"
  by (simp add: BOOTLOADER_CONFIG_def HEAP_START_def HEAP_SIZE_def level_4_index_def)

text \<open>A logger with room for at least \<open>n\<close> more characters.\<close>

definition can_say :: "spin \<Rightarrow> font \<Rightarrow> nat \<Rightarrow> logger \<Rightarrow> bool" where
  "can_say L F n lg \<longleftrightarrow> spin_ok L \<and> \<not> lg_locked lg \<and> (\<exists>m\<ge>n. writer_inv F m (lg_writer lg))"

lemma say_ok:
  assumes "can_say L F n lg" "length (log_line (codes level) (map codes args)) + j \<le> n"
  shows "\<exists>lg'. say L F level args lg = Some (Inr lg') \<and> can_say L F j lg'"
proof -
  obtain m where m: "n \<le> m" "writer_inv F m (lg_writer lg)" "spin_ok L" "\<not> lg_locked lg"
    using assms(1) by (auto simp: can_say_def)
  let ?s = "log_line (codes level) (map codes args)"
  obtain w where w: "write_str F (lg_writer lg) ?s = Inr w" "writer_inv F (m - length ?s) w"
    using screen.wr_ok [OF m(2), of ?s] m(1) assms(2) by auto
  have "j \<le> m - length ?s" using m(1) assms(2) by simp
  then show ?thesis using w m(3) log_free [OF m(3,4)] by (auto simp: say_def can_say_def)
qed

lemma digits_length: "2 \<le> b \<Longrightarrow> n < b ^ Suc k \<Longrightarrow> length (digits b n) \<le> Suc k"
proof (induction k arbitrary: n)
  case 0
  then show ?case by (subst digits.simps) simp
next
  case (Suc k)
  show ?case
  proof (cases "n < b")
    case True
    then show ?thesis by (subst digits.simps) simp
  next
    case False
    have "n div b < b ^ Suc k" using Suc.prems by (intro less_mult_imp_div_less) (simp add: mult.commute)
    then have "length (digits b (n div b)) \<le> Suc k" using Suc.IH Suc.prems(1) by simp
    then show ?thesis using False Suc.prems(1) by (subst digits.simps) (simp add: Let_def)
  qed
qed

lemma info_ok:
  assumes "can_say L F n lg" "length (concat args) + 8 + j \<le> n"
  shows "\<exists>lg'. say L F ''INFO'' args lg = Some (Inr lg') \<and> can_say L F j lg'"
proof -
  have "length (concat (map codes args)) = length (concat args)"
    by (induction args) (auto simp: codes_def)
  then have "length (log_line (codes ''INFO'') (map codes args)) = length (concat args) + 8"
    by (simp add: log_line_def pad5_def codes_def)
  then show ?thesis using say_ok [OF assms(1), of "''INFO''" args j] assms(2) by simp
qed

text \<open>What a machine must offer for the kernel to start.\<close>

definition tables_ok :: "('g, 'm, 'b, 'q, 'tb) boot_ops \<Rightarrow> ('g \<Rightarrow> nat) \<Rightarrow> bool" where
  "tables_ok S used \<longleftrightarrow>
     x86_addr_ok (bo_x86 S) \<and> gdt_ok (bo_gdt S) used \<and> star_ok (bo_star S) \<and>
     canonical (bo_stack1 S) \<and> canonical (bo_stack1 S + 0x5000) \<and> unat (bo_stack1 S) + 0x5000 < 2 ^ 64 \<and>
     canonical (bo_stack2 S) \<and> canonical (bo_stack2 S + 0x5000) \<and> unat (bo_stack2 S) + 0x5000 < 2 ^ 64 \<and>
     canonical (bo_syscall_entry S)"

definition screen_ready :: "('g, 'm, 'b, 'q, 'tb) boot_ops \<Rightarrow> boot_info \<Rightarrow> bool" where
  "screen_ready S bi \<longleftrightarrow>
     spin_ok (bo_spin S) \<and>
     (\<exists>buf info. bi_framebuffer bi = Some (buf, info) \<and> writer_inv (bo_font S) 400 (fb_writer_new buf info))"

definition memory_ready :: "('g, 'm, 'b, 'q, 'tb) boot_ops \<Rightarrow> boot_info \<Rightarrow> ('m \<Rightarrow> translation) \<Rightarrow>
    ('m \<Rightarrow> u64 \<Rightarrow> bool) \<Rightarrow> u64 \<Rightarrow> 'm \<Rightarrow> bool" where
  "memory_ready S bi tr hp off m0 \<longleftrightarrow>
     bi_physical_memory_offset bi = Some off \<and> canonical off \<and>
     unat off + unat (bo_cr3 S) < 2 ^ 64 \<and> canonical (off + bo_cr3 S) \<and>
     m0 = bo_page_table S \<lparr>opt_table = off + bo_cr3 S, opt_offset = off\<rparr> \<and>
     mm_ok (bi_memory_regions bi) \<and>
     mapper_ok (bo_map_boot S) tr hp (boot_allocate_frame (bo_x86 S)) \<and>
     mapper_ok (bo_map_bitmap S) tr hp (bitmap_allocate_frame (bo_x86 S) (bo_bitvec S)) \<and>
     2048 \<le> length (frame_addresses (bi_memory_regions bi)) \<and>
     (\<forall>p\<in>set (page_list HEAP_START 512). tr m0 p = None \<and> \<not> hp m0 p)"

lemma boot_tables_ok:
  assumes s: "screen_ready S bi" and t: "tables_ok S used"
  shows "\<exists>lg t sel. boot_tables S bi regs = Some (Inr (lg, t, sel, gdt_init sel regs, IDT)) \<and>
    can_say (bo_spin S) (bo_font S) 300 lg \<and>
    tss_build (bo_x86 S) (bo_stack1 S) (bo_stack2 S) = Inr t \<and>
    code_selector sel = 8 \<and> data_selector sel = 0x10 \<and> tss_selector sel = 0x18 \<and>
    user_data_selector sel = 0x2b \<and> user_code_selector sel = 0x33"
proof -
  obtain buf info where fb: "bi_framebuffer bi = Some (buf, info)"
    "writer_inv (bo_font S) 400 (fb_writer_new buf info)" "spin_ok (bo_spin S)"
    using s by (auto simp: screen_ready_def)
  have c0: "can_say (bo_spin S) (bo_font S) 400 (logger_new buf info)"
    using fb by (auto simp: can_say_def logger_new_def)
  obtain lg1 where l1: "say (bo_spin S) (bo_font S) ''INFO'' [''BAYOS''] (logger_new buf info) = Some (Inr lg1)"
    "can_say (bo_spin S) (bo_font S) 370 lg1"
    using info_ok [OF c0, of "[''BAYOS'']" 370] by auto
  obtain lg2 where l2: "say (bo_spin S) (bo_font S) ''INFO'' [''GDT [OK]''] lg1 = Some (Inr lg2)"
    "can_say (bo_spin S) (bo_font S) 340 lg2"
    using info_ok [OF l1(2), of "[''GDT [OK]'']" 340] by auto
  obtain lg3 where l3: "say (bo_spin S) (bo_font S) ''INFO'' [''interrupts [OK]''] lg2 = Some (Inr lg3)"
    "can_say (bo_spin S) (bo_font S) 300 lg3"
    using info_ok [OF l2(2), of "[''interrupts [OK]'']" 300] by auto
  obtain g where g: "gdt_build (bo_gdt S) = Inr (g, \<lparr>code_selector = segment_selector 1 0,
    data_selector = segment_selector 2 0, tss_selector = segment_selector 3 0,
    user_data_selector = segment_selector 5 3, user_code_selector = segment_selector 6 3\<rparr>)"
    using gdt_build_selectors t unfolding tables_ok_def by blast
  obtain ts where ts: "tss_build (bo_x86 S) (bo_stack1 S) (bo_stack2 S) = Inr ts"
    using tss_build_ok [of "bo_x86 S" "bo_stack1 S" "bo_stack2 S"] t unfolding tables_ok_def by simp
  show ?thesis
    using fb(1) l1(1) l2(1) l3 g ts by (simp add: boot_tables_def segment_selector_def)
qed

lemma boot_memory_ok:
  assumes t: "tables_ok S used" and m: "memory_ready S bi tr hp off m0"
    and lg: "can_say (bo_spin S) (bo_font S) 300 lg"
  shows "\<exists>lg' m fa fs. boot_memory S bi lg = Some (Inr (lg', off, m, fa, fresh_heap)) \<and>
    can_say (bo_spin S) (bo_font S) 240 lg' \<and> boot_inv (bo_x86 S) fa \<and>
    length (frame_addresses (bi_memory_regions bi)) \<le> length (boot_free fa) + 2048 \<and>
    length fs = 512 \<and> distinct fs \<and> set fs \<inter> set (boot_free fa) = {} \<and>
    (\<forall>i<512. tr m (HEAP_START + 4096 * of_nat i) = Some (fs ! i, {PRESENT, WRITABLE})) \<and>
    (\<forall>p. p \<notin> set (page_list HEAP_START 512) \<longrightarrow> tr m p = tr m0 p) \<and> hp m = hp m0"
proof -
  note m' = m [unfolded memory_ready_def] and t' = t [unfolded tables_ok_def]
  let ?fa = "boot_init (bi_memory_regions bi)"
  have inv: "boot_inv (bo_x86 S) ?fa" using m' t' by (simp add: boot_inv_def boot_init_def)
  have free: "boot_free ?fa = frame_addresses (bi_memory_regions bi)"
    by (simp add: boot_free_def boot_init_def)
  obtain m fa fs where h: "init_heap (bo_x86 S) (bo_map_boot S) (boot_allocate_frame (bo_x86 S)) m0 ?fa
      allocator_new = Inr (Inr (), m, fa, fresh_heap)" "length fs = 512" "distinct fs"
    "set fs \<inter> set (boot_free fa) = {}"
    "\<forall>i<512. tr m (HEAP_START + 4096 * of_nat i) = Some (fs ! i, {PRESENT, WRITABLE})"
    "\<forall>p. p \<notin> set (page_list HEAP_START 512) \<longrightarrow> tr m p = tr m0 p" "boot_inv (bo_x86 S) fa"
    "length (frame_addresses (bi_memory_regions bi)) \<le> length (boot_free fa) + 2048" "hp m = hp m0"
    using init_heap_ok [OF inv, of "bo_map_boot S" tr hp m0] m' by (auto simp: free)
  have v: "virt_addr_new (bo_x86 S) off = Inr off"
    "memory_init (bo_x86 S) (bo_cr3 S) off = Inr \<lparr>opt_table = off + bo_cr3 S, opt_offset = off\<rparr>"
    using m' t' by (simp_all add: virt_addr_new_ok memory_init_def active_level_4_table_def virt_addr_add_ok)
  obtain lg1 where l1: "say (bo_spin S) (bo_font S) ''INFO'' [''frame allocator [OK]''] lg = Some (Inr lg1)"
    "can_say (bo_spin S) (bo_font S) 270 lg1"
    using info_ok [OF lg, of "[''frame allocator [OK]'']" 270] by auto
  obtain lg2 where l2: "say (bo_spin S) (bo_font S) ''INFO'' [''heap [OK]''] lg1 = Some (Inr lg2)"
    "can_say (bo_spin S) (bo_font S) 240 lg2"
    using info_ok [OF l1(2), of "[''heap [OK]'']" 240] by auto
  have "boot_memory S bi lg = Some (Inr (lg2, off, m, fa, fresh_heap))"
    using m' v l1(1) l2(1) h(1) by (simp add: boot_memory_def Let_def)
  then show ?thesis using l2(2) h(2-) by blast
qed

lemma boot_frames_small:
  assumes "boot_inv X s"
  shows "\<exists>n. boot_frames X s = Inr n \<and> length (digits 16 n) \<le> 17"
proof -
  have mm: "x86_addr_ok X" "mm_ok (boot_memory_map s)" using assms by (simp_all add: boot_inv_def)
  have "length (frame_addresses (boot_memory_map s)) < 16 ^ Suc 16"
    using length_frame_addresses [OF mm(2)] by simp
  from digits_length [OF _ this] have "length (digits 16 (length (frame_addresses (boot_memory_map s)))) \<le> 17"
    by (simp)
  then show ?thesis using mm by (simp add: boot_frames_def usable_frames_ok)
qed

lemma boot_apic_ok:
  fixes S :: "('g, 'm, 'b, 'q, 'tb) boot_ops"
  assumes acpi: "bi_rsdp_addr bi = Some rsdp" "bo_acpi_tables S rsdp = Some tables"
    "bo_acpi_platform S tables = Some (Apic_Model apic)"
    and r: "apic_ready (bo_spin S) (bo_devices S) last_entry apic
      \<lparr>ap_offset = off, ap_mapper_locked = False, ap_lapic = None, ap_lapic_locked = False, ap_pipe = (None :: 'q option)\<rparr>"
    and Q: "array_queue_ok (bo_queue S) items cap"
    and lg: "can_say (bo_spin S) (bo_font S) 240 lg"
  shows "\<exists>lg' q trace. boot_apic S bi off lg = Some (Inr (lg',
      \<lparr>ap_offset = off, ap_mapper_locked = False, ap_lapic = Some (off + local_apic_address apic),
       ap_lapic_locked = False, ap_pipe = Some q\<rparr>, trace)) \<and>
    can_say (bo_spin S) (bo_font S) 220 lg' \<and> items q = [] \<and> cap q = 128 \<and>
    lapic_val 200 trace None = Some 0x20020"
proof -
  let ?k = "\<lparr>ap_offset = off, ap_mapper_locked = False, ap_lapic = None, ap_lapic_locked = False,
    ap_pipe = (None :: 'q option)\<rparr>"
  obtain es1 es2 ticks t2 q where a: "init_apic (bo_spin S) (bo_queue S) (bo_devices S) (Apic_Model apic) ?k [] =
      Some (Inr (\<lparr>ap_offset = off, ap_mapper_locked = False, ap_lapic = Some (off + local_apic_address apic),
          ap_lapic_locked = False, ap_pipe = Some q\<rparr>,
        disable_pic @ es1 @ es2 @ [LapicR 8] @
          ioas_events off last_entry (bo_devices S t2 (LapicR 8)) (io_apics apic)))"
    "items q = []" "cap q = 128"
    "\<forall>i v. lapic_val i es2 v =
       (if i = 200 then Some 0x20020 else if i = 248 then Some 3 else if i = 224 then Some ticks else v)"
    using init_apic_run [OF r Q, of "[]"] by (simp, blast)
  obtain lg' where l: "say (bo_spin S) (bo_font S) ''INFO'' [''ACPI [OK]''] lg = Some (Inr lg')"
    "can_say (bo_spin S) (bo_font S) 220 lg'"
    using info_ok [OF lg, of "[''ACPI [OK]'']" 220] by auto
  show ?thesis
    using acpi a l by (simp add: boot_apic_def Let_def io_only_keeps [OF ioas_events_io])
qed

lemma boot_processes_ok:
  assumes t: "tables_ok S used" and B: "bitvec_ok (bo_bitvec S) bits" and fa: "boot_inv (bo_x86 S) fa"
    and M: "mapper_ok (bo_map_bitmap S) tr hp (bitmap_allocate_frame (bo_x86 S) (bo_bitvec S))"
    and sel: "user_code_selector sel = 0x33" "user_data_selector sel = 0x2b" "code_selector sel = 8"
      "data_selector sel = 0x10" "frame_allocator_cell msr0 = None"
    and sch: "sched_state sch ps c" and lg: "can_say (bo_spin S) (bo_font S) 190 lg"
    and disk: "bi_ramdisk_addr bi = Some addr" "loadable addr F progs mem"
    and room: "4 * (total_pages progs + 5) \<le> length (boot_free fa)"
    and un: "\<forall>q\<in>set (all_pages progs @ user_stack). tr m q = None \<and> \<not> hp m q"
  shows "\<exists>lg' k'. boot_processes S bi sel msr0 mem m fa sch lg = Some (Inr (lg',
      msr0\<lparr>efer := efer msr0 OR 1, lstar := bo_syscall_entry S, star := Some (0x33, 0x2b, 8, 0x10),
           fs_base := 0x1fc000, frame_allocator_cell := Some ()\<rparr>, k')) \<and>
    can_say (bo_spin S) (bo_font S) 0 lg' \<and> \<not> ld_mapper_locked k' \<and> \<not> ld_frames_locked k' \<and>
    sched_state (ld_sched k') (ps @ [user_process]) c \<and>
    bitmap_inv (bo_x86 S) (bo_bitvec S) bits (ld_frames k') \<and>
    (\<forall>q\<in>set (all_pages progs @ user_stack). \<exists>f. f \<in> set (boot_free fa) \<and>
       f \<notin> set (bitmap_free bits (ld_frames k')) \<and> tr (ld_mapper k') q = Some (f, user_flags)) \<and>
    (\<forall>q. q \<notin> set (all_pages progs @ user_stack) \<longrightarrow> tr (ld_mapper k') q = tr m q) \<and>
    c_rip (context_at (word_at (ld_mem k')) (p_rsp user_process)) = e_entry (read_header mem addr)"
proof -
  have L: "spin_ok (bo_spin S)" using lg by (simp add: can_say_def)
  have X: "x86_addr_ok (bo_x86 S)" using fa by (simp add: boot_inv_def)
  obtain n where n: "boot_frames (bo_x86 S) fa = Inr n" "length (digits 16 n) \<le> 17"
    using boot_frames_small [OF fa] by blast
  obtain bm where bm: "bitmap_init (bo_x86 S) (bo_bitvec S) fa = Inr bm"
    "bitmap_inv (bo_x86 S) (bo_bitvec S) bits bm" "bitmap_free bits bm = boot_free fa"
    by (rule bitmap_init_ok [OF fa B])
  obtain lg1 where l1: "say (bo_spin S) (bo_font S) ''INFO''
      [''creating bitmap allocator with '', digits 16 n, '' frames''] lg = Some (Inr lg1)"
    "can_say (bo_spin S) (bo_font S) 120 lg1"
    using info_ok [OF lg, of "[''creating bitmap allocator with '', digits 16 n, '' frames'']" 120] n(2) by auto
  obtain lg2 where l2: "say (bo_spin S) (bo_font S) ''INFO'' [''bitmap allocator [OK]''] lg1 = Some (Inr lg2)"
    "can_say (bo_spin S) (bo_font S) 60 lg2"
    using info_ok [OF l1(2), of "[''bitmap allocator [OK]'']" 60] by auto
  obtain lg3 where l3: "say (bo_spin S) (bo_font S) ''INFO'' [''syscalls [OK]''] lg2 = Some (Inr lg3)"
    "can_say (bo_spin S) (bo_font S) 0 lg3"
    using info_ok [OF l2(2), of "[''syscalls [OK]'']" 0] by auto
  have sys: "syscall_init (bo_x86 S) (bo_star S) sel (bo_syscall_entry S) () msr0 =
      Inr (msr0\<lparr>efer := efer msr0 OR 1, lstar := bo_syscall_entry S, star := Some (0x33, 0x2b, 8, 0x10),
           fs_base := 0x1fc000, frame_allocator_cell := Some ()\<rparr>)"
    by (rule syscall_init_ok) (use t sel in \<open>simp_all add: tables_ok_def\<close>)
  define k where "k = \<lparr>ld_sched = sch, ld_mapper = m, ld_mapper_locked = False, ld_frames = bm,
    ld_frames_locked = False, ld_mem = mem\<rparr>"
  have k: "ld_sched k = sch" "ld_mapper k = m" "\<not> ld_mapper_locked k" "ld_frames k = bm"
    "\<not> ld_frames_locked k" "ld_mem k = mem"
    by (simp_all add: k_def)
  obtain k' where k': "add_user_process (bo_spin S) (bo_x86 S) (bo_map_bitmap S) (bo_bitvec S) (bo_rflags S) addr k =
      Some (Inr (Inr (), k'))" "\<not> ld_mapper_locked k'" "\<not> ld_frames_locked k'"
    "sched_state (ld_sched k') (ps @ [user_process]) c"
    "bitmap_inv (bo_x86 S) (bo_bitvec S) bits (ld_frames k')"
    "\<forall>q\<in>set (all_pages progs @ user_stack). \<exists>f. f \<in> set (boot_free fa) \<and>
       f \<notin> set (bitmap_free bits (ld_frames k')) \<and> tr (ld_mapper k') q = Some (f, user_flags)"
    "\<forall>q. q \<notin> set (all_pages progs @ user_stack) \<longrightarrow> tr (ld_mapper k') q = tr m q"
    "c_rip (context_at (word_at (ld_mem k')) (p_rsp user_process)) = e_entry (read_header mem addr)"
    using user_process_loaded_ok [OF L X M, of bits k ps c addr F progs "bo_rflags S", unfolded k bm(3) Let_def]
      bm(2) k(3,5) sch disk(2) room un by blast
  have "boot_processes S bi sel msr0 mem m fa sch lg = Some (Inr (lg3,
      msr0\<lparr>efer := efer msr0 OR 1, lstar := bo_syscall_entry S, star := Some (0x33, 0x2b, 8, 0x10),
           fs_base := 0x1fc000, frame_allocator_cell := Some ()\<rparr>, k'))"
    unfolding boot_processes_def Let_def
    using n(1) bm(1) l1(1) l2(1) l3(1) sys disk(1) k'(1) [unfolded k_def] by simp
  then show ?thesis using l3(2) k'(2-) by blast
qed

section \<open>Properties\<close>

text \<open>
  C3: the kernel boots. On a machine with a supported screen, an APIC whose calibration ends, enough
  usable memory and a loadable program on the ramdisk, \<open>kernel_main\<close> reaches its idle loop: no step
  panics or spins. Then the descriptor table is loaded and the segment registers hold the kernel's
  selectors; system calls are enabled; the timer is periodic; the heap is the fresh heap, its 512
  pages mapped to frames of their own; the pages of the program and its stack are mapped to frames
  that are neither the heap's nor free any more; the scheduler runs the boot thread and has the
  program ready, to start at its entry point; the input pipe is empty; and every lock is free.
\<close>

theorem boot_completes:
  fixes S :: "('g, 'm, 'b, 'q, 'tb) boot_ops"
  assumes "screen_ready S bi" "tables_ok S used" "memory_ready S bi tr hp off m0"
    "bitvec_ok (bo_bitvec S) bits" "array_queue_ok (bo_queue S) items cap"
    "bi_rsdp_addr bi = Some rsdp" "bo_acpi_tables S rsdp = Some tables"
    "bo_acpi_platform S tables = Some (Apic_Model apic)"
    "apic_ready (bo_spin S) (bo_devices S) last_entry apic
      \<lparr>ap_offset = off, ap_mapper_locked = False, ap_lapic = None, ap_lapic_locked = False,
       ap_pipe = (None :: 'q option)\<rparr>"
    "frame_allocator_cell msr0 = None"
    "bi_ramdisk_addr bi = Some addr" "loadable addr F progs mem"
    "2048 + 4 * (total_pages progs + 5) \<le> length (frame_addresses (bi_memory_regions bi))"
    "\<forall>q\<in>set (all_pages progs @ user_stack). tr m0 q = None \<and> \<not> hp m0 q \<and>
       q \<notin> set (page_list HEAP_START 512)"
  shows "\<exists>k fs q. kernel_main S bi regs msr0 mem = Some (Inr k) \<and>
    bk_interrupts k \<and> bk_idt k = IDT \<and> sr_cs (bk_segments k) = 8 \<and> sr_ss (bk_segments k) = 0x10 \<and>
    lstar (bk_msr k) = bo_syscall_entry S \<and> frame_allocator_cell (bk_msr k) = Some () \<and>
    lapic_val 200 (bk_trace k) None = Some 0x20020 \<and> ap_pipe (bk_apic k) = Some q \<and> items q = [] \<and>
    bk_heap k = fresh_heap \<and> length fs = 512 \<and> distinct fs \<and>
    (\<forall>i<512. tr (ld_mapper (bk_load k)) (HEAP_START + 4096 * of_nat i) = Some (fs ! i, {PRESENT, WRITABLE})) \<and>
    (\<forall>p\<in>set (all_pages progs @ user_stack). \<exists>f. f \<notin> set fs \<and>
       f \<notin> set (bitmap_free bits (ld_frames (bk_load k))) \<and>
       tr (ld_mapper (bk_load k)) p = Some (f, user_flags)) \<and>
    sched_state (ld_sched (bk_load k)) [kernel_process, user_process] 0 \<and>
    c_rip (context_at (word_at (ld_mem (bk_load k))) (p_rsp user_process)) = e_entry (read_header mem addr) \<and>
    \<not> ap_mapper_locked (bk_apic k) \<and> \<not> ap_lapic_locked (bk_apic k) \<and> \<not> lg_locked (bk_logger k) \<and>
    \<not> ld_mapper_locked (bk_load k) \<and> \<not> ld_frames_locked (bk_load k)"
proof -
  obtain lg1 t sel where 1: "boot_tables S bi regs = Some (Inr (lg1, t, sel, gdt_init sel regs, IDT))"
    "can_say (bo_spin S) (bo_font S) 300 lg1"
    "code_selector sel = 8" "data_selector sel = 0x10" "user_data_selector sel = 0x2b"
    "user_code_selector sel = 0x33"
    using boot_tables_ok [OF assms(1,2), of regs] by blast
  obtain lg2 m fa fs where 2: "boot_memory S bi lg1 = Some (Inr (lg2, off, m, fa, fresh_heap))"
    "can_say (bo_spin S) (bo_font S) 240 lg2" "boot_inv (bo_x86 S) fa"
    "length (frame_addresses (bi_memory_regions bi)) \<le> length (boot_free fa) + 2048"
    "length fs = 512" "distinct fs" "set fs \<inter> set (boot_free fa) = {}"
    "\<forall>i<512. tr m (HEAP_START + 4096 * of_nat i) = Some (fs ! i, {PRESENT, WRITABLE})"
    "\<forall>p. p \<notin> set (page_list HEAP_START 512) \<longrightarrow> tr m p = tr m0 p" "hp m = hp m0"
    using boot_memory_ok [OF assms(2,3) 1(2)] by blast
  obtain lg3 q trace where 3: "boot_apic S bi off lg2 = Some (Inr (lg3,
      \<lparr>ap_offset = off, ap_mapper_locked = False, ap_lapic = Some (off + local_apic_address apic),
       ap_lapic_locked = False, ap_pipe = Some q\<rparr>, trace))"
    "can_say (bo_spin S) (bo_font S) 220 lg3" "items q = []" "lapic_val 200 trace None = Some 0x20020"
    using boot_apic_ok [OF assms(6-9,5) 2(2)] by blast
  obtain lg4 where 4: "say (bo_spin S) (bo_font S) ''INFO'' [''scheduler [OK]''] lg3 = Some (Inr lg4)"
    "can_say (bo_spin S) (bo_font S) 190 lg4"
    using info_ok [OF 3(2), of "[''scheduler [OK]'']" 190] by auto
  have M: "mapper_ok (bo_map_bitmap S) tr hp (bitmap_allocate_frame (bo_x86 S) (bo_bitvec S))"
    using assms(3) by (simp add: memory_ready_def)
  have room: "4 * (total_pages progs + 5) \<le> length (boot_free fa)" using assms(13) 2(4) by simp
  have un: "\<forall>q\<in>set (all_pages progs @ user_stack). tr m q = None \<and> \<not> hp m q"
    using assms(14) 2(9,10) by simp
  obtain lg5 k' where 5: "boot_processes S bi sel msr0 mem m fa (sched_init sched_uninit) lg4 = Some (Inr (lg5,
      msr0\<lparr>efer := efer msr0 OR 1, lstar := bo_syscall_entry S, star := Some (0x33, 0x2b, 8, 0x10),
           fs_base := 0x1fc000, frame_allocator_cell := Some ()\<rparr>, k'))"
    "can_say (bo_spin S) (bo_font S) 0 lg5" "\<not> ld_mapper_locked k'" "\<not> ld_frames_locked k'"
    "sched_state (ld_sched k') ([kernel_process] @ [user_process]) 0"
    "\<forall>q\<in>set (all_pages progs @ user_stack). \<exists>f. f \<in> set (boot_free fa) \<and>
       f \<notin> set (bitmap_free bits (ld_frames k')) \<and> tr (ld_mapper k') q = Some (f, user_flags)"
    "\<forall>q. q \<notin> set (all_pages progs @ user_stack) \<longrightarrow> tr (ld_mapper k') q = tr m q"
    "c_rip (context_at (word_at (ld_mem k')) (p_rsp user_process)) = e_entry (read_header mem addr)"
    using boot_processes_ok [OF assms(2,4) 2(3) M 1(6,5,3,4) assms(10) sched_init_state 4(2)
        assms(11,12) room un] by blast
  have heap: "tr (ld_mapper k') (HEAP_START + 4096 * of_nat i) = Some (fs ! i, {PRESENT, WRITABLE})"
    if "i < 512" for i
  proof -
    have "HEAP_START + 4096 * of_nat i \<in> set (page_list HEAP_START 512)"
      using that by (auto simp: page_list_def)
    then have "HEAP_START + 4096 * of_nat i \<notin> set (all_pages progs @ user_stack)" using assms(14) by blast
    then show ?thesis using 5(7) 2(8) that by simp
  qed
  have user: "\<exists>f. f \<notin> set fs \<and> f \<notin> set (bitmap_free bits (ld_frames k')) \<and>
      tr (ld_mapper k') p = Some (f, user_flags)" if "p \<in> set (all_pages progs @ user_stack)" for p
    using 5(6) that 2(7) by blast
  define k where "k = \<lparr>bk_logger = lg5, bk_tss = t, bk_segments = gdt_init sel regs, bk_idt = IDT,
    bk_heap = fresh_heap, bk_apic = \<lparr>ap_offset = off, ap_mapper_locked = False,
      ap_lapic = Some (off + local_apic_address apic), ap_lapic_locked = False, ap_pipe = Some q\<rparr>,
    bk_trace = trace, bk_msr = msr0\<lparr>efer := efer msr0 OR 1, lstar := bo_syscall_entry S,
      star := Some (0x33, 0x2b, 8, 0x10), fs_base := 0x1fc000, frame_allocator_cell := Some ()\<rparr>,
    bk_load = k', bk_interrupts = True\<rparr>"
  have "kernel_main S bi regs msr0 mem = Some (Inr k)"
    using 1(1) 2(1) 3(1) 4(1) 5(1) by (simp add: kernel_main_def Let_def k_def)
  moreover have "\<not> lg_locked lg5" using 5(2) by (simp add: can_say_def)
  ultimately show ?thesis
    using heap user 5(3-5,8) 1(3,4) 2(5,6) 3(3,4)
    by (intro exI [of _ k] exI [of _ fs] exI [of _ q]) (simp add: k_def gdt_init_def)
qed

text \<open>A machine with 4096 usable frames and the sample program on its ramdisk.\<close>

definition machine_map :: memory_regions where
  "machine_map = [\<lparr>region_start = 0x100000, region_end = 0x1100000, region_kind = Usable\<rparr>]"

definition machine_info :: boot_info where
  "machine_info =
     \<lparr>bi_framebuffer = Some (replicate 144 7, sample_info Rgb),
      bi_physical_memory_offset = Some 0xffff800000000000, bi_memory_regions = machine_map,
      bi_rsdp_addr = Some 0xe0000, bi_ramdisk_addr = Some sample_efi\<rparr>"

definition machine :: "(nat, translation, bool list, nat \<times> u8 list, unit) boot_ops" where
  "machine =
     \<lparr>bo_spin = spin_ref, bo_font = sample_font, bo_x86 = x86_ref, bo_gdt = gdt_ref, bo_star = star_ref,
      bo_map_boot = mapper_ref, bo_map_bitmap = mapper_ref, bo_bitvec = bitvec_ref, bo_queue = queue_ref,
      bo_devices = devices_ref, bo_page_table = (\<lambda>_. Map.empty), bo_acpi_tables = (\<lambda>_. Some ()),
      bo_acpi_platform = (\<lambda>_. Some (Apic_Model apic_ref)), bo_stack1 = 0xffffffff80100000,
      bo_stack2 = 0xffffffff80105000, bo_syscall_entry = 0xffffffff80010000, bo_cr3 = 0x2000,
      bo_rflags = 2\<rparr>"

definition machine_regs :: segment_registers where
  "machine_regs = \<lparr>sr_cs = 0, sr_es = 0, sr_ss = 0, sr_ds = 0, sr_fs = 0, sr_gs = 0, sr_tr = 0\<rparr>"

definition machine_msr :: "unit msr" where
  "machine_msr = \<lparr>efer = 0, lstar = 0, star = None, fmask = 0, fs_base = 0, frame_allocator_cell = None\<rparr>"

lemma machine_map_ok: "mm_ok machine_map" "length (frame_addresses machine_map) = 4096"
  by (simp_all add: mm_ok_def machine_map_def usable_regions_def region_ok_def frame_addresses_def
      step_by_4096_def)

lemma machine_screen: "screen_ready machine machine_info"
  using sample_inv
  by (simp add: screen_ready_def machine_def machine_info_def spin_ref_ok writer_inv_def cursor_inv_def
      fb_writer_new_def clear_def sample_font_def sample_info_def)

lemma machine_tables: "tables_ok machine (\<lambda>n. n)"
  by (simp add: tables_ok_def machine_def x86_ref_ok gdt_ref_ok star_ref_ok canonical_def)

lemma machine_memory:
  "memory_ready machine machine_info (\<lambda>m. m) (\<lambda>_ _. False) 0xffff800000000000 Map.empty"
  by (simp add: memory_ready_def machine_def machine_info_def machine_map_ok mapper_ref_ok canonical_def)

lemma machine_apic:
  "apic_ready (bo_spin machine) (bo_devices machine) (\<lambda>_. 23) apic_ref
    \<lparr>ap_offset = 0xffff800000000000, ap_mapper_locked = False, ap_lapic = None, ap_lapic_locked = False,
     ap_pipe = (None :: (nat \<times> u8 list) option)\<rparr>"
  using sample_apic_ready by (simp add: machine_def sample_apick_def)

lemma machine_pages:
  "\<forall>q\<in>set (all_pages [sample_program] @ user_stack). q \<notin> set (page_list HEAP_START 512)"
proof
  fix q assume "q \<in> set (all_pages [sample_program] @ user_stack)"
  then have q: "unat q < 0x402000"
    by (auto simp: all_pages_def seg_pages_def seg_base_def seg_count_def page_list_def user_stack_def
        upt_rec sample_program_def)
  show "q \<notin> set (page_list HEAP_START 512)"
  proof
    assume "q \<in> set (page_list HEAP_START 512)"
    then obtain i where i: "i < 512" "q = HEAP_START + 4096 * of_nat i" by (auto simp: page_list_def)
    have "unat (4096 * of_nat i :: u64) = 4096 * i"
      using i(1) by (simp add: unat_mul_noovf unsigned_of_nat take_bit_nat_eq_self)
    then have "unat q = unat HEAP_START + 4096 * i"
      unfolding i(2) using i(1) by (subst unat_add_noovf) simp_all
    then show False using q by simp
  qed
qed

theorem boot_completes_witness:
  "\<exists>k. kernel_main machine machine_info machine_regs machine_msr sample_file = Some (Inr k) \<and>
    sched_state (ld_sched (bk_load k)) [kernel_process, user_process] 0 \<and>
    c_rip (context_at (word_at (ld_mem (bk_load k))) (p_rsp user_process)) = 0x401000"
proof -
  have b: "bitvec_ok (bo_bitvec machine) (\<lambda>b. b)" "array_queue_ok (bo_queue machine) snd fst"
    by (simp_all add: machine_def bitvec_ref_ok queue_ref_ok)
  have a: "bi_rsdp_addr machine_info = Some 0xe0000" "bo_acpi_tables machine 0xe0000 = Some ()"
    "bo_acpi_platform machine () = Some (Apic_Model apic_ref)"
    "frame_allocator_cell machine_msr = None" "bi_ramdisk_addr machine_info = Some sample_efi"
    by (simp_all add: machine_def machine_info_def machine_msr_def)
  have n: "2048 + 4 * (total_pages [sample_program] + 5) \<le> length (frame_addresses (bi_memory_regions machine_info))"
    by (simp add: machine_info_def machine_map_ok total_pages_def seg_count_def sample_program_def)
  have u: "\<forall>q\<in>set (all_pages [sample_program] @ user_stack). (Map.empty :: translation) q = None \<and> \<not> False \<and>
      q \<notin> set (page_list HEAP_START 512)"
    using machine_pages by simp
  have e: "e_entry (read_header sample_file sample_efi) = 0x401000"
    by (simp add: sample_efi_def sample_file_header) (simp add: sample_header_def)
  show ?thesis
    using boot_completes [where tr = "\<lambda>m. m" and hp = "\<lambda>_ _. False" and bits = "\<lambda>b. b"
        and items = snd and cap = fst and last_entry = "\<lambda>_. 23" and regs = machine_regs,
        OF machine_screen machine_tables machine_memory b a(1-3) machine_apic a(4,5) sample_loadable n u]
    unfolding e by blast
qed

end
