(* ===== verification/Host.thy ===== *)
theory Host
  imports Prelude
begin

text \<open>
  The machine the programs of the repository that run beside the kernel use: the build scripts
  (\<open>src/build.rs\<close>, \<open>src/user/build.rs\<close>, \<open>src/user/cross/build.rs\<close>) and the runner
  (\<open>src/src/main.rs\<close>). The state is the file system, what was printed, and the sequence of the
  downloads, unpacked archives and started programs. In contrast to the kernel a panic of these
  programs leaves the files behind for the next run, so an operation yields a result or a panic
  \<^emph>\<open>and\<close> the state it ends in.

  What is outside of the repository is a field of the record \<open>ext\<close>: the environment variables, the
  failures of the operating system, the server, the programs that are started, the crates for
  hashing, decompression and firmware images.
\<close>

named_theorems host_simps
named_theorems host_defs

section \<open>State\<close>

type_synonym bytes = "u8 list"

datatype node = Dir | File bytes

type_synonym fs = "string \<rightharpoonup> node"

text \<open>A prepared \<open>std::process::Command\<close>: program, arguments, working directory, variables set.\<close>

record command =
  c_prog :: string
  c_args :: "string list"
  c_dir :: "string option"
  c_env :: "(string \<times> string) list"

text \<open>The end of a started program: it could not be started, or it ended with a code (none if a
  signal ended it), having written to its two outputs.\<close>

datatype reply = SpawnFailed | Ended "nat option" bytes bytes

fun success :: "reply \<Rightarrow> bool" where
  "success SpawnFailed = False"
| "success (Ended c _ _) = (c = Some 0)"

datatype archive_format = TarXz | TarGz

datatype event =
    Fetched string
  | Unpacked archive_format bytes string
  | Ran command reply

text \<open>
  Printed lines. The ones whose text is only ASCII are written out; the ones that hold other
  characters, quoted paths or decimal fractions are kept as their parts.
\<close>

datatype line =
    Line string
  | ErrLine string
  | Extracting string
  | ExtractedTo string string
  | Megabytes u64
  | DownloadComplete u64
  | ApplyingPatch string string
  | PatchOutput bytes
  | PatchApplied string

record host =
  h_fs :: fs
  h_out :: "line list"
  h_trace :: "event list"

section \<open>What lies outside of the repository\<close>

text \<open>Answer of the HTTP library: an error, or a status and the results of reading the body.\<close>

datatype chunk = ReadFailed | Chunk bytes

datatype http_reply = HttpError | HttpReply nat "chunk list"

text \<open>One call of \<open>Read::read\<close> on a file: an error, or as many bytes as the system chooses.\<close>

datatype read_reply = ReadErr | ReadLen nat

datatype fs_op = Stat string | CreateDir string | OpenFile string | CreateFile string | RemoveFile string

record 'd ext =
  x_var :: "string \<Rightarrow> string option"
  x_nproc :: "nat option"
  x_fault :: "host \<Rightarrow> fs_op \<Rightarrow> bool"
  x_read :: "host \<Rightarrow> string \<Rightarrow> nat \<Rightarrow> read_reply"
  x_short :: "host \<Rightarrow> string \<Rightarrow> nat option"
  x_http :: "host \<Rightarrow> string \<Rightarrow> http_reply"
  x_exec :: "host \<Rightarrow> command \<Rightarrow> reply \<times> fs"
  x_unpack :: "host \<Rightarrow> archive_format \<Rightarrow> bytes \<Rightarrow> string \<Rightarrow> bool \<times> fs"
  x_new :: 'd
  x_update :: "'d \<Rightarrow> bytes \<Rightarrow> 'd"
  x_finalize :: "'d \<Rightarrow> bytes"
  x_hex :: "bytes \<Rightarrow> string"

section \<open>Sequencing\<close>

type_synonym 'a act = "host \<Rightarrow> 'a res \<times> host"

definition hret :: "'a \<Rightarrow> 'a act" where
  "hret x = (\<lambda>h. (Inr x, h))"

definition hpanic :: "panic \<Rightarrow> 'a act" where
  "hpanic e = (\<lambda>h. (Inl e, h))"

definition hbind :: "'a act \<Rightarrow> ('a \<Rightarrow> 'b act) \<Rightarrow> 'b act" where
  "hbind m f = (\<lambda>h. case m h of (Inl e, h') \<Rightarrow> (Inl e, h') | (Inr x, h') \<Rightarrow> f x h')"

definition hthen :: "'a act \<Rightarrow> 'b act \<Rightarrow> 'b act" where
  "hthen m n = hbind m (\<lambda>_. n)"

definition hassert :: "bool \<Rightarrow> panic \<Rightarrow> unit act" where
  "hassert b e = (if b then hret () else hpanic e)"

definition hlift :: "'a res \<Rightarrow> 'a act" where
  "hlift r = (\<lambda>h. (r, h))"

definition hprint :: "line \<Rightarrow> unit act" where
  "hprint l = (\<lambda>h. (Inr (), h\<lparr>h_out := h_out h @ [l]\<rparr>))"

fun hprints :: "line list \<Rightarrow> unit act" where
  "hprints [] = hret ()"
| "hprints (l # ls) = hthen (hprint l) (hprints ls)"

fun hseq :: "unit act list \<Rightarrow> unit act" where
  "hseq [] = hret ()"
| "hseq (m # ms) = hthen m (hseq ms)"

lemma hret_run [host_simps]: "hret x h = (Inr x, h)"
  by (simp add: hret_def)

lemma hpanic_run [host_simps]: "hpanic e h = (Inl e, h)"
  by (simp add: hpanic_def)

lemma hassert_run [host_simps]: "hassert b e h = (if b then Inr () else Inl e, h)"
  by (simp add: hassert_def host_simps)

lemma hlift_run [host_simps]: "hlift r h = (r, h)"
  by (simp add: hlift_def)

lemma hprint_run [host_simps]: "hprint l h = (Inr (), h\<lparr>h_out := h_out h @ [l]\<rparr>)"
  by (simp add: hprint_def)

lemma hprints_run [host_simps]: "hprints ls h = (Inr (), h\<lparr>h_out := h_out h @ ls\<rparr>)"
  by (induction ls arbitrary: h) (simp_all add: hthen_def hbind_def host_simps)

declare hprints.simps [simp del]

lemma hbind_ok: "m h = (Inr x, h') \<Longrightarrow> hbind m f h = f x h'"
  by (simp add: hbind_def)

lemma hbind_panic: "m h = (Inl e, h') \<Longrightarrow> hbind m f h = (Inl e, h')"
  by (simp add: hbind_def)

lemma hthen_ok: "m h = (Inr x, h') \<Longrightarrow> hthen m n h = n h'"
  by (simp add: hthen_def hbind_def)

lemma hthen_panic: "m h = (Inl e, h') \<Longrightarrow> hthen m n h = (Inl e, h')"
  by (simp add: hthen_def hbind_def)

lemmas hrun = hbind_ok hbind_panic hthen_ok hthen_panic

lemma hbind_eq:
  "hbind m f h = (r, h') \<longleftrightarrow>
    (\<exists>e. m h = (Inl e, h') \<and> r = Inl e) \<or> (\<exists>x k. m h = (Inr x, k) \<and> f x k = (r, h'))"
  by (cases "m h"; cases "fst (m h)") (auto simp: hbind_def)

lemma hthen_eq:
  "hthen m n h = (r, h') \<longleftrightarrow>
    (\<exists>e. m h = (Inl e, h') \<and> r = Inl e) \<or> (\<exists>x k. m h = (Inr x, k) \<and> n k = (r, h'))"
  by (simp add: hthen_def hbind_eq)

lemma hbind_assoc: "hbind (hbind m f) g = hbind m (\<lambda>x. hbind (f x) g)"
  by (auto simp: hbind_def fun_eq_iff split: prod.split sum.split)

lemma hthen_assoc: "hthen (hthen m n) q = hthen m (hthen n q)"
  by (simp add: hthen_def hbind_assoc)

section \<open>Paths and the file system\<close>

text \<open>\<open>Path::join\<close>: an absolute second path replaces the first.\<close>

definition path_join :: "string \<Rightarrow> string \<Rightarrow> string" where
  "path_join a b =
    (if b \<noteq> [] \<and> hd b = CHR ''/'' then b
     else if a = [] \<or> last a = CHR ''/'' then a @ b
     else a @ ''/'' @ b)"

text \<open>The directories on the way to a path, the path last.\<close>

definition path_prefixes :: "string \<Rightarrow> string list" where
  "path_prefixes p = map (\<lambda>i. take i p) (filter (\<lambda>i. p ! i = CHR ''/'') [1..<length p]) @ [p]"

fun make_dirs :: "fs \<Rightarrow> string list \<Rightarrow> fs" where
  "make_dirs f [] = f"
| "make_dirs f (p # ps) = make_dirs (f(p \<mapsto> Dir)) ps"

fun is_file :: "node option \<Rightarrow> bool" where
  "is_file (Some (File _)) = True"
| "is_file _ = False"

definition path_exists :: "'d ext \<Rightarrow> string \<Rightarrow> bool act" where
  "path_exists X p = (\<lambda>h. (Inr (\<not> x_fault X h (Stat p) \<and> h_fs h p \<noteq> None), h))"

definition create_dir_all :: "'d ext \<Rightarrow> string \<Rightarrow> panic \<Rightarrow> unit act" where
  "create_dir_all X p e = (\<lambda>h.
    if x_fault X h (CreateDir p) \<or> list_ex (\<lambda>q. is_file (h_fs h q)) (path_prefixes p)
    then (Inl e, h)
    else (Inr (), h\<lparr>h_fs := make_dirs (h_fs h) (path_prefixes p)\<rparr>))"

definition remove_file :: "'d ext \<Rightarrow> string \<Rightarrow> panic \<Rightarrow> unit act" where
  "remove_file X p e = (\<lambda>h.
    if x_fault X h (RemoveFile p) \<or> \<not> is_file (h_fs h p) then (Inl e, h)
    else (Inr (), h\<lparr>h_fs := (h_fs h)(p := None)\<rparr>))"

definition create_file :: "'d ext \<Rightarrow> string \<Rightarrow> panic \<Rightarrow> unit act" where
  "create_file X p e = (\<lambda>h.
    if x_fault X h (CreateFile p) \<or> h_fs h p = Some Dir then (Inl e, h)
    else (Inr (), h\<lparr>h_fs := (h_fs h)(p \<mapsto> File [])\<rparr>))"

definition open_file :: "'d ext \<Rightarrow> string \<Rightarrow> panic \<Rightarrow> node act" where
  "open_file X p e = (\<lambda>h.
    if x_fault X h (OpenFile p) then (Inl e, h)
    else (case h_fs h p of None \<Rightarrow> (Inl e, h) | Some n \<Rightarrow> (Inr n, h)))"

text \<open>\<open>host_write_all\<close> appends to the file that was created; a failing call has written a part.\<close>

fun file_append :: "node option \<Rightarrow> bytes \<Rightarrow> node" where
  "file_append (Some (File xs)) ys = File (xs @ ys)"
| "file_append (Some Dir) ys = Dir"
| "file_append None ys = File ys"

definition host_write_all :: "'d ext \<Rightarrow> string \<Rightarrow> bytes \<Rightarrow> panic \<Rightarrow> unit act" where
  "host_write_all X p bs e = (\<lambda>h.
    case x_short X h p of
      Some k \<Rightarrow> (Inl e, h\<lparr>h_fs := (h_fs h)(p \<mapsto> file_append (h_fs h p) (take k bs))\<rparr>)
    | None \<Rightarrow> (Inr (), h\<lparr>h_fs := (h_fs h)(p \<mapsto> file_append (h_fs h p) bs)\<rparr>))"

lemma path_exists_run [host_simps]:
  "path_exists X p h = (Inr (\<not> x_fault X h (Stat p) \<and> h_fs h p \<noteq> None), h)"
  by (simp add: path_exists_def)

lemma hsteps [host_simps]:
  "hthen (hprint l) n h = n (h\<lparr>h_out := h_out h @ [l]\<rparr>)"
  "hthen (hprints ls) n h = n (h\<lparr>h_out := h_out h @ ls\<rparr>)"
  "hthen (if b then hprints ls else hret ()) n h = n (h\<lparr>h_out := h_out h @ (if b then ls else [])\<rparr>)"
  "hthen (hret x) n h = n h"
  "hbind (hret x) f h = f x h"
  "hthen (hassert b e) n h = (if b then n h else (Inl e, h))"
  "hbind (path_exists X p) g h = g (\<not> x_fault X h (Stat p) \<and> h_fs h p \<noteq> None) h"
  by (simp_all add: hthen_def hbind_def host_simps)

lemma make_dirs_other: "p \<notin> set ps \<Longrightarrow> make_dirs f ps p = f p"
  by (induction ps arbitrary: f) auto

lemma make_dirs_in: "p \<in> set ps \<Longrightarrow> make_dirs f ps p = Some Dir"
  by (induction ps arbitrary: f) (auto, metis fun_upd_same make_dirs_other)

lemma make_dirs_file:
  "list_all (\<lambda>q. \<not> is_file (f q)) ps \<Longrightarrow> make_dirs f ps p = Some (File bs) \<longleftrightarrow> f p = Some (File bs)"
  by (cases "p \<in> set ps") (auto simp: make_dirs_in make_dirs_other list_all_iff)

lemma path_in_prefixes [simp]: "p \<in> set (path_prefixes p)"
  by (simp add: path_prefixes_def)

lemma path_join_rel: "b \<noteq> [] \<Longrightarrow> hd b \<noteq> CHR ''/'' \<Longrightarrow>
    path_join a b = a @ (if a = [] \<or> last a = CHR ''/'' then [] else ''/'') @ b"
  by (simp add: path_join_def)

text \<open>Decimal digits, as \<open>{}\<close> prints an integer.\<close>

fun decimal :: "nat \<Rightarrow> string" where
  "decimal n = (if n < 10 then [char_of (48 + n)] else decimal (n div 10) @ [char_of (48 + n mod 10)])"

declare decimal.simps [simp del]

section \<open>Programs\<close>

text \<open>\<open>Command::status\<close> and \<open>Command::output\<close>: the program runs to its end and may change files.\<close>

definition spawn :: "'d ext \<Rightarrow> command \<Rightarrow> reply act" where
  "spawn X c = (\<lambda>h. case x_exec X h c of (r, f) \<Rightarrow>
    (Inr r, h\<lparr>h_fs := f, h_trace := h_trace h @ [Ran c r]\<rparr>))"

text \<open>\<open>status().expect(msg)\<close> and the assertion on the status that follows it in the sources.\<close>

definition run_command :: "'d ext \<Rightarrow> command \<Rightarrow> string \<Rightarrow> string \<Rightarrow> unit act" where
  "run_command X c msg_spawn msg_status =
    hbind (spawn X c) (\<lambda>r.
      hthen (hassert (r \<noteq> SpawnFailed) (Expect msg_spawn))
        (hassert (success r) (PanicMsg msg_status)))"

lemma run_command_run:
  "run_command X c m1 m2 h =
    (case x_exec X h c of (r, f) \<Rightarrow>
      (if success r then Inr () else if r = SpawnFailed then Inl (Expect m1) else Inl (PanicMsg m2),
       h\<lparr>h_fs := f, h_trace := h_trace h @ [Ran c r]\<rparr>))"
  by (auto simp: run_command_def spawn_def hbind_def hthen_def host_simps split: prod.split)

section \<open>Events an operation can cause\<close>

text \<open>
  \<open>causes Q m\<close>: whatever the outside does, the operation only adds to the sequence of events, and
  only events that satisfy \<open>Q\<close>.
\<close>

definition causes :: "(event \<Rightarrow> bool) \<Rightarrow> 'a act \<Rightarrow> bool" where
  "causes Q m \<longleftrightarrow> (\<forall>h. \<exists>es. h_trace (snd (m h)) = h_trace h @ es \<and> list_all Q es)"

lemma causesD: "causes Q m \<Longrightarrow> m h = (r, h') \<Longrightarrow> \<exists>es. h_trace h' = h_trace h @ es \<and> list_all Q es"
  unfolding causes_def by (metis snd_conv)

lemma causes_none: "(\<And>h. h_trace (snd (m h)) = h_trace h) \<Longrightarrow> causes Q m"
  unfolding causes_def by (auto intro!: exI [of _ "[]"])

lemma causes_bind:
  assumes "causes Q m" "\<And>x. causes Q (f x)" shows "causes Q (hbind m f)"
  unfolding causes_def
proof
  fix h
  obtain r k where m: "m h = (r, k)" by fastforce
  obtain es where es: "h_trace k = h_trace h @ es" "list_all Q es"
    using causesD [OF assms(1) m] by blast
  show "\<exists>es. h_trace (snd (hbind m f h)) = h_trace h @ es \<and> list_all Q es"
  proof (cases r)
    case (Inl e)
    then show ?thesis using m es by (auto simp: hrun)
  next
    case (Inr x)
    obtain ds where "h_trace (snd (f x k)) = h_trace k @ ds" "list_all Q ds"
      using assms(2) unfolding causes_def by blast
    then show ?thesis using m es Inr by (intro exI [of _ "es @ ds"]) (simp add: hrun)
  qed
qed

lemma causes_then: "causes Q m \<Longrightarrow> causes Q n \<Longrightarrow> causes Q (hthen m n)"
  unfolding hthen_def by (rule causes_bind)

lemma causes_seq: "(\<And>m. m \<in> set ms \<Longrightarrow> causes Q m) \<Longrightarrow> causes Q (hseq ms)"
  by (induction ms) (auto intro: causes_then causes_none simp: host_simps)

lemma causes_basic:
  "causes Q (hret x)" "causes Q (hpanic e)" "causes Q (hassert b e)" "causes Q (hlift r)"
  "causes Q (hprint l)" "causes Q (hprints ls)"
  "causes Q (path_exists X p)" "causes Q (create_dir_all X p e)" "causes Q (remove_file X p e)"
  "causes Q (create_file X p e)" "causes Q (open_file X p e)" "causes Q (host_write_all X p bs e)"
  by (rule causes_none;
      simp add: host_simps create_dir_all_def remove_file_def create_file_def open_file_def host_write_all_def
        split: option.split)+

lemma causes_spawn: "(\<And>r. Q (Ran c r)) \<Longrightarrow> causes Q (spawn X c)"
  unfolding causes_def spawn_def by (auto split: prod.split)

lemma causes_run: "(\<And>r. Q (Ran c r)) \<Longrightarrow> causes Q (run_command X c a b)"
  unfolding run_command_def by (intro causes_bind causes_spawn causes_then causes_basic)

lemmas causes_intros = causes_basic causes_bind causes_then causes_spawn causes_run

section \<open>Operations that return\<close>

text \<open>\<open>completes P m\<close>: from every state that satisfies \<open>P\<close> the operation returns, without panic,
  in a state that satisfies it again.\<close>

definition completes :: "(host \<Rightarrow> bool) \<Rightarrow> 'a act \<Rightarrow> bool" where
  "completes P m \<longleftrightarrow> (\<forall>h. P h \<longrightarrow> (\<exists>x h'. m h = (Inr x, h') \<and> P h'))"

lemma completesD: "completes P m \<Longrightarrow> P h \<Longrightarrow> \<exists>x h'. m h = (Inr x, h') \<and> P h'"
  by (simp add: completes_def)

lemma completes_then: "completes P m \<Longrightarrow> completes P n \<Longrightarrow> completes P (hthen m n)"
  unfolding completes_def by (metis hthen_ok)

lemma completes_seq: "(\<And>m. m \<in> set ms \<Longrightarrow> completes P m) \<Longrightarrow> completes P (hseq ms)"
proof (induction ms)
  case Nil
  then show ?case by (simp add: completes_def host_simps)
next
  case (Cons m ms)
  then show ?case by (auto intro: completes_then)
qed

lemma completes_print: "(\<And>h l. P (h\<lparr>h_out := l\<rparr>) = P h) \<Longrightarrow> completes P (hprints ls)"
  by (simp add: completes_def host_simps)

section \<open>Stages of a build\<close>

text \<open>
  A stage runs a fixed sequence of programs: in order, each one only after all before it
  succeeded, and it returns only if all succeeded. Its programs are known before it starts.
\<close>

definition in_order :: "unit act \<Rightarrow> command list \<Rightarrow> bool" where
  "in_order m cs \<longleftrightarrow> (\<forall>h r h'. m h = (r, h') \<longrightarrow>
    (\<exists>rs. length rs \<le> length cs \<and> h_trace h' = h_trace h @ map2 Ran (take (length rs) cs) rs \<and>
      list_all success (butlast rs) \<and>
      (r = Inr () \<longrightarrow> length rs = length cs \<and> list_all success rs)))"

lemma in_orderD:
  "in_order m cs \<Longrightarrow> m h = (r, h') \<Longrightarrow>
    \<exists>rs. length rs \<le> length cs \<and> h_trace h' = h_trace h @ map2 Ran (take (length rs) cs) rs \<and>
      list_all success (butlast rs) \<and> (r = Inr () \<longrightarrow> length rs = length cs \<and> list_all success rs)"
  unfolding in_order_def by blast

lemma in_order_command: "in_order (run_command X c a b) [c]"
proof -
  have "\<exists>rs. length rs \<le> length [c] \<and> h_trace h' = h_trace h @ map2 Ran (take (length rs) [c]) rs \<and>
      list_all success (butlast rs) \<and> (r = Inr () \<longrightarrow> length rs = length [c] \<and> list_all success rs)"
    if "run_command X c a b h = (r, h')" for h r h'
    using that
    by (cases "x_exec X h c")
      (auto intro!: exI [of _ "[fst (x_exec X h c)]"] simp: run_command_run split: if_splits)
  then show ?thesis unfolding in_order_def by blast
qed

lemma in_order_quiet:
  assumes "\<And>h. h_trace (snd (m h)) = h_trace h" shows "in_order m []"
  unfolding in_order_def
proof (intro allI impI)
  fix h r h' assume "m h = (r, h')"
  then show "\<exists>rs. length rs \<le> length ([] :: command list) \<and>
      h_trace h' = h_trace h @ map2 Ran (take (length rs) []) rs \<and> list_all success (butlast rs) \<and>
      (r = Inr () \<longrightarrow> length rs = length ([] :: command list) \<and> list_all success rs)"
    using assms [of h] by (intro exI [of _ "[]"]) simp
qed

lemma in_order_then:
  assumes m: "in_order m cs" and n: "in_order n ds" shows "in_order (hthen m n) (cs @ ds)"
  unfolding in_order_def
proof (intro allI impI)
  fix h r h' assume run: "hthen m n h = (r, h')"
  obtain q k where q: "m h = (q, k)" by fastforce
  obtain rs where rs: "length rs \<le> length cs" "h_trace k = h_trace h @ map2 Ran (take (length rs) cs) rs"
      "list_all success (butlast rs)" "q = Inr () \<longrightarrow> length rs = length cs \<and> list_all success rs"
    using in_orderD [OF m q] by blast
  show "\<exists>rs. length rs \<le> length (cs @ ds) \<and>
      h_trace h' = h_trace h @ map2 Ran (take (length rs) (cs @ ds)) rs \<and>
      list_all success (butlast rs) \<and> (r = Inr () \<longrightarrow> length rs = length (cs @ ds) \<and> list_all success rs)"
  proof (cases q)
    case (Inl e)
    then have "r = Inl e" "h' = k" using run q by (auto simp: hrun)
    then show ?thesis using rs by (intro exI [of _ rs]) simp
  next
    case (Inr u)
    then have full: "length rs = length cs" "list_all success rs" and run2: "n k = (r, h')"
      using rs run q by (auto simp: hrun)
    obtain ts where ts: "length ts \<le> length ds" "h_trace h' = h_trace k @ map2 Ran (take (length ts) ds) ts"
        "list_all success (butlast ts)" "r = Inr () \<longrightarrow> length ts = length ds \<and> list_all success ts"
      using in_orderD [OF n run2] by blast
    have "list_all success (butlast (rs @ ts))"
      using full rs(3) ts(3) by (simp add: butlast_append)
    then show ?thesis using rs ts full by (intro exI [of _ "rs @ ts"]) auto
  qed
qed

lemma in_order_dir: "in_order (create_dir_all X p e) []"
  by (rule in_order_quiet) (simp add: create_dir_all_def)

lemma in_order_step: "in_order n ds \<Longrightarrow> in_order (hthen (run_command X c a b) n) (c # ds)"
  using in_order_then [OF in_order_command] by fastforce

lemma in_order_dir_then: "in_order n ds \<Longrightarrow> in_order (hthen (create_dir_all X p e) n) ds"
  using in_order_then [OF in_order_dir] by fastforce

lemmas in_order_intros = in_order_step in_order_dir_then in_order_command

locale stage =
  fixes run :: "unit act" and cmds :: "command list"
  assumes ordered: "in_order run cmds"
begin

lemma runs_prefix:
  assumes "run h = (r, h')"
  shows "\<exists>rs. length rs \<le> length cmds \<and> h_trace h' = h_trace h @ map2 Ran (take (length rs) cmds) rs \<and>
    list_all success (butlast rs) \<and> (r = Inr () \<longrightarrow> length rs = length cmds \<and> list_all success rs)"
  by (rule in_orderD [OF ordered assms])

lemma returned_all:
  assumes "run h = (Inr (), h')"
  shows "\<exists>rs. length rs = length cmds \<and> list_all success rs \<and> h_trace h' = h_trace h @ map2 Ran cmds rs"
  using runs_prefix [OF assms] by auto

lemma failure_stops:
  assumes r: "run h = (r, h')" and bad: "Ran c q \<in> set (drop (length (h_trace h)) (h_trace h'))" "\<not> success q"
  shows "\<exists>e. r = Inl e" and "last (h_trace h') = Ran c q"
proof -
  obtain rs where rs: "length rs \<le> length cmds" "h_trace h' = h_trace h @ map2 Ran (take (length rs) cmds) rs"
      "list_all success (butlast rs)" "r = Inr () \<longrightarrow> length rs = length cmds \<and> list_all success rs"
    using runs_prefix [OF r] by blast
  have len: "length (take (length rs) cmds) = length rs" using rs(1) by simp
  have "Ran c q \<in> set (map2 Ran (take (length rs) cmds) rs)" using bad(1) rs(2) by simp
  then obtain i where i: "i < length rs" "rs ! i = q" "cmds ! i = c"
    using len by (auto simp: set_zip)
  have nb: "\<not> list_all success rs" using i bad(2) by (auto simp: list_all_length)
  then show "\<exists>e. r = Inl e" using rs(4) by (cases r) auto
  have "i = length rs - 1"
  proof (rule ccontr)
    assume "i \<noteq> length rs - 1"
    then have "i < length (butlast rs)" using i(1) by simp
    then have "success (rs ! i)" using rs(3) by (metis list_all_length nth_butlast)
    then show False using i(2) bad(2) by simp
  qed
  then have "last (map2 Ran (take (length rs) cmds) rs) = Ran c q"
    using i len by (subst last_conv_nth) auto
  moreover have "map2 Ran (take (length rs) cmds) rs \<noteq> []" using i len by auto
  ultimately show "last (h_trace h') = Ran c q" using rs(2) by simp
qed

end

end
