(* ===== verification/Cross_Build.thy ===== *)
theory Cross_Build
  imports Host "HOL-Library.Sublist"
begin

text \<open>
  The build script of the cross compiler, \<open>src/user/cross/build.rs\<close>: it fetches the sources of
  GCC, binutils and mlibc, checks their SHA-256 digests, unpacks and patches them, and builds and
  installs the toolchain for the target \<open>x86_64-bayos\<close>.
\<close>

section \<open>The sources\<close>

record source =
  s_name :: string
  s_url :: string
  s_sha256 :: string
  s_dir_name :: string
  s_format :: archive_format

definition SOURCES :: "source list" where
  "SOURCES = [
    \<lparr> s_name = ''gcc'',
      s_url = ''https://ftp.fu-berlin.de/unix/languages/gcc/releases/gcc-15.2.0/gcc-15.2.0.tar.xz'',
      s_sha256 = ''438fd996826b0c82485a29da03a72d71d6e3541a83ec702df4271f6fe025d24e'',
      s_dir_name = ''gcc-15.2.0'', s_format = TarXz \<rparr>,
    \<lparr> s_name = ''binutils'',
      s_url = ''https://ftp.fu-berlin.de/unix/gnu/binutils/binutils-2.46.0.tar.xz'',
      s_sha256 = ''d75a94f4d73e7a4086f7513e67e439e8fcdcbb726ffe63f4661744e6256b2cf2'',
      s_dir_name = ''binutils-2.46.0'', s_format = TarXz \<rparr>,
    \<lparr> s_name = ''mlibc'',
      s_url = ''https://github.com/managarm/mlibc/archive/refs/tags/v6.3.1.tar.gz'',
      s_sha256 = ''9236025b32636b2e79cdd00b5914b5e89c3423da257c2db24253e0cac1679444'',
      s_dir_name = ''mlibc-6.3.1'', s_format = TarGz \<rparr>]"

section \<open>Download\<close>

definition http_get :: "'d ext \<Rightarrow> string \<Rightarrow> http_reply act" where
  "http_get X url = (\<lambda>h. (Inr (x_http X h url), h\<lparr>h_trace := h_trace h @ [Fetched url]\<rparr>))"

text \<open>The loop over the body: a read of length 0 ends it, as does the end of the body.\<close>

fun download_loop :: "'d ext \<Rightarrow> string \<Rightarrow> chunk list \<Rightarrow> u64 \<Rightarrow> u64 act" where
  "download_loop X dest [] tot = hret tot"
| "download_loop X dest (ReadFailed # cs) tot = hpanic (Expect ''read error during download'')"
| "download_loop X dest (Chunk buf # cs) tot =
    (if buf = [] then hret tot
     else hthen (host_write_all X dest buf (Expect ''write error during download''))
       (hbind (hlift (add_chk tot (of_nat (length buf)))) (\<lambda>tot.
        hthen (if tot mod 52428800 < 65536 then hprint (Megabytes tot) else hret ())
          (download_loop X dest cs tot))))"

definition download :: "'d ext \<Rightarrow> string \<Rightarrow> string \<Rightarrow> unit act" where
  "download X url dest =
    hbind (http_get X url) (\<lambda>resp.
      case resp of
        HttpError \<Rightarrow> hpanic (PanicMsg (''HTTP GET '' @ url @ '' failed''))
      | HttpReply status body \<Rightarrow>
          hthen (hassert (status = 200)
              (PanicMsg (''unexpected HTTP status '' @ decimal status @ '' for '' @ url)))
            (hthen (create_file X dest (PanicMsg (''cannot create '' @ dest)))
              (hbind (download_loop X dest body 0) (\<lambda>tot. hprint (DownloadComplete tot)))))"

section \<open>Digests\<close>

text \<open>
  One call of \<open>read\<close> with the buffer of 65536 bytes: at the end of the file it returns 0, before it
  at least one byte, never more than the buffer or the rest of the file.
\<close>

definition read_len :: "nat \<Rightarrow> bytes \<Rightarrow> nat" where
  "read_len n bs = (if bs = [] then 0 else max 1 (min n (min 65536 (length bs))))"

function hash_loop :: "'d ext \<Rightarrow> string \<Rightarrow> nat \<Rightarrow> bytes \<Rightarrow> 'd \<Rightarrow> host \<Rightarrow> 'd res" where
  "hash_loop X path pos bs hasher h =
    (case x_read X h path pos of
       ReadErr \<Rightarrow> Inl (Expect ''read error'')
     | ReadLen k \<Rightarrow>
         (let n = read_len k bs in
          if n = 0 then Inr hasher
          else hash_loop X path (pos + n) (drop n bs) (x_update X hasher (take n bs)) h))"
  by pat_completeness auto

termination
  by (relation "measure (\<lambda>(X, path, pos, bs, d, h). length bs)")
    (auto simp: read_len_def split: if_splits)

declare hash_loop.simps [simp del]

definition sha256_of :: "'d ext \<Rightarrow> string \<Rightarrow> string act" where
  "sha256_of X path =
    hbind (open_file X path (PanicMsg (''cannot open '' @ path))) (\<lambda>f.
      case f of
        Dir \<Rightarrow> hpanic (Expect ''read error'')
      | File bs \<Rightarrow>
          hbind (\<lambda>h. (hash_loop X path 0 bs (x_new X) h, h)) (\<lambda>hasher.
            hret (x_hex X (x_finalize X hasher))))"

definition placeholder :: "string \<Rightarrow> bool" where
  "placeholder expected = (take 12 expected = ''REPLACE_WITH'')"

definition verify_sha256 :: "'d ext \<Rightarrow> string \<Rightarrow> string \<Rightarrow> bool act" where
  "verify_sha256 X path expected =
    (if placeholder expected then hret True
     else hbind (sha256_of X path) (\<lambda>got. hret (got = expected)))"

definition assert_sha256 :: "'d ext \<Rightarrow> string \<Rightarrow> string \<Rightarrow> string \<Rightarrow> unit act" where
  "assert_sha256 X path expected label =
    (if placeholder expected then
       hbind (sha256_of X path) (\<lambda>got.
         hprint (Line (''cargo:warning=['' @ label @ ''] SHA-256 (paste into build.rs): '' @ got)))
     else hbind (sha256_of X path) (\<lambda>got.
       hassert (got = expected)
         (PanicMsg (''['' @ label @ ''] SHA-256 mismatch!'' @ [CHR 0x0A] @ ''  expected: '' @ expected
           @ [CHR 0x0A] @ ''  got:      '' @ got))))"

section \<open>Unpacking and patching\<close>

definition unpack_tar :: "'d ext \<Rightarrow> archive_format \<Rightarrow> bytes \<Rightarrow> string \<Rightarrow> unit act" where
  "unpack_tar X format bs dest_dir = (\<lambda>h.
    case x_unpack X h format bs dest_dir of (ok, f) \<Rightarrow>
      (if ok then Inr () else Inl (PanicMsg (''extraction into '' @ dest_dir @ '' failed'')),
       h\<lparr>h_fs := f, h_trace := h_trace h @ [Unpacked format bs dest_dir]\<rparr>))"

definition extract_archive :: "'d ext \<Rightarrow> string \<Rightarrow> string \<Rightarrow> archive_format \<Rightarrow> unit act" where
  "extract_archive X tarball dest_dir format =
    hbind (open_file X tarball (PanicMsg (''cannot open tarball '' @ tarball))) (\<lambda>file.
      case file of
        Dir \<Rightarrow> hpanic (PanicMsg (''extraction into '' @ dest_dir @ '' failed''))
      | File bs \<Rightarrow> unpack_tar X format bs dest_dir)"

text \<open>\<open>str::lines\<close> on the bytes: split behind every line feed, which is removed with a carriage
  return before it; a text that ends in a line feed has no empty last line.\<close>

definition chomp :: "bytes \<Rightarrow> bytes" where
  "chomp l = (if l \<noteq> [] \<and> last l = 0x0D then butlast l else l)"

fun text_lines :: "bytes \<Rightarrow> bytes \<Rightarrow> bytes list" where
  "text_lines acc [] = (if acc = [] then [] else [acc])"
| "text_lines acc (b # bs) = (if b = 0x0A then chomp acc # text_lines [] bs else text_lines (acc @ [b]) bs)"

definition patch_command :: "string \<Rightarrow> string \<Rightarrow> command" where
  "patch_command patch_file src_dir =
    \<lparr> c_prog = ''patch'', c_args = [''-p1'', ''--forward'', ''--batch'', ''-i'', patch_file],
      c_dir = Some src_dir, c_env = [] \<rparr>"

definition apply_patch :: "'d ext \<Rightarrow> string \<Rightarrow> string \<Rightarrow> unit act" where
  "apply_patch X patch_file src_dir =
    hthen (hprint (ApplyingPatch patch_file src_dir))
      (hbind (spawn X (patch_command patch_file src_dir)) (\<lambda>output.
        case output of
          SpawnFailed \<Rightarrow> hpanic (Expect ''failed to run `patch`'')
        | Ended code stdout stderr \<Rightarrow>
            hthen (if stdout \<noteq> [] then hprints (map PatchOutput (text_lines [] stdout)) else hret ())
              (hthen (if stderr \<noteq> [] then hprints (map PatchOutput (text_lines [] stderr)) else hret ())
                (hthen (hassert (code = Some 0) (PanicMsg (''patch failed for '' @ patch_file)))
                  (hprint (PatchApplied patch_file))))))"

section \<open>Preparing the sources\<close>

definition cache_path :: "string \<Rightarrow> string" where
  "cache_path manifest_dir = path_join manifest_dir ''cache''"

definition tarball_path :: "string \<Rightarrow> source \<Rightarrow> string" where
  "tarball_path cache_dir src =
    path_join cache_dir (s_name src @ (case s_format src of TarXz \<Rightarrow> ''.tar.xz'' | TarGz \<Rightarrow> ''.tar.gz''))"

definition warning :: "source \<Rightarrow> string \<Rightarrow> line" where
  "warning src msg = Line (''cargo:warning=['' @ s_name src @ ''] '' @ msg)"

definition fetch_source :: "'d ext \<Rightarrow> string \<Rightarrow> source \<Rightarrow> unit act" where
  "fetch_source X cache_dir src =
    (let tarball = tarball_path cache_dir src in
     hbind (path_exists X tarball) (\<lambda>cached.
       if cached then
         hthen (hprint (warning src ''tarball cached, verifying...''))
           (hbind (verify_sha256 X tarball (s_sha256 src)) (\<lambda>ok.
             if ok then hprint (warning src ''checksum OK'')
             else hthen (hprint (warning src ''checksum MISMATCH - redownloading''))
               (hthen (remove_file X tarball UnwrapFailed)
                 (hthen (download X (s_url src) tarball)
                   (assert_sha256 X tarball (s_sha256 src) (s_name src))))))
       else
         hthen (hprint (warning src (''downloading from '' @ s_url src)))
           (hthen (download X (s_url src) tarball)
             (assert_sha256 X tarball (s_sha256 src) (s_name src)))))"

definition unpack_source :: "'d ext \<Rightarrow> string \<Rightarrow> string \<Rightarrow> source \<Rightarrow> unit act" where
  "unpack_source X manifest_dir cache_dir src =
    (let tarball = tarball_path cache_dir src;
         src_dir = path_join cache_dir (s_dir_name src);
         patch_file = path_join manifest_dir (s_name src @ ''.patch'') in
     hbind (path_exists X src_dir) (\<lambda>extracted.
       if extracted then hprint (warning src ''source dir already extracted'')
       else
         hthen (hprint (Extracting (s_name src)))
           (hthen (extract_archive X tarball cache_dir (s_format src))
             (hthen (hprint (ExtractedTo (s_name src) src_dir))
               (hbind (path_exists X patch_file) (\<lambda>patched.
                 if patched then apply_patch X patch_file src_dir
                 else hprint (warning src ''patch file not found'')))))))"

definition prepare_source :: "'d ext \<Rightarrow> string \<Rightarrow> string \<Rightarrow> source \<Rightarrow> unit act" where
  "prepare_source X manifest_dir cache_dir src =
    hthen (fetch_source X cache_dir src) (unpack_source X manifest_dir cache_dir src)"

section \<open>Building the toolchain\<close>

definition sysroot_path :: "string \<Rightarrow> string" where
  "sysroot_path manifest_dir = path_join manifest_dir ''sysroot''"

definition tools_path :: "string \<Rightarrow> string" where
  "tools_path manifest_dir = path_join manifest_dir ''tools''"

definition mlibc_dir :: "string \<Rightarrow> string" where
  "mlibc_dir md = path_join (cache_path md) ''mlibc-6.3.1''"

definition binutils_dir :: "string \<Rightarrow> string" where
  "binutils_dir md = path_join (path_join (cache_path md) ''binutils-2.46.0'') ''build''"

definition gcc_dir :: "string \<Rightarrow> string" where
  "gcc_dir md = path_join (path_join (cache_path md) ''gcc-15.2.0'') ''build''"

text \<open>The search path with the new tools first, and the option for parallel builds.\<close>

definition tool_path :: "'d ext \<Rightarrow> string \<Rightarrow> string" where
  "tool_path X md =
    tools_path md @ ''/usr/bin:'' @ (case x_var X ''PATH'' of None \<Rightarrow> [] | Some p \<Rightarrow> p)"

definition jobs :: "'d ext \<Rightarrow> string" where
  "jobs X = ''-j'' @ decimal (case x_nproc X of None \<Rightarrow> 1 | Some n \<Rightarrow> n)"

definition meson_headers :: "string \<Rightarrow> command" where
  "meson_headers md =
    \<lparr> c_prog = ''meson'',
      c_args = [''setup'', ''--cross-file=mlibc-bayos.txt'', ''--prefix=/usr'', ''-Dheaders_only=true'',
                ''headers-build''],
      c_dir = Some (mlibc_dir md), c_env = [] \<rparr>"

definition ninja_headers :: "string \<Rightarrow> command" where
  "ninja_headers md =
    \<lparr> c_prog = ''ninja'', c_args = [''-C'', ''headers-build'', ''install''],
      c_dir = Some (mlibc_dir md), c_env = [(''DESTDIR'', sysroot_path md)] \<rparr>"

definition configure_binutils :: "string \<Rightarrow> command" where
  "configure_binutils md =
    \<lparr> c_prog = ''../configure'',
      c_args = [''--target=x86_64-bayos'', ''--prefix=/usr'', ''--with-sysroot='' @ sysroot_path md,
                ''--disable-werror'', ''--enable-default-execstack=no''],
      c_dir = Some (binutils_dir md), c_env = [] \<rparr>"

definition make_binutils :: "'d ext \<Rightarrow> string \<Rightarrow> command" where
  "make_binutils X md =
    \<lparr> c_prog = ''make'', c_args = [jobs X], c_dir = Some (binutils_dir md), c_env = [] \<rparr>"

definition install_binutils :: "string \<Rightarrow> command" where
  "install_binutils md =
    \<lparr> c_prog = ''make'', c_args = [''install''], c_dir = Some (binutils_dir md),
      c_env = [(''DESTDIR'', tools_path md)] \<rparr>"

definition configure_gcc :: "'d ext \<Rightarrow> string \<Rightarrow> command" where
  "configure_gcc X md =
    \<lparr> c_prog = ''../configure'',
      c_args = [''--target=x86_64-bayos'', ''--prefix=/usr'', ''--with-sysroot='' @ sysroot_path md,
                ''--enable-languages=c,c++'', ''--enable-threads=posix'', ''--disable-multilib'',
                ''--enable-shared'', ''--enable-host-shared''],
      c_dir = Some (gcc_dir md), c_env = [(''PATH'', tool_path X md)] \<rparr>"

definition make_gcc :: "'d ext \<Rightarrow> string \<Rightarrow> command" where
  "make_gcc X md =
    \<lparr> c_prog = ''make'', c_args = [jobs X, ''all-gcc'', ''all-target-libgcc''],
      c_dir = Some (gcc_dir md), c_env = [(''PATH'', tool_path X md)] \<rparr>"

definition install_gcc :: "'d ext \<Rightarrow> string \<Rightarrow> command" where
  "install_gcc X md =
    \<lparr> c_prog = ''make'', c_args = [''install-gcc'', ''install-target-libgcc''],
      c_dir = Some (gcc_dir md), c_env = [(''DESTDIR'', tools_path md), (''PATH'', tool_path X md)] \<rparr>"

definition meson_mlibc :: "'d ext \<Rightarrow> string \<Rightarrow> command" where
  "meson_mlibc X md =
    \<lparr> c_prog = ''meson'',
      c_args = [''setup'', ''--cross-file=mlibc-bayos.txt'', ''--prefix=/usr'', ''-Ddefault_library=static'',
                ''-Dno_headers=true'', ''build''],
      c_dir = Some (mlibc_dir md), c_env = [(''PATH'', tool_path X md)] \<rparr>"

definition ninja_mlibc :: "'d ext \<Rightarrow> string \<Rightarrow> command" where
  "ninja_mlibc X md =
    \<lparr> c_prog = ''ninja'', c_args = [''-C'', ''build'', ''install''],
      c_dir = Some (mlibc_dir md), c_env = [(''DESTDIR'', sysroot_path md), (''PATH'', tool_path X md)] \<rparr>"

definition install_headers :: "'d ext \<Rightarrow> string \<Rightarrow> unit act" where
  "install_headers X md =
    hthen (run_command X (meson_headers md) ''meson setup failed'' ''meson setup failed'')
      (run_command X (ninja_headers md) ''ninja install failed'' ''ninja install failed'')"

definition build_binutils :: "'d ext \<Rightarrow> string \<Rightarrow> unit act" where
  "build_binutils X md =
    hthen (create_dir_all X (binutils_dir md) (Expect ''failed to create binutils build dir''))
      (hthen (run_command X (configure_binutils md) ''configuring bintutils failed'' ''configuring binutils failed'')
        (hthen (run_command X (make_binutils X md) ''make failed'' ''make failed'')
          (run_command X (install_binutils md) ''make install failed'' ''make install failed'')))"

definition build_gcc :: "'d ext \<Rightarrow> string \<Rightarrow> unit act" where
  "build_gcc X md =
    hthen (create_dir_all X (gcc_dir md) (Expect ''failed to create gcc build dir''))
      (hthen (run_command X (configure_gcc X md) ''gcc configure failed'' ''gcc configure failed'')
        (hthen (run_command X (make_gcc X md) ''make gcc failed'' ''make gcc failed'')
          (run_command X (install_gcc X md) ''make install gcc failed'' ''make install gcc failed'')))"

definition build_mlibc :: "'d ext \<Rightarrow> string \<Rightarrow> unit act" where
  "build_mlibc X md =
    hthen (run_command X (meson_mlibc X md) ''meson setup mlibc failed'' ''meson setup mlibc failed'')
      (run_command X (ninja_mlibc X md) ''ninja install mlibc failed'' ''ninja install mlibc failed'')"

definition build_toolchain :: "'d ext \<Rightarrow> string \<Rightarrow> unit act" where
  "build_toolchain X md =
    hthen (create_dir_all X (sysroot_path md) (Expect ''failed to create sysroot dir''))
      (hthen (create_dir_all X (tools_path md) (Expect ''failed to create tools dir''))
        (hthen (install_headers X md)
          (hthen (build_binutils X md)
            (hthen (build_gcc X md) (build_mlibc X md)))))"

definition prepare_sources :: "'d ext \<Rightarrow> string \<Rightarrow> unit act" where
  "prepare_sources X md = hseq (map (prepare_source X md (cache_path md)) SOURCES)"

definition cross_main :: "'d ext \<Rightarrow> unit act" where
  "cross_main X =
    hthen (hprints [Line ''cargo:rerun-if-changed=build.rs'', Line ''cargo:rerun-if-changed=binutils.patch'',
                    Line ''cargo:rerun-if-changed=gcc.patch'', Line ''cargo:rerun-if-changed=mlibc.patch''])
      (case x_var X ''CARGO_MANIFEST_DIR'' of
         None \<Rightarrow> hpanic UnwrapFailed
       | Some md \<Rightarrow>
           hthen (create_dir_all X (cache_path md) (Expect ''failed to create cache dir''))
             (hthen (prepare_sources X md) (build_toolchain X md)))"

section \<open>Digests of files\<close>

text \<open>
  The documented contract of the hashing crate: finalizing yields a function \<open>D\<close> (SHA-256) of the
  concatenation of everything passed to \<open>update\<close>, however it was cut.
\<close>

definition computes :: "'d ext \<Rightarrow> (bytes \<Rightarrow> bytes) \<Rightarrow> bool" where
  "computes X D \<longleftrightarrow> (\<forall>cs. x_finalize X (foldl (x_update X) (x_new X) cs) = D (concat cs))"

lemma read_len_0 [simp]: "read_len k bs = 0 \<longleftrightarrow> bs = []"
  by (auto simp: read_len_def)

lemma hash_loop_chunks:
  "hash_loop X p pos bs d h = Inr d' \<Longrightarrow> \<exists>cs. concat cs = bs \<and> d' = foldl (x_update X) d cs"
proof (induction X p pos bs d h rule: hash_loop.induct)
  case (1 X p pos bs d h)
  obtain k where k: "x_read X h p pos = ReadLen k"
    using 1(2) by (subst (asm) hash_loop.simps) (auto split: read_reply.splits)
  show ?case
  proof (cases "bs = []")
    case True
    then have "d' = d" using 1(2) k by (subst (asm) hash_loop.simps) simp
    then show ?thesis using True by (intro exI [of _ "[]"]) simp
  next
    case False
    define n where "n = read_len k bs"
    have n: "n \<noteq> 0" using False by (simp add: n_def)
    have "hash_loop X p (pos + n) (drop n bs) (x_update X d (take n bs)) h = Inr d'"
      using 1(2) k n by (subst (asm) hash_loop.simps) (simp add: n_def Let_def)
    then obtain cs where "concat cs = drop n bs" "d' = foldl (x_update X) (x_update X d (take n bs)) cs"
      using 1(1) [OF k n_def n] by blast
    then show ?thesis by (intro exI [of _ "take n bs # cs"]) simp
  qed
qed

lemma hash_loop_returns:
  "(\<And>i. x_read X h p i \<noteq> ReadErr) \<Longrightarrow> \<exists>d'. hash_loop X p pos bs d h = Inr d'"
proof (induction X p pos bs d h rule: hash_loop.induct)
  case (1 X p pos bs d h)
  obtain k where k: "x_read X h p pos = ReadLen k"
    using 1(2) [of pos] by (cases "x_read X h p pos") auto
  show ?case
    using 1(1) [OF k refl _ 1(2)] k by (cases "bs = []"; subst hash_loop.simps) (simp_all add: Let_def)
qed

lemma sha256_of_result:
  assumes "computes X D" "sha256_of X p h = (r, h')"
  shows "h' = h" and "r = Inr s \<Longrightarrow> \<exists>bs. h_fs h p = Some (File bs) \<and> s = x_hex X (D bs)"
proof -
  show "h' = h" using assms(2)
    by (auto simp: sha256_of_def hbind_eq open_file_def host_simps split: if_splits option.splits node.splits)
  assume "r = Inr s"
  then obtain bs d where bs: "h_fs h p = Some (File bs)" "hash_loop X p 0 bs (x_new X) h = Inr d"
      "s = x_hex X (x_finalize X d)"
    using assms(2)
    by (auto simp: sha256_of_def hbind_eq open_file_def host_simps split: if_splits option.splits node.splits)
  then show "\<exists>bs. h_fs h p = Some (File bs) \<and> s = x_hex X (D bs)"
    using hash_loop_chunks [OF bs(2)] assms(1) unfolding computes_def by metis
qed

lemma sha256_of_returns:
  assumes "computes X D" "h_fs h p = Some (File bs)" "\<not> x_fault X h (OpenFile p)"
    "\<And>i. x_read X h p i \<noteq> ReadErr"
  shows "sha256_of X p h = (Inr (x_hex X (D bs)), h)"
proof -
  obtain d where d: "hash_loop X p 0 bs (x_new X) h = Inr d"
    using hash_loop_returns [OF assms(4)] by blast
  have "x_finalize X d = D bs"
    using hash_loop_chunks [OF d] assms(1) unfolding computes_def by metis
  then show ?thesis using d assms(2,3) by (simp add: sha256_of_def hbind_def open_file_def host_simps)
qed

section \<open>Downloads\<close>

text \<open>The bytes of a body up to its end or the first failing read.\<close>

fun body_bytes :: "chunk list \<Rightarrow> bytes" where
  "body_bytes [] = []"
| "body_bytes (ReadFailed # cs) = []"
| "body_bytes (Chunk b # cs) = (if b = [] then [] else b @ body_bytes cs)"

fun body_ok :: "chunk list \<Rightarrow> bool" where
  "body_ok [] = True"
| "body_ok (ReadFailed # cs) = False"
| "body_ok (Chunk b # cs) = (b = [] \<or> body_ok cs)"

definition only_file :: "string \<Rightarrow> host \<Rightarrow> host \<Rightarrow> bool" where
  "only_file p h h' \<longleftrightarrow> (\<forall>q. q \<noteq> p \<longrightarrow> h_fs h' q = h_fs h q)"

lemma only_file_trans: "only_file p h k \<Longrightarrow> only_file p k l \<Longrightarrow> only_file p h l"
  by (simp add: only_file_def)

lemma only_file_refl [simp]: "only_file p h h"
  by (simp add: only_file_def)

lemma download_loop_frame:
  "download_loop X p cs t h = (r, h') \<Longrightarrow> h_trace h' = h_trace h \<and> only_file p h h'"
proof (induction X p cs t arbitrary: h rule: download_loop.induct)
  case (3 X p buf cs t)
  show ?case
  proof (cases "buf = []")
    case True
    then show ?thesis using 3(2) by (simp add: host_simps)
  next
    case False
    then show ?thesis using 3(2)
      by (auto simp: hthen_eq hbind_eq host_simps host_write_all_def only_file_def
          split: option.splits if_splits dest!: 3(1) [OF False])
  qed
qed (auto simp: host_simps)

lemma download_loop_written:
  "download_loop X p cs t h = (Inr t', h') \<Longrightarrow> h_fs h p = Some (File old) \<Longrightarrow>
    body_ok cs \<and> h_fs h' p = Some (File (old @ body_bytes cs))"
proof (induction X p cs t arbitrary: h old rule: download_loop.induct)
  case (3 X p buf cs t)
  show ?case
  proof (cases "buf = []")
    case True
    then show ?thesis using 3(2,3) by (simp add: host_simps)
  next
    case False
    define k where "k = h\<lparr>h_fs := (h_fs h)(p \<mapsto> File (old @ buf))\<rparr>"
    have w: "host_write_all X p buf e h = (Inr (), k)" and a: "\<exists>s. add_chk t (of_nat (length buf)) = Inr s" for e
      using 3(2,3) False
      by (auto simp: hthen_eq hbind_eq host_simps host_write_all_def k_def split: option.splits)
    then obtain s where s: "add_chk t (of_nat (length buf)) = Inr s" by blast
    obtain l where l: "(if s mod 52428800 < 65536 then hprint (Megabytes s) else hret ()) k = (Inr (), l)"
        "h_fs l = h_fs k"
      by (cases "s mod 52428800 < 65536") (auto simp: host_simps)
    have rec: "download_loop X p cs s l = (Inr t', h')"
      using 3(2) False by (simp add: hrun w [of "Expect ''write error during download''"] s host_simps l(1))
    have f: "h_fs l p = Some (File (old @ buf))" using l(2) by (simp add: k_def)
    have "body_ok cs \<and> h_fs h' p = Some (File ((old @ buf) @ body_bytes cs))"
      by (rule 3(1) [OF False rec f])
    then show ?thesis using False by simp
  qed
qed (auto simp: host_simps)

lemma download_loop_returns:
  "(\<And>h. x_short X h p = None) \<Longrightarrow> body_ok cs \<Longrightarrow> unat t + length (body_bytes cs) < 2 ^ 64 \<Longrightarrow>
    \<exists>t' h'. download_loop X p cs t h = (Inr t', h')"
proof (induction X p cs t arbitrary: h rule: download_loop.induct)
  case (3 X p buf cs t)
  show ?case
  proof (cases "buf = []")
    case True
    then show ?thesis by (simp add: host_simps)
  next
    case False
    define s where "s = t + of_nat (length buf)"
    have lt: "length buf < 2 ^ 64" using 3(4) False by simp
    have len: "unat (of_nat (length buf) :: u64) = length buf"
      using lt by (simp add: unsigned_of_nat take_bit_nat_eq_self)
    have s: "add_chk t (of_nat (length buf)) = Inr s" and us: "unat s = unat t + length buf"
      using 3(4) False len unfolding s_def by (auto simp: add_chk_def unat_add_noovf)
    obtain k where w: "host_write_all X p buf (Expect ''write error during download'') h = (Inr (), k)"
      using 3(2) by (simp add: host_write_all_def)
    obtain l where l: "(if s mod 52428800 < 65536 then hprint (Megabytes s) else hret ()) k = (Inr (), l)"
      by (cases "s mod 52428800 < 65536") (auto simp: host_simps)
    have "\<exists>t' h'. download_loop X p cs s l = (Inr t', h')"
      by (rule 3(1) [OF False]) (use 3(2,3,4) False us in auto)
    then show ?thesis using False by (simp add: hrun w s host_simps l)
  qed
qed (auto simp: host_simps)

text \<open>A finished download: the whole body of a reply with status 200 is in the file, nothing else
  changed, and the request is the only event.\<close>

lemma download_result:
  assumes "download X url p h = (r, h')"
  shows "h_trace h' = h_trace h @ [Fetched url]" "only_file p h h'"
    and "r = Inr () \<Longrightarrow> \<exists>cs. x_http X h url = HttpReply 200 cs \<and> body_ok cs \<and> h_fs h' p = Some (File (body_bytes cs))"
proof -
  show "h_trace h' = h_trace h @ [Fetched url]" "only_file p h h'"
    using assms
    by (auto simp: download_def http_get_def hbind_eq hthen_eq host_simps create_file_def only_file_def
        split: http_reply.splits if_splits dest!: download_loop_frame)
  show "\<exists>cs. x_http X h url = HttpReply 200 cs \<and> body_ok cs \<and> h_fs h' p = Some (File (body_bytes cs))"
    if "r = Inr ()"
    using assms that
    by (auto simp: download_def http_get_def hbind_eq hthen_eq host_simps create_file_def
        split: http_reply.splits if_splits dest!: download_loop_written [where old = "[]"])
qed

section \<open>Verified archives\<close>

lemma verify_sha256_result:
  assumes "computes X D" "\<not> placeholder e" "verify_sha256 X p e h = (r, h')"
  shows "h' = h" and "r = Inr b \<Longrightarrow> \<exists>bs. h_fs h p = Some (File bs) \<and> b = (x_hex X (D bs) = e)"
  using assms by (auto simp: verify_sha256_def hbind_eq host_simps dest: sha256_of_result)

lemma assert_sha256_result:
  assumes "computes X D" "\<not> placeholder e" "assert_sha256 X p e l h = (r, h')"
  shows "h' = h" and "r = Inr u \<Longrightarrow> \<exists>bs. h_fs h p = Some (File bs) \<and> x_hex X (D bs) = e"
  using assms
  by (auto simp: assert_sha256_def hbind_eq host_simps dest: sha256_of_result split: if_splits)

text \<open>What a download and the assertion that follows it leave.\<close>

lemma download_assert_result:
  assumes D: "computes X D" "\<not> placeholder e"
    and run: "hthen (download X url p) (assert_sha256 X p e l) h = (r, h')"
  shows "h_trace h' = h_trace h @ [Fetched url]" "only_file p h h'"
    and "r = Inr () \<Longrightarrow> \<exists>cs. x_http X h url = HttpReply 200 cs \<and> body_ok cs \<and>
      h_fs h' p = Some (File (body_bytes cs)) \<and> x_hex X (D (body_bytes cs)) = e"
proof -
  obtain q k where q: "download X url p h = (q, k)" by fastforce
  note d = download_result [OF q]
  have k: "h' = k"
    using run q assert_sha256_result(1) [OF D] by (cases q) (auto simp: hrun)
  show "h_trace h' = h_trace h @ [Fetched url]" "only_file p h h'" using d k by simp_all
  assume "r = Inr ()"
  then have "q = Inr ()" "assert_sha256 X p e l k = (Inr (), h')"
    using run q by (cases q; auto simp: hrun)+
  then show "\<exists>cs. x_http X h url = HttpReply 200 cs \<and> body_ok cs \<and>
      h_fs h' p = Some (File (body_bytes cs)) \<and> x_hex X (D (body_bytes cs)) = e"
    using d(3) assert_sha256_result(2) [OF D] k by fastforce
qed

text \<open>How the archive of a source came to be in the cache: it was there, or it was downloaded.\<close>

definition obtained :: "'d ext \<Rightarrow> (bytes \<Rightarrow> bytes) \<Rightarrow> string \<Rightarrow> source \<Rightarrow> host \<Rightarrow> host \<Rightarrow> bool" where
  "obtained X D p s h h' \<longleftrightarrow>
    (\<exists>bs. h_fs h' p = Some (File bs) \<and> x_hex X (D bs) = s_sha256 s \<and>
      (h_trace h' = h_trace h \<and> h_fs h p = Some (File bs) \<or>
       h_trace h' = h_trace h @ [Fetched (s_url s)] \<and>
         (\<exists>k cs. x_http X k (s_url s) = HttpReply 200 cs \<and> body_ok cs \<and> body_bytes cs = bs)))"

lemma fetch_source_result:
  assumes D: "computes X D" and np: "\<not> placeholder (s_sha256 s)" and run: "fetch_source X c s h = (r, h')"
  shows "only_file (tarball_path c s) h h'"
    and "h_trace h' = h_trace h \<or> h_trace h' = h_trace h @ [Fetched (s_url s)]"
    and "r = Inr () \<Longrightarrow> obtained X D (tarball_path c s) s h h'"
proof -
  define p where "p = tarball_path c s"
  have redo: "only_file p h h' \<and> h_trace h' = h_trace h @ [Fetched (s_url s)] \<and>
      (r = Inr () \<longrightarrow> obtained X D p s h h')"
    if k: "only_file p h k" "h_trace k = h_trace h"
      and d: "hthen (download X (s_url s) p) (assert_sha256 X p (s_sha256 s) (s_name s)) k = (r, h')" for k
    using download_assert_result [OF D np d] k only_file_trans [of p h k h']
    unfolding obtained_def by (metis (no_types, lifting))
  have "only_file p h h' \<and> (h_trace h' = h_trace h \<or> h_trace h' = h_trace h @ [Fetched (s_url s)]) \<and>
      (r = Inr () \<longrightarrow> obtained X D p s h h')"
  proof (cases "\<not> x_fault X h (Stat p) \<and> h_fs h p \<noteq> None")
    case False
    then have "hthen (download X (s_url s) p) (assert_sha256 X p (s_sha256 s) (s_name s))
        (h\<lparr>h_out := h_out h @ [warning s (''downloading from '' @ s_url s)]\<rparr>) = (r, h')"
      using run by (auto simp: fetch_source_def p_def Let_def host_simps)
    from redo [OF _ _ this] show ?thesis by (simp add: only_file_def)
  next
    case True
    define k where "k = h\<lparr>h_out := h_out h @ [warning s ''tarball cached, verifying...'']\<rparr>"
    obtain q l where q: "verify_sha256 X p (s_sha256 s) k = (q, l)" by fastforce
    have l: "l = k" by (rule verify_sha256_result(1) [OF D np q])
    show ?thesis
    proof (cases q)
      case (Inl e)
      then have "h' = k" "r = Inl e"
        using run q l True by (auto simp: fetch_source_def p_def [symmetric] Let_def hrun host_simps k_def [symmetric])
      then show ?thesis by (simp add: k_def only_file_def)
    next
      case (Inr ok)
      obtain bs where bs: "h_fs h p = Some (File bs)" "ok = (x_hex X (D bs) = s_sha256 s)"
        using verify_sha256_result(2) [OF D np q Inr] by (auto simp: k_def)
      show ?thesis
      proof (cases ok)
        case True
        then have "h' = k\<lparr>h_out := h_out k @ [warning s ''checksum OK'']\<rparr>"
          using run q l Inr \<open>\<not> x_fault X h (Stat p) \<and> h_fs h p \<noteq> None\<close>
          by (simp add: fetch_source_def p_def [symmetric] Let_def hrun host_simps k_def [symmetric])
        then show ?thesis using bs True by (simp add: k_def only_file_def obtained_def)
      next
        case False
        define m where "m = k\<lparr>h_out := h_out k @ [warning s ''checksum MISMATCH - redownloading'']\<rparr>"
        have step: "hthen (remove_file X p UnwrapFailed) (hthen (download X (s_url s) p)
              (assert_sha256 X p (s_sha256 s) (s_name s))) m = (r, h')"
          using run q l Inr False \<open>\<not> x_fault X h (Stat p) \<and> h_fs h p \<noteq> None\<close>
          by (simp add: fetch_source_def p_def [symmetric] Let_def hrun host_simps k_def [symmetric] m_def)
        show ?thesis
        proof (cases "x_fault X m (RemoveFile p)")
          case True
          then show ?thesis using step
            by (auto simp: hthen_eq remove_file_def m_def k_def only_file_def)
        next
          case False
          then have "hthen (download X (s_url s) p) (assert_sha256 X p (s_sha256 s) (s_name s))
              (m\<lparr>h_fs := (h_fs m)(p := None)\<rparr>) = (r, h')"
            using step bs(1) by (simp add: remove_file_def m_def k_def hthen_ok)
          from redo [OF _ _ this] show ?thesis by (simp add: only_file_def m_def k_def)
        qed
      qed
    qed
  qed
  then show "only_file (tarball_path c s) h h'"
      "h_trace h' = h_trace h \<or> h_trace h' = h_trace h @ [Fetched (s_url s)]"
      "r = Inr () \<Longrightarrow> obtained X D (tarball_path c s) s h h'"
    unfolding p_def by blast+
qed

section \<open>Events of the script\<close>

lemma SOURCES_digests: "s \<in> set SOURCES \<Longrightarrow> \<not> placeholder (s_sha256 s)"
  by (auto simp: SOURCES_def placeholder_def)

text \<open>
  What may happen while the sources are prepared: the listed archives are requested, archives whose
  digest is the listed one are unpacked into the cache, and the patches of the repository are
  applied inside the unpacked directories.
\<close>

definition verified_archive :: "'d ext \<Rightarrow> (bytes \<Rightarrow> bytes) \<Rightarrow> archive_format \<Rightarrow> bytes \<Rightarrow> bool" where
  "verified_archive X D fmt bs \<longleftrightarrow>
    list_ex (\<lambda>s. s_format s = fmt \<and> s_sha256 s = x_hex X (D bs)) SOURCES"

definition source_patch :: "string \<Rightarrow> source \<Rightarrow> command" where
  "source_patch md s =
    patch_command (path_join md (s_name s @ ''.patch'')) (path_join (cache_path md) (s_dir_name s))"

fun source_event :: "'d ext \<Rightarrow> (bytes \<Rightarrow> bytes) \<Rightarrow> string \<Rightarrow> event \<Rightarrow> bool" where
  "source_event X D md (Fetched u) = (u \<in> s_url ` set SOURCES)"
| "source_event X D md (Unpacked fmt bs dest) = (dest = cache_path md \<and> verified_archive X D fmt bs)"
| "source_event X D md (Ran c r) = (c \<in> source_patch md ` set SOURCES)"

text \<open>The part of this about archives, for every event of a run.\<close>

fun checked_event :: "'d ext \<Rightarrow> (bytes \<Rightarrow> bytes) \<Rightarrow> event \<Rightarrow> bool" where
  "checked_event X D (Unpacked fmt bs dest) =
    (verified_archive X D fmt bs \<and> Some dest = map_option cache_path (x_var X ''CARGO_MANIFEST_DIR''))"
| "checked_event X D e = True"

lemma apply_patch_events: "(\<And>r. Q (Ran (patch_command p d) r)) \<Longrightarrow> causes Q (apply_patch X p d)"
  unfolding apply_patch_def
  by (rule causes_then [OF causes_basic(5)], rule causes_bind [OF causes_spawn])
    (auto intro!: causes_intros split: reply.split)

lemma extract_archive_result:
  assumes "h_fs h p = Some (File bs)" "extract_archive X p c fmt h = (r, h')"
  shows "h_trace h' = h_trace h \<or> h_trace h' = h_trace h @ [Unpacked fmt bs c]"
  using assms
  by (auto simp: extract_archive_def hbind_eq open_file_def unpack_tar_def split: if_splits prod.splits)

lemma unpack_source_events:
  assumes bs: "h_fs h (tarball_path c s) = Some (File bs)" and run: "unpack_source X md c s h = (r, h')"
    and Q: "Q (Unpacked (s_format s) bs c)"
      "\<And>q. Q (Ran (patch_command (path_join md (s_name s @ ''.patch'')) (path_join c (s_dir_name s))) q)"
  shows "\<exists>es. h_trace h' = h_trace h @ es \<and> list_all Q es"
proof (cases "\<not> x_fault X h (Stat (path_join c (s_dir_name s))) \<and> h_fs h (path_join c (s_dir_name s)) \<noteq> None")
  case True
  then show ?thesis using run
    by (intro exI [of _ "[]"]) (auto simp: unpack_source_def Let_def host_simps)
next
  case False
  let ?k = "h\<lparr>h_out := h_out h @ [Extracting (s_name s)]\<rparr>"
  define n where "n = hthen (hprint (ExtractedTo (s_name s) (path_join c (s_dir_name s))))
    (hbind (path_exists X (path_join md (s_name s @ ''.patch''))) (\<lambda>patched.
       if patched then apply_patch X (path_join md (s_name s @ ''.patch'')) (path_join c (s_dir_name s))
       else hprint (warning s ''patch file not found'')))"
  have n: "causes Q n"
    unfolding n_def by (intro causes_then causes_bind causes_basic) (auto intro!: apply_patch_events causes_basic Q)
  obtain q l where q: "extract_archive X (tarball_path c s) c (s_format s) ?k = (q, l)" by fastforce
  have l: "h_trace l = h_trace h \<or> h_trace l = h_trace h @ [Unpacked (s_format s) bs c]"
    using extract_archive_result [OF _ q, of bs] bs by simp
  have run': "hthen (extract_archive X (tarball_path c s) c (s_format s)) n ?k = (r, h')"
    using run False unfolding n_def by (auto simp: unpack_source_def Let_def host_simps)
  obtain ds where ds: "h_trace h' = h_trace l @ ds" "list_all Q ds"
  proof (cases q)
    case (Inl e)
    then show ?thesis using run' q that [of "[]"] by (auto simp: hrun)
  next
    case (Inr u)
    then have "n l = (r, h')" using run' q by (simp add: hrun)
    then show ?thesis using that causesD [OF n] by blast
  qed
  then show ?thesis using l Q(1)
    by (elim disjE) (auto intro: exI [of _ "[Unpacked (s_format s) bs c] @ ds"])
qed

lemma prepare_source_events:
  assumes D: "computes X D" and s: "s \<in> set SOURCES"
  shows "causes (source_event X D md) (prepare_source X md (cache_path md) s)"
  unfolding causes_def
proof
  fix h
  let ?c = "cache_path md"
  obtain r h' where run: "prepare_source X md ?c s h = (r, h')" by fastforce
  obtain q k where q: "fetch_source X ?c s h = (q, k)" by fastforce
  note f = fetch_source_result [OF D SOURCES_digests [OF s] q]
  have tk: "\<exists>es. h_trace k = h_trace h @ es \<and> list_all (source_event X D md) es"
    using f(2) s by (elim disjE) (auto intro: exI [of _ "[Fetched (s_url s)]"])
  have "\<exists>es. h_trace h' = h_trace k @ es \<and> list_all (source_event X D md) es"
  proof (cases q)
    case (Inl e)
    then show ?thesis using run q by (auto simp: prepare_source_def hrun)
  next
    case (Inr u)
    obtain bs where bs: "h_fs k (tarball_path ?c s) = Some (File bs)" "x_hex X (D bs) = s_sha256 s"
      using f(3) Inr unfolding obtained_def by auto
    have "unpack_source X md ?c s k = (r, h')" using run q Inr by (simp add: prepare_source_def hrun)
    from unpack_source_events [OF bs(1) this, of "source_event X D md"] show ?thesis
      using s bs(2) by (auto simp: verified_archive_def source_patch_def list_ex_iff)
  qed
  then show "\<exists>es. h_trace (snd (prepare_source X md ?c s h)) = h_trace h @ es \<and>
      list_all (source_event X D md) es"
    using tk run by (metis append.assoc list_all_append snd_conv)
qed

lemma prepare_sources_events: "computes X D \<Longrightarrow> causes (source_event X D md) (prepare_sources X md)"
  unfolding prepare_sources_def by (rule causes_seq) (auto intro: prepare_source_events)

section \<open>Stages of the toolchain\<close>

definition toolchain_commands :: "'d ext \<Rightarrow> string \<Rightarrow> command list" where
  "toolchain_commands X md =
    [meson_headers md, ninja_headers md,
     configure_binutils md, make_binutils X md, install_binutils md,
     configure_gcc X md, make_gcc X md, install_gcc X md,
     meson_mlibc X md, ninja_mlibc X md]"

lemma length_toolchain_commands: "length (toolchain_commands X md) = 10"
  by (simp add: toolchain_commands_def)

lemma in_order_stages:
  "in_order (install_headers X md) [meson_headers md, ninja_headers md]"
  "in_order (build_binutils X md) [configure_binutils md, make_binutils X md, install_binutils md]"
  "in_order (build_gcc X md) [configure_gcc X md, make_gcc X md, install_gcc X md]"
  "in_order (build_mlibc X md) [meson_mlibc X md, ninja_mlibc X md]"
  unfolding install_headers_def build_binutils_def build_gcc_def build_mlibc_def
  by (intro in_order_intros)+

interpretation toolchain: stage "build_toolchain X md" "toolchain_commands X md" for X :: "'d ext" and md
proof unfold_locales
  have "in_order (hthen (build_gcc X md) (build_mlibc X md))
      [configure_gcc X md, make_gcc X md, install_gcc X md, meson_mlibc X md, ninja_mlibc X md]"
    using in_order_then [OF in_order_stages(3,4)] by simp
  from in_order_then [OF in_order_stages(1) in_order_then [OF in_order_stages(2) this]]
  show "in_order (build_toolchain X md) (toolchain_commands X md)"
    unfolding build_toolchain_def toolchain_commands_def by (intro in_order_dir_then) simp
qed

text \<open>A program that fails ends the stage with a panic, and nothing runs after it.\<close>

lemma toolchain_failure:
  "build_toolchain X md h = (r, h') \<Longrightarrow> Ran c q \<in> set (drop (length (h_trace h)) (h_trace h')) \<Longrightarrow>
    \<not> success q \<Longrightarrow> (\<exists>e. r = Inl e) \<and> last (h_trace h') = Ran c q"
  using toolchain.failure_stops by blast

text \<open>A run of the script: events of the sources, then the programs of the toolchain in order.\<close>

lemma cross_main_events:
  assumes D: "computes X D" and md: "x_var X ''CARGO_MANIFEST_DIR'' = Some md"
    and run: "cross_main X h = (r, h')"
  shows "\<exists>es rs. h_trace h' = h_trace h @ es @ map2 Ran (take (length rs) (toolchain_commands X md)) rs \<and>
    list_all (source_event X D md) es \<and> length rs \<le> length (toolchain_commands X md) \<and>
    list_all success (butlast rs) \<and>
    (r = Inr () \<longrightarrow> length rs = length (toolchain_commands X md) \<and> list_all success rs)"
proof -
  let ?Q = "source_event X D md"
  define m where "m = hthen (create_dir_all X (cache_path md) (Expect ''failed to create cache dir''))
    (prepare_sources X md)"
  define k where "k = snd (hprints [Line ''cargo:rerun-if-changed=build.rs'',
    Line ''cargo:rerun-if-changed=binutils.patch'', Line ''cargo:rerun-if-changed=gcc.patch'',
    Line ''cargo:rerun-if-changed=mlibc.patch''] h)"
  have k: "h_trace k = h_trace h" by (simp add: k_def host_simps)
  have "causes ?Q m" unfolding m_def by (intro causes_then causes_basic prepare_sources_events D)
  moreover obtain q l where q: "m k = (q, l)" by fastforce
  ultimately obtain es where es: "h_trace l = h_trace h @ es" "list_all ?Q es"
    using causesD k by metis
  have run': "hthen m (build_toolchain X md) k = (r, h')"
    using run unfolding cross_main_def md m_def k_def by (simp add: host_simps hthen_assoc)
  show ?thesis
  proof (cases q)
    case (Inl e)
    then have "h' = l" "r = Inl e" using run' q by (auto simp: hrun)
    then show ?thesis using es by (intro exI [of _ es] exI [of _ "[]"]) simp
  next
    case (Inr u)
    then have "build_toolchain X md l = (r, h')" using run' q by (simp add: hrun)
    from toolchain.runs_prefix [OF this] show ?thesis using es by auto
  qed
qed

section \<open>Completion\<close>

text \<open>
  The directories the script creates, and the states in which it can create them and write its
  archives: no file is in the place of a directory, no directory in the place of an archive.
\<close>

definition script_dirs :: "string \<Rightarrow> string list" where
  "script_dirs md = [cache_path md, sysroot_path md, tools_path md, binutils_dir md, gcc_dir md]"

definition clean :: "string \<Rightarrow> fs \<Rightarrow> bool" where
  "clean md f \<longleftrightarrow>
    list_all (\<lambda>p. list_all (\<lambda>q. \<not> is_file (f q)) (path_prefixes p)) (script_dirs md) \<and>
    list_all (\<lambda>s. f (tarball_path (cache_path md) s) \<noteq> Some Dir) SOURCES"

text \<open>
  An outside that does its part: the system fulfils every request, the server delivers for every
  listed address a body with the listed digest, archives with a listed digest unpack, programs
  succeed, and neither puts a file in the place of a directory of the script or the reverse.
\<close>

definition willing :: "'d ext \<Rightarrow> (bytes \<Rightarrow> bytes) \<Rightarrow> string \<Rightarrow> bool" where
  "willing X D md \<longleftrightarrow>
    (\<forall>h op. \<not> x_fault X h op) \<and> (\<forall>h p i. x_read X h p i \<noteq> ReadErr) \<and> (\<forall>h p. x_short X h p = None) \<and>
    (\<forall>h. \<forall>s\<in>set SOURCES. \<exists>cs. x_http X h (s_url s) = HttpReply 200 cs \<and> body_ok cs \<and>
      length (body_bytes cs) < 2 ^ 64 \<and> x_hex X (D (body_bytes cs)) = s_sha256 s) \<and>
    (\<forall>h c. clean md (h_fs h) \<longrightarrow> success (fst (x_exec X h c)) \<and> clean md (snd (x_exec X h c))) \<and>
    (\<forall>h fmt bs d. clean md (h_fs h) \<longrightarrow> verified_archive X D fmt bs \<longrightarrow>
      fst (x_unpack X h fmt bs d) \<and> clean md (snd (x_unpack X h fmt bs d)))"

lemma willing_fs:
  "willing X D md \<Longrightarrow> \<not> x_fault X h op" "willing X D md \<Longrightarrow> x_read X h p i \<noteq> ReadErr"
  "willing X D md \<Longrightarrow> x_short X h p = None"
  unfolding willing_def by blast+

lemma willing_http:
  "willing X D md \<Longrightarrow> s \<in> set SOURCES \<Longrightarrow> \<exists>cs. x_http X h (s_url s) = HttpReply 200 cs \<and> body_ok cs \<and>
      length (body_bytes cs) < 2 ^ 64 \<and> x_hex X (D (body_bytes cs)) = s_sha256 s"
  unfolding willing_def by blast

lemma willing_exec:
  "willing X D md \<Longrightarrow> clean md (h_fs h) \<Longrightarrow> success (fst (x_exec X h c)) \<and> clean md (snd (x_exec X h c))"
  unfolding willing_def by blast

lemma willing_unpack:
  "willing X D md \<Longrightarrow> clean md (h_fs h) \<Longrightarrow> verified_archive X D fmt bs \<Longrightarrow>
    fst (x_unpack X h fmt bs d) \<and> clean md (snd (x_unpack X h fmt bs d))"
  unfolding willing_def by blast

lemma path_prefixes_prefix: "q \<in> set (path_prefixes p) \<Longrightarrow> prefix q p"
  by (auto simp: path_prefixes_def take_is_prefix)

lemma tarball_no_dir:
  assumes s: "s \<in> set SOURCES" and p: "p \<in> set (script_dirs md)"
  shows "tarball_path (cache_path md) s \<notin> set (path_prefixes p)"
proof
  assume "tarball_path (cache_path md) s \<in> set (path_prefixes p)"
  then have "prefix (tarball_path (cache_path md) s) p" by (rule path_prefixes_prefix)
  then show False using s p
    by (auto simp: SOURCES_def script_dirs_def tarball_path_def cache_path_def sysroot_path_def
        tools_path_def binutils_dir_def gcc_dir_def path_join_rel)
qed

lemma clean_dirs: "clean md f \<Longrightarrow> p \<in> set (script_dirs md) \<Longrightarrow> q \<in> set (path_prefixes p) \<Longrightarrow> \<not> is_file (f q)"
  by (auto simp: clean_def list_all_iff)

lemma clean_tarball: "clean md f \<Longrightarrow> s \<in> set SOURCES \<Longrightarrow> f (tarball_path (cache_path md) s) \<noteq> Some Dir"
  by (auto simp: clean_def list_all_iff)

lemma clean_mkdir:
  assumes "clean md f" "p \<in> set (script_dirs md)" shows "clean md (make_dirs f (path_prefixes p))"
proof -
  have "\<not> is_file (make_dirs f (path_prefixes p) q)" if "\<not> is_file (f q)" for q
    using that by (cases "q \<in> set (path_prefixes p)") (simp_all add: make_dirs_in make_dirs_other)
  moreover have "make_dirs f (path_prefixes p) (tarball_path (cache_path md) s) = f (tarball_path (cache_path md) s)"
    if "s \<in> set SOURCES" for s
    using tarball_no_dir [OF that assms(2)] by (rule make_dirs_other)
  ultimately show ?thesis using assms(1) by (auto simp: clean_def list_all_iff)
qed

lemma clean_write:
  assumes "clean md f" "s \<in> set SOURCES" "\<And>q. q \<noteq> tarball_path (cache_path md) s \<Longrightarrow> g q = f q"
    "g (tarball_path (cache_path md) s) \<noteq> Some Dir"
  shows "clean md g"
proof -
  have "\<not> is_file (g q)" if "p \<in> set (script_dirs md)" "q \<in> set (path_prefixes p)" for p q
    using clean_dirs [OF assms(1) that] tarball_no_dir [OF assms(2) that(1)] that(2) assms(3) by metis
  moreover have "g (tarball_path (cache_path md) t) \<noteq> Some Dir" if "t \<in> set SOURCES" for t
    using assms(3,4) clean_tarball [OF assms(1) that] by metis
  ultimately show ?thesis by (auto simp: clean_def list_all_iff)
qed

abbreviation cleans :: "string \<Rightarrow> host \<Rightarrow> bool" where
  "cleans md h \<equiv> clean md (h_fs h)"

lemma completes_dir:
  "willing X D md \<Longrightarrow> p \<in> set (script_dirs md) \<Longrightarrow> completes (cleans md) (create_dir_all X p e)"
  unfolding completes_def
  by (auto simp: create_dir_all_def list_ex_iff clean_mkdir willing_fs dest: clean_dirs)

lemma completes_command: "willing X D md \<Longrightarrow> completes (cleans md) (run_command X c a b)"
  unfolding completes_def
proof (intro allI impI)
  fix h assume w: "willing X D md" and c: "cleans md h"
  show "\<exists>u h'. run_command X c a b h = (Inr u, h') \<and> cleans md h'"
    using willing_exec [OF w c, of c] by (cases "x_exec X h c") (simp add: run_command_run)
qed

lemma download_returns:
  assumes w: "willing X D md" and s: "s \<in> set SOURCES" and p: "h_fs h p \<noteq> Some Dir"
  shows "\<exists>h'. download X (s_url s) p h = (Inr (), h')"
proof -
  obtain cs where cs: "x_http X h (s_url s) = HttpReply 200 cs" "body_ok cs" "length (body_bytes cs) < 2 ^ 64"
    using willing_http [OF w s] by blast
  let ?k = "h\<lparr>h_trace := h_trace h @ [Fetched (s_url s)], h_fs := (h_fs h)(p \<mapsto> File [])\<rparr>"
  have "\<exists>t' h'. download_loop X p cs 0 ?k = (Inr t', h')"
    by (rule download_loop_returns) (use cs in \<open>simp_all add: willing_fs [OF w]\<close>)
  moreover have "create_file X p e (h\<lparr>h_trace := h_trace h @ [Fetched (s_url s)]\<rparr>) = (Inr (), ?k)" for e
    using p by (simp add: create_file_def willing_fs [OF w])
  ultimately show ?thesis using cs(1) by (auto simp: download_def http_get_def hrun host_simps)
qed

text \<open>Downloading an archive of the list into its place and checking it returns.\<close>

lemma download_assert_returns:
  assumes D: "computes X D" and w: "willing X D md" and s: "s \<in> set SOURCES" and p: "h_fs h p \<noteq> Some Dir"
  shows "\<exists>h'. hthen (download X (s_url s) p) (assert_sha256 X p (s_sha256 s) l) h = (Inr (), h')"
proof -
  obtain k where k: "download X (s_url s) p h = (Inr (), k)" using download_returns [OF w s p] by blast
  obtain cs where cs: "x_http X h (s_url s) = HttpReply 200 cs" "h_fs k p = Some (File (body_bytes cs))"
    using download_result(3) [OF k] by blast
  have d: "x_hex X (D (body_bytes cs)) = s_sha256 s" using willing_http [OF w s, of h] cs(1) by auto
  have "sha256_of X p k = (Inr (x_hex X (D (body_bytes cs))), k)"
    by (rule sha256_of_returns [OF D cs(2)]) (simp_all add: willing_fs [OF w])
  then show ?thesis using k d SOURCES_digests [OF s] by (simp add: assert_sha256_def hrun host_simps)
qed

lemma fetch_source_returns:
  assumes D: "computes X D" and w: "willing X D md" and s: "s \<in> set SOURCES" and c: "cleans md h"
  shows "\<exists>h'. fetch_source X (cache_path md) s h = (Inr (), h')"
proof -
  define p where "p = tarball_path (cache_path md) s"
  note go = download_assert_returns [OF D w s, where p = p and l = "s_name s"]
  have nd: "h_fs h p \<noteq> Some Dir" unfolding p_def by (rule clean_tarball [OF c s])
  show ?thesis
  proof (cases "h_fs h p")
    case None
    then show ?thesis
      using go [of "h\<lparr>h_out := h_out h @ [warning s (''downloading from '' @ s_url s)]\<rparr>"]
      by (simp add: fetch_source_def p_def [symmetric] host_simps)
  next
    case (Some n)
    then obtain bs where bs: "h_fs h p = Some (File bs)" using nd by (cases n) auto
    define k where "k = h\<lparr>h_out := h_out h @ [warning s ''tarball cached, verifying...'']\<rparr>"
    have "sha256_of X p k = (Inr (x_hex X (D bs)), k)"
      by (rule sha256_of_returns [OF D]) (simp_all add: willing_fs [OF w] k_def bs)
    then have v: "verify_sha256 X p (s_sha256 s) k = (Inr (x_hex X (D bs) = s_sha256 s), k)"
      using SOURCES_digests [OF s] by (simp add: verify_sha256_def hbind_ok host_simps)
    show ?thesis
    proof (cases "x_hex X (D bs) = s_sha256 s")
      case True
      then show ?thesis using v bs
        by (simp add: fetch_source_def p_def [symmetric] host_simps willing_fs [OF w] k_def [symmetric] hbind_ok)
    next
      case False
      define m where "m = k\<lparr>h_out := h_out k @ [warning s ''checksum MISMATCH - redownloading'']\<rparr>"
      have "remove_file X p UnwrapFailed m = (Inr (), m\<lparr>h_fs := (h_fs m)(p := None)\<rparr>)"
        using bs by (simp add: remove_file_def willing_fs [OF w] m_def k_def)
      moreover have "\<exists>h'. hthen (download X (s_url s) p) (assert_sha256 X p (s_sha256 s) (s_name s))
          (m\<lparr>h_fs := (h_fs m)(p := None)\<rparr>) = (Inr (), h')"
        by (rule go) simp
      ultimately show ?thesis using v bs False
        by (simp add: fetch_source_def p_def [symmetric] host_simps willing_fs [OF w] k_def [symmetric]
            m_def [symmetric] hbind_ok hthen_ok)
    qed
  qed
qed

lemma apply_patch_completes:
  assumes w: "willing X D md" shows "completes (cleans md) (apply_patch X p d)"
  unfolding completes_def
proof (intro allI impI)
  fix h assume c: "cleans md h"
  let ?k = "h\<lparr>h_out := h_out h @ [ApplyingPatch p d]\<rparr>" and ?c = "patch_command p d"
  obtain r f where e: "x_exec X ?k ?c = (r, f)" by fastforce
  have r: "success r" "clean md f" using willing_exec [OF w, of ?k ?c] e c by auto
  obtain out err where "r = Ended (Some 0) out err" using r(1) by (cases r) auto
  then show "\<exists>u h'. apply_patch X p d h = (Inr u, h') \<and> cleans md h'"
    using e r(2) by (simp add: apply_patch_def host_simps spawn_def hbind_def)
qed

lemma prepare_source_completes:
  assumes D: "computes X D" and w: "willing X D md" and s: "s \<in> set SOURCES"
  shows "completes (cleans md) (prepare_source X md (cache_path md) s)"
  unfolding completes_def
proof (intro allI impI)
  fix h assume c: "cleans md h"
  let ?p = "tarball_path (cache_path md) s"
  obtain k where k: "fetch_source X (cache_path md) s h = (Inr (), k)"
    using fetch_source_returns [OF D w s c] by blast
  note f = fetch_source_result [OF D SOURCES_digests [OF s] k]
  obtain bs where bs: "h_fs k ?p = Some (File bs)" "x_hex X (D bs) = s_sha256 s"
    using f(3) unfolding obtained_def by auto
  have ck: "cleans md k"
    using f(1) bs(1) by (intro clean_write [OF c s]) (auto simp: only_file_def)
  have v: "verified_archive X D (s_format s) bs"
    using bs(2) s by (auto simp: verified_archive_def list_ex_iff)
  have "\<exists>h'. unpack_source X md (cache_path md) s k = (Inr (), h') \<and> cleans md h'"
  proof (cases "h_fs k (path_join (cache_path md) (s_dir_name s)) = None")
    case False
    then show ?thesis using ck by (simp add: unpack_source_def Let_def host_simps willing_fs [OF w])
  next
    case True
    let ?k = "k\<lparr>h_out := h_out k @ [Extracting (s_name s)]\<rparr>"
    obtain ok g where u: "x_unpack X ?k (s_format s) bs (cache_path md) = (ok, g)" by fastforce
    then have g: "ok" "clean md g"
      using willing_unpack [OF w _ v, of ?k "cache_path md"] ck by auto
    define l where "l = ?k\<lparr>h_fs := g, h_trace := h_trace k @ [Unpacked (s_format s) bs (cache_path md)],
      h_out := h_out ?k @ [ExtractedTo (s_name s) (path_join (cache_path md) (s_dir_name s))]\<rparr>"
    have "extract_archive X ?p (cache_path md) (s_format s) ?k =
        (Inr (), ?k\<lparr>h_fs := g, h_trace := h_trace k @ [Unpacked (s_format s) bs (cache_path md)]\<rparr>)"
      using bs(1) u g(1) by (simp add: extract_archive_def open_file_def hbind_def unpack_tar_def willing_fs [OF w])
    then have "unpack_source X md (cache_path md) s k =
        (if h_fs l (path_join md (s_name s @ ''.patch'')) \<noteq> None
         then apply_patch X (path_join md (s_name s @ ''.patch'')) (path_join (cache_path md) (s_dir_name s)) l
         else hprint (warning s ''patch file not found'') l)"
      using True by (simp add: unpack_source_def Let_def host_simps willing_fs [OF w] hthen_ok l_def)
    then show ?thesis
      using completesD [OF apply_patch_completes [OF w], of l] g(2) by (auto simp: l_def host_simps)
  qed
  then show "\<exists>u h'. prepare_source X md (cache_path md) s h = (Inr u, h') \<and> cleans md h'"
    using k by (auto simp: prepare_source_def hthen_ok)
qed

lemma build_toolchain_completes: "willing X D md \<Longrightarrow> completes (cleans md) (build_toolchain X md)"
  unfolding build_toolchain_def install_headers_def build_binutils_def build_gcc_def build_mlibc_def
  by (intro completes_then completes_command completes_dir) (auto simp: script_dirs_def)

lemma cross_main_completes:
  assumes D: "computes X D" and w: "willing X D md" and md: "x_var X ''CARGO_MANIFEST_DIR'' = Some md"
  shows "completes (cleans md) (cross_main X)"
  unfolding cross_main_def md option.case prepare_sources_def
  by (intro completes_then completes_seq completes_print completes_dir [OF w] build_toolchain_completes [OF w])
    (auto simp: script_dirs_def intro: prepare_source_completes [OF D w])

section \<open>Sources that are there already\<close>

text \<open>A system that fulfils every request on files.\<close>

definition obliging :: "'d ext \<Rightarrow> bool" where
  "obliging X \<longleftrightarrow> (\<forall>h op. \<not> x_fault X h op) \<and> (\<forall>h p i. x_read X h p i \<noteq> ReadErr)"

text \<open>An archive with the listed digest is in the cache; it was unpacked.\<close>

definition in_cache :: "'d ext \<Rightarrow> (bytes \<Rightarrow> bytes) \<Rightarrow> string \<Rightarrow> fs \<Rightarrow> source \<Rightarrow> bool" where
  "in_cache X D c f s \<longleftrightarrow>
    (case f (tarball_path c s) of Some (File bs) \<Rightarrow> x_hex X (D bs) = s_sha256 s | _ \<Rightarrow> False)"

definition unpacked_in :: "string \<Rightarrow> fs \<Rightarrow> source \<Rightarrow> bool" where
  "unpacked_in c f s \<longleftrightarrow> f (path_join c (s_dir_name s)) \<noteq> None"

text \<open>Two states that differ at most in what was printed.\<close>

definition same_but_output :: "host \<Rightarrow> host \<Rightarrow> bool" where
  "same_but_output h h' \<longleftrightarrow> h_fs h' = h_fs h \<and> h_trace h' = h_trace h"

lemma fetch_source_cached:
  assumes D: "computes X D" and np: "\<not> placeholder (s_sha256 s)" and ob: "obliging X"
    and c: "in_cache X D c (h_fs h) s"
  shows "\<exists>h'. fetch_source X c s h = (Inr (), h') \<and> same_but_output h h'"
proof -
  obtain bs where bs: "h_fs h (tarball_path c s) = Some (File bs)" "x_hex X (D bs) = s_sha256 s"
    using c by (auto simp: in_cache_def split: option.splits node.splits)
  define k where "k = h\<lparr>h_out := h_out h @ [warning s ''tarball cached, verifying...'']\<rparr>"
  have "sha256_of X (tarball_path c s) k = (Inr (x_hex X (D bs)), k)"
    by (rule sha256_of_returns [OF D]) (use ob bs in \<open>simp_all add: obliging_def k_def\<close>)
  then have "verify_sha256 X (tarball_path c s) (s_sha256 s) k = (Inr True, k)"
    using np bs(2) by (simp add: verify_sha256_def hbind_ok host_simps)
  then show ?thesis using ob bs(1)
    by (simp add: fetch_source_def Let_def host_simps obliging_def k_def [symmetric] hbind_ok)
      (simp add: k_def same_but_output_def)
qed

lemma prepare_source_present:
  assumes D: "computes X D" and np: "\<not> placeholder (s_sha256 s)" and ob: "obliging X"
    and c: "in_cache X D c (h_fs h) s" "unpacked_in c (h_fs h) s"
  shows "\<exists>h'. prepare_source X md c s h = (Inr (), h') \<and> same_but_output h h'"
proof -
  obtain k where k: "fetch_source X c s h = (Inr (), k)" "same_but_output h k"
    using fetch_source_cached [OF D np ob c(1)] by blast
  show ?thesis
    using k ob c(2) by (simp add: prepare_source_def hthen_ok unpack_source_def Let_def host_simps obliging_def
        unpacked_in_def same_but_output_def)
qed

lemma prepare_seq_present:
  assumes D: "computes X D" and ob: "obliging X"
  shows "(\<And>s. s \<in> set ss \<Longrightarrow> \<not> placeholder (s_sha256 s) \<and> in_cache X D c (h_fs h) s \<and> unpacked_in c (h_fs h) s) \<Longrightarrow>
    \<exists>h'. hseq (map (prepare_source X md c) ss) h = (Inr (), h') \<and> same_but_output h h'"
proof (induction ss arbitrary: h)
  case Nil
  then show ?case by (simp add: host_simps same_but_output_def)
next
  case (Cons s ss)
  obtain k where k: "prepare_source X md c s h = (Inr (), k)" "same_but_output h k"
    using prepare_source_present [OF D _ ob] Cons.prems by (metis list.set_intros(1))
  have "\<exists>h'. hseq (map (prepare_source X md c) ss) k = (Inr (), h') \<and> same_but_output k h'"
    by (rule Cons.IH) (use Cons.prems k(2) in \<open>simp add: same_but_output_def\<close>)
  then show ?case using k by (auto simp: hthen_ok same_but_output_def)
qed

lemma apply_patch_failed:
  assumes "x_exec X (h\<lparr>h_out := h_out h @ [ApplyingPatch p d]\<rparr>) (patch_command p d) = (r, g)" "\<not> success r"
  shows "\<exists>e m. apply_patch X p d h = (Inl e, m) \<and> h_fs m = g \<and> h_trace m = h_trace h @ [Ran (patch_command p d) r]"
  using assms
  by (cases r) (simp_all add: apply_patch_def host_simps spawn_def hbind_def)

section \<open>A concrete outside\<close>

text \<open>
  An outside for the witnesses: the server sends as body of a source the characters of its listed
  digest, hashing is the identity, every program succeeds and changes nothing.
\<close>

definition char_bytes :: "string \<Rightarrow> bytes" where
  "char_bytes cs = map (\<lambda>c. of_nat (of_char c)) cs"

definition byte_chars :: "bytes \<Rightarrow> string" where
  "byte_chars bs = map (\<lambda>b. char_of (unat b)) bs"

definition calm_ext :: "bytes ext" where
  "calm_ext =
    \<lparr> x_var = (\<lambda>v. if v = ''CARGO_MANIFEST_DIR'' then Some ''/b'' else if v = ''PATH'' then Some ''/bin'' else None),
      x_nproc = Some 4,
      x_fault = (\<lambda>_ _. False), x_read = (\<lambda>_ _ _. ReadLen 65536), x_short = (\<lambda>_ _. None),
      x_http = (\<lambda>_ url. case find (\<lambda>s. drop 60 (s_url s) = drop 60 url) SOURCES of
                  None \<Rightarrow> HttpError | Some s \<Rightarrow> HttpReply 200 [Chunk (char_bytes (s_sha256 s))]),
      x_exec = (\<lambda>h _. (Ended (Some 0) [] [], h_fs h)),
      x_unpack = (\<lambda>h _ _ d. (True, h_fs h)),
      x_new = [], x_update = (\<lambda>xs ys. xs @ ys), x_finalize = (\<lambda>xs. xs), x_hex = byte_chars \<rparr>"

definition new_host :: host where
  "new_host = \<lparr> h_fs = (\<lambda>_. None), h_out = [], h_trace = [] \<rparr>"

lemma byte_chars_char_bytes [simp]: "byte_chars (char_bytes cs) = cs"
proof -
  have "char_of (unat (of_nat (of_char c) :: u8)) = c" for c :: char
  proof -
    have "of_char c < (256 :: nat)" by (rule nat_of_char_less_256)
    then show ?thesis by (simp add: unsigned_of_nat take_bit_nat_eq_self)
  qed
  then show ?thesis by (simp add: byte_chars_def char_bytes_def comp_def)
qed

lemma calm_computes: "computes calm_ext (\<lambda>bs. bs)"
proof -
  have "foldl (\<lambda>xs ys. xs @ ys) d cs = d @ concat cs" for d and cs :: "bytes list"
    by (induction cs arbitrary: d) simp_all
  then show ?thesis by (simp add: computes_def calm_ext_def)
qed

lemma char_bytes_simps [simp]: "length (char_bytes cs) = length cs" "char_bytes cs = [] \<longleftrightarrow> cs = []"
  by (simp_all add: char_bytes_def)

lemma SOURCES_distinct: "s \<in> set SOURCES \<Longrightarrow> find (\<lambda>t. drop 60 (s_url t) = drop 60 (s_url s)) SOURCES = Some s"
  unfolding SOURCES_def by (simp only: set_simps insert_iff empty_iff simp_thms) (elim disjE; simp)

lemma SOURCES_length: "s \<in> set SOURCES \<Longrightarrow> length (s_sha256 s) = 64"
  by (auto simp: SOURCES_def)

lemma calm_willing: "willing calm_ext (\<lambda>bs. bs) md"
proof -
  have "\<exists>cs. x_http calm_ext h (s_url s) = HttpReply 200 cs \<and> body_ok cs \<and>
      length (body_bytes cs) < 2 ^ 64 \<and> x_hex calm_ext (body_bytes cs) = s_sha256 s"
    if "s \<in> set SOURCES" for h s
    using SOURCES_distinct [OF that] SOURCES_length [OF that]
    by (intro exI [of _ "[Chunk (char_bytes (s_sha256 s))]"]) (auto simp: calm_ext_def)
  then show ?thesis unfolding willing_def by (simp add: calm_ext_def)
qed

lemma calm_md: "x_var calm_ext ''CARGO_MANIFEST_DIR'' = Some ''/b''"
  by (simp add: calm_ext_def)

lemma new_host_clean: "clean md (h_fs new_host)"
  by (simp add: clean_def new_host_def list_all_iff)

text \<open>A cache that holds everything, and an outside where \<open>patch\<close> fails.\<close>

definition full_cache :: fs where
  "full_cache =
    [tarball_path (cache_path ''/b'') (SOURCES ! 0) \<mapsto> File (char_bytes (s_sha256 (SOURCES ! 0))),
     tarball_path (cache_path ''/b'') (SOURCES ! 1) \<mapsto> File (char_bytes (s_sha256 (SOURCES ! 1))),
     tarball_path (cache_path ''/b'') (SOURCES ! 2) \<mapsto> File (char_bytes (s_sha256 (SOURCES ! 2))),
     path_join (cache_path ''/b'') (s_dir_name (SOURCES ! 0)) \<mapsto> Dir,
     path_join (cache_path ''/b'') (s_dir_name (SOURCES ! 1)) \<mapsto> Dir,
     path_join (cache_path ''/b'') (s_dir_name (SOURCES ! 2)) \<mapsto> Dir]"

definition rejecting_ext :: "bytes ext" where
  "rejecting_ext = calm_ext\<lparr>
    x_unpack := (\<lambda>h _ _ d. (True, full_cache(''/b/mlibc.patch'' \<mapsto> File [1]))),
    x_exec := (\<lambda>h _. (Ended (Some 1) [] [], h_fs h))\<rparr>"

lemma calm_obliging: "obliging calm_ext" "obliging rejecting_ext"
  by (simp_all add: obliging_def calm_ext_def rejecting_ext_def)

lemma rejecting_computes: "computes rejecting_ext (\<lambda>bs. bs)"
  using calm_computes by (simp add: computes_def rejecting_ext_def)

lemma full_cache_paths:
  "map (tarball_path (cache_path ''/b'')) SOURCES =
    [''/b/cache/gcc.tar.xz'', ''/b/cache/binutils.tar.xz'', ''/b/cache/mlibc.tar.gz'']"
  "map (\<lambda>s. path_join (cache_path ''/b'') (s_dir_name s)) SOURCES =
    [''/b/cache/gcc-15.2.0'', ''/b/cache/binutils-2.46.0'', ''/b/cache/mlibc-6.3.1'']"
  by (simp_all add: SOURCES_def tarball_path_def cache_path_def path_join_def)

lemma length_SOURCES: "length SOURCES = 3"
  by (simp add: SOURCES_def)

lemma SOURCES_cases: "s \<in> set SOURCES \<Longrightarrow> \<exists>i<3. s = SOURCES ! i"
  using length_SOURCES by (metis in_set_conv_nth)

lemma full_cache_lookup:
  assumes "i < 3"
  shows "full_cache (tarball_path (cache_path ''/b'') (SOURCES ! i)) = Some (File (char_bytes (s_sha256 (SOURCES ! i))))"
    and "full_cache (path_join (cache_path ''/b'') (s_dir_name (SOURCES ! i))) = Some Dir"
proof -
  have p: "tarball_path (cache_path ''/b'') (SOURCES ! i) =
      [''/b/cache/gcc.tar.xz'', ''/b/cache/binutils.tar.xz'', ''/b/cache/mlibc.tar.gz''] ! i"
    "path_join (cache_path ''/b'') (s_dir_name (SOURCES ! i)) =
      [''/b/cache/gcc-15.2.0'', ''/b/cache/binutils-2.46.0'', ''/b/cache/mlibc-6.3.1''] ! i" if "i < 3" for i
    using full_cache_paths [THEN arg_cong [where f = "\<lambda>xs. xs ! i"]] that
    by (simp_all add: length_SOURCES del: nth_Cons_numeral nth_Cons')
  have "i = 0 \<or> i = 1 \<or> i = 2" using assms by auto
  then show "full_cache (tarball_path (cache_path ''/b'') (SOURCES ! i)) = Some (File (char_bytes (s_sha256 (SOURCES ! i))))"
    "full_cache (path_join (cache_path ''/b'') (s_dir_name (SOURCES ! i))) = Some Dir"
    by (auto simp: full_cache_def p)
qed

lemma full_cache_present:
  assumes "s \<in> set SOURCES"
  shows "in_cache calm_ext (\<lambda>bs. bs) (cache_path ''/b'') full_cache s" "unpacked_in (cache_path ''/b'') full_cache s"
  using SOURCES_cases [OF assms]
  by (auto simp: in_cache_def unpacked_in_def full_cache_lookup calm_ext_def)

section \<open>Properties of the script\<close>

text \<open>
  C26: Nothing that was not verified is unpacked. Whatever the server, the file system and the
  programs do, and however the script ends, every archive that a run unpacks goes into the cache
  directory and has the format and the SHA-256 digest of an entry of the list of sources.
\<close>

theorem archives_verified:
  assumes "computes X D"
  shows "list_all (checked_event X D) (drop (length (h_trace h)) (h_trace (snd (cross_main X h))))"
proof (cases "x_var X ''CARGO_MANIFEST_DIR''")
  case None
  then show ?thesis by (simp add: cross_main_def host_simps)
next
  case (Some md)
  obtain r h' where run: "cross_main X h = (r, h')" by fastforce
  obtain es rs where tr: "h_trace h' = h_trace h @ es @ map2 Ran (take (length rs) (toolchain_commands X md)) rs"
    and es: "list_all (source_event X D md) es"
    using cross_main_events [OF assms Some run] by blast
  have "checked_event X D e" if "source_event X D md e" for e
    using that Some by (cases e) simp_all
  then show ?thesis using es run by (auto simp: tr list_all_iff)
qed

theorem archives_verified_witness:
  "list_all (checked_event calm_ext (\<lambda>bs. bs))
    (drop (length (h_trace new_host)) (h_trace (snd (cross_main calm_ext new_host))))"
  by (rule archives_verified [OF calm_computes])

text \<open>
  C28: The toolchain is built in order. The programs a run starts after the sources were prepared
  are a beginning of the fixed sequence (headers, binutils, GCC, C library), each is started only
  after all before it succeeded, and if one fails the run ends with a panic and it was the last.
\<close>

theorem toolchain_in_order:
  assumes "computes X D" "x_var X ''CARGO_MANIFEST_DIR'' = Some md"
  shows "\<exists>es rs. h_trace (snd (cross_main X h)) =
      h_trace h @ es @ map2 Ran (take (length rs) (toolchain_commands X md)) rs \<and>
    list_all (source_event X D md) es \<and> length rs \<le> 10 \<and> list_all success (butlast rs) \<and>
    (fst (cross_main X h) = Inr () \<longrightarrow> length rs = 10 \<and> list_all success rs)"
  using cross_main_events [OF assms, of h "fst (cross_main X h)" "snd (cross_main X h)"]
  by (simp only: length_toolchain_commands prod.collapse simp_thms)

theorem toolchain_in_order_witness:
  "\<exists>es rs. h_trace (snd (cross_main calm_ext new_host)) =
      es @ map2 Ran (take (length rs) (toolchain_commands calm_ext ''/b'')) rs \<and>
    list_all (source_event calm_ext (\<lambda>bs. bs) ''/b'') es \<and> length rs \<le> 10 \<and> list_all success (butlast rs) \<and>
    (fst (cross_main calm_ext new_host) = Inr () \<longrightarrow> length rs = 10 \<and> list_all success rs)"
  using toolchain_in_order [OF calm_computes calm_md, of new_host] by (simp add: new_host_def)

text \<open>
  C27: The build completes. On a system that fulfils the requests of the script, with a server that
  delivers the listed archives and programs that succeed, the script returns without panic, whatever
  of the archives and directories was left by earlier runs, and all ten programs of the toolchain
  have run and succeeded.
\<close>

theorem cross_build_completes:
  assumes D: "computes X D" and w: "willing X D md" and md: "x_var X ''CARGO_MANIFEST_DIR'' = Some md"
    and c: "clean md (h_fs h)"
  shows "\<exists>h' es rs. cross_main X h = (Inr (), h') \<and> length rs = 10 \<and> list_all success rs \<and>
    h_trace h' = h_trace h @ es @ map2 Ran (toolchain_commands X md) rs"
proof -
  obtain h' where run: "cross_main X h = (Inr (), h')"
    using completesD [OF cross_main_completes [OF D w md] c] by auto
  obtain es rs where "h_trace h' = h_trace h @ es @ map2 Ran (take (length rs) (toolchain_commands X md)) rs"
      "length rs = length (toolchain_commands X md)" "list_all success rs"
    using cross_main_events [OF D md run] by blast
  then show ?thesis using run by (auto simp: length_toolchain_commands)
qed

theorem cross_build_completes_witness:
  "\<exists>h' es rs. cross_main calm_ext new_host = (Inr (), h') \<and> length rs = 10 \<and> list_all success rs \<and>
    h_trace h' = h_trace new_host @ es @ map2 Ran (toolchain_commands calm_ext ''/b'') rs"
  by (rule cross_build_completes [OF calm_computes calm_willing calm_md new_host_clean])

text \<open>
  A source is in the cache exactly as listed. When the step for a source returns, its archive
  is in the cache with the listed digest, and it is either the file that was there before (then
  nothing was requested) or the complete body of one reply with status 200; a cached archive with
  another digest is replaced. No other file changes.
\<close>

theorem fetch_source_verifies:
  assumes "computes X D" "\<not> placeholder (s_sha256 s)" "fetch_source X c s h = (Inr (), h')"
  shows "only_file (tarball_path c s) h h' \<and> obtained X D (tarball_path c s) s h h'"
  using fetch_source_result(1,3) [OF assms] by simp

theorem fetch_source_verifies_witness:
  "\<exists>h'. fetch_source calm_ext (cache_path ''/b'') (SOURCES ! 2)
      (new_host\<lparr>h_fs := [tarball_path (cache_path ''/b'') (SOURCES ! 2) \<mapsto> File [1]]\<rparr>) = (Inr (), h') \<and>
    obtained calm_ext (\<lambda>bs. bs) (tarball_path (cache_path ''/b'') (SOURCES ! 2)) (SOURCES ! 2)
      (new_host\<lparr>h_fs := [tarball_path (cache_path ''/b'') (SOURCES ! 2) \<mapsto> File [1]]\<rparr>) h'"
proof -
  let ?s = "SOURCES ! 2" and ?c = "cache_path ''/b''"
  let ?h = "new_host\<lparr>h_fs := [tarball_path ?c ?s \<mapsto> File [1]]\<rparr>"
  have s: "?s \<in> set SOURCES" by (rule nth_mem) (simp add: SOURCES_def)
  have "clean ''/b'' (h_fs ?h)"
    by (rule clean_write [OF new_host_clean [of "''/b''"] s]) (simp_all add: new_host_def)
  then obtain h' where h': "fetch_source calm_ext ?c ?s ?h = (Inr (), h')"
    using fetch_source_returns [OF calm_computes calm_willing s, of "''/b''" ?h] by blast
  with fetch_source_verifies [OF calm_computes SOURCES_digests [OF s] h'] show ?thesis by blast
qed

text \<open>
  Work is not repeated. If all archives are in the cache with their listed digests and were
  unpacked, preparing the sources requests nothing, starts no program and changes no file.
\<close>

theorem present_sources_untouched:
  assumes "computes X D" "obliging X"
    and "list_all (\<lambda>s. in_cache X D (cache_path md) (h_fs h) s \<and> unpacked_in (cache_path md) (h_fs h) s) SOURCES"
  shows "\<exists>h'. prepare_sources X md h = (Inr (), h') \<and> same_but_output h h'"
  unfolding prepare_sources_def
  by (rule prepare_seq_present [OF assms(1,2)])
    (use assms(3) SOURCES_digests in \<open>auto simp: list_all_iff\<close>)

theorem present_sources_untouched_witness:
  "\<exists>h'. prepare_sources calm_ext ''/b'' (new_host\<lparr>h_fs := full_cache\<rparr>) = (Inr (), h') \<and>
    same_but_output (new_host\<lparr>h_fs := full_cache\<rparr>) h'"
  by (rule present_sources_untouched [OF calm_computes calm_obliging(1)])
    (simp add: list_all_iff full_cache_present)

text \<open>
  C38: A patch that fails is not tried again. The step for a source unpacks it and panics because
  \<open>patch\<close> fails; the directory stays, so the same step in the next run takes the source as prepared
  and returns, and the sources that are built are the ones the failing program left.
\<close>

theorem failed_patch_not_repeated:
  fixes X :: "'d ext" and s :: source and md :: string
  defines "c \<equiv> cache_path md"
  assumes D: "computes X D" and np: "\<not> placeholder (s_sha256 s)" and ob: "obliging X"
    and start: "h_fs h (tarball_path c s) = Some (File bs)" "x_hex X (D bs) = s_sha256 s" "\<not> unpacked_in c (h_fs h) s"
    and unpack: "\<And>k. h_fs k = h_fs h \<Longrightarrow> x_unpack X k (s_format s) bs c = (True, f)"
      "f (path_join md (s_name s @ ''.patch'')) \<noteq> None"
    and patch: "\<And>k. h_fs k = f \<Longrightarrow> x_exec X k (source_patch md s) = (r, g)" "\<not> success r"
      "in_cache X D c g s" "unpacked_in c g s"
  shows "\<exists>e k h'. prepare_source X md c s h = (Inl e, k) \<and> prepare_source X md c s k = (Inr (), h') \<and>
    h_fs h' = g \<and> h_trace h' = h_trace h @ [Unpacked (s_format s) bs c, Ran (source_patch md s) r]"
proof -
  let ?pf = "path_join md (s_name s @ ''.patch'')" and ?d = "path_join c (s_dir_name s)"
  have cached: "in_cache X D c (h_fs h) s" using start by (simp add: in_cache_def)
  obtain k where k: "fetch_source X c s h = (Inr (), k)" "h_fs k = h_fs h" "h_trace k = h_trace h"
    using fetch_source_cached [OF D np ob cached] by (auto simp: same_but_output_def)
  let ?k = "k\<lparr>h_out := h_out k @ [Extracting (s_name s)]\<rparr>"
  define l where "l = ?k\<lparr>h_fs := f, h_trace := h_trace h @ [Unpacked (s_format s) bs c]\<rparr>"
  have ex: "extract_archive X (tarball_path c s) c (s_format s) ?k = (Inr (), l)"
    using ob start(1) unpack(1) [of ?k] k
    by (simp add: extract_archive_def open_file_def hbind_def unpack_tar_def obliging_def l_def)
  obtain e m where m: "apply_patch X ?pf ?d (l\<lparr>h_out := h_out l @ [ExtractedTo (s_name s) ?d]\<rparr>) = (Inl e, m)"
      "h_fs m = g" "h_trace m = h_trace h @ [Unpacked (s_format s) bs c, Ran (source_patch md s) r]"
    using apply_patch_failed [of X "l\<lparr>h_out := h_out l @ [ExtractedTo (s_name s) ?d]\<rparr>" ?pf ?d r g] patch(1,2)
    by (auto simp: l_def source_patch_def c_def)
  have "unpack_source X md c s k = (Inl e, m)"
    using start(3) k(2) ob unpack(2) ex m(1)
    by (simp add: unpack_source_def Let_def host_simps unpacked_in_def obliging_def hthen_ok l_def)
  then have first: "prepare_source X md c s h = (Inl e, m)"
    using k(1) by (simp add: prepare_source_def hthen_ok)
  obtain h' where "prepare_source X md c s m = (Inr (), h')" "same_but_output m h'"
    using prepare_source_present [OF D np ob, of c m md] patch(3,4) m(2) by auto
  then show ?thesis using first m by (auto simp: same_but_output_def)
qed

theorem failed_patch_not_repeated_witness:
  "\<exists>e k h'. prepare_source rejecting_ext ''/b'' (cache_path ''/b'') (SOURCES ! 2)
        (new_host\<lparr>h_fs := [tarball_path (cache_path ''/b'') (SOURCES ! 2) \<mapsto> File (char_bytes (s_sha256 (SOURCES ! 2)))]\<rparr>)
      = (Inl e, k) \<and>
    prepare_source rejecting_ext ''/b'' (cache_path ''/b'') (SOURCES ! 2) k = (Inr (), h')"
proof -
  let ?s = "SOURCES ! 2" and ?c = "cache_path ''/b''" and ?X = rejecting_ext
  let ?h = "new_host\<lparr>h_fs := [tarball_path ?c ?s \<mapsto> File (char_bytes (s_sha256 ?s))]\<rparr>"
  let ?f = "full_cache(''/b/mlibc.patch'' \<mapsto> File [1])"
  have s: "?s \<in> set SOURCES" by (rule nth_mem) (simp add: length_SOURCES)
  have names: "tarball_path ?c ?s = ''/b/cache/mlibc.tar.gz''"
      "path_join ?c (s_dir_name ?s) = ''/b/cache/mlibc-6.3.1''"
      "path_join ''/b'' (s_name ?s @ ''.patch'') = ''/b/mlibc.patch''"
    by (simp_all add: SOURCES_def tarball_path_def cache_path_def path_join_def)
  have "in_cache ?X (\<lambda>bs. bs) ?c ?f ?s" "unpacked_in ?c ?f ?s"
    using full_cache_lookup [of 2]
    by (simp_all add: in_cache_def unpacked_in_def names rejecting_ext_def calm_ext_def)
  then show ?thesis
    using failed_patch_not_repeated [OF rejecting_computes SOURCES_digests [OF s] calm_obliging(2),
      where h = ?h and md = "''/b''" and bs = "char_bytes (s_sha256 ?s)" and f = ?f and r = "Ended (Some 1) [] []" and g = ?f]
    by (simp add: names unpacked_in_def) (auto simp: rejecting_ext_def calm_ext_def)
qed

end
