(* ===== verification/Disk_Image.thy ===== *)
theory Disk_Image
  imports Cross_Build
begin

text \<open>
  From the user program to the running machine: \<open>src/user/build.rs\<close> compiles \<open>init.c\<close> with the
  cross compiler, \<open>src/build.rs\<close> makes the disk images that hold the kernel and this program, and
  the runner \<open>src/src/main.rs\<close> starts one of them in QEMU.
\<close>

section \<open>The user program\<close>

definition compiler_command :: "'d ext \<Rightarrow> string \<Rightarrow> command" where
  "compiler_command X manifest_dir =
    (let compiler_bin = path_join manifest_dir ''cross/tools/usr/bin'';
         current_path = (case x_var X ''PATH'' of None \<Rightarrow> [] | Some p \<Rightarrow> p) in
     \<lparr> c_prog = ''x86_64-bayos-gcc'',
       c_args = [path_join manifest_dir ''init.c'', ''-o'', path_join manifest_dir ''init''],
       c_dir = None, c_env = [(''PATH'', compiler_bin @ '':'' @ current_path)] \<rparr>)"

text \<open>The path of the compiler in a line that tells Cargo when to compile again.\<close>

definition watched_compiler :: string where
  "watched_compiler = ''cross/tools/user/bin/x86_64-bayos-gcc''"

definition user_main :: "'d ext \<Rightarrow> unit act" where
  "user_main X =
    (case x_var X ''CARGO_MANIFEST_DIR'' of
       None \<Rightarrow> hpanic UnwrapFailed
     | Some manifest_dir \<Rightarrow>
         hthen (run_command X (compiler_command X manifest_dir)
             ''Failed to run x86_64-bayos-gcc'' ''x86_64-bayos-gcc failed to compile init.c'')
           (hprints [Line ''cargo:rerun-if-changed=init.c'',
                     Line (''cargo:rerun-if-changed='' @ watched_compiler),
                     Line ''cargo:rerun-if-changed=cross/sysroot/usr/lib/libc.a'']))"

section \<open>The disk images\<close>

text \<open>
  The crate \<open>bootloader\<close> is a parameter: for a kind of firmware it gets the paths of the kernel,
  the ramdisk and the image, fails or not, and changes the file system.
\<close>

datatype firmware = UefiBoot | BiosBoot

type_synonym bootloader = "firmware \<Rightarrow> host \<Rightarrow> string \<Rightarrow> string \<Rightarrow> string \<Rightarrow> bool \<times> fs"

definition create_disk_image :: "bootloader \<Rightarrow> firmware \<Rightarrow> string \<Rightarrow> string \<Rightarrow> string \<Rightarrow> unit act" where
  "create_disk_image B fw kernel_bin ramdisk img_path = (\<lambda>h.
    case B fw h kernel_bin ramdisk img_path of (ok, f) \<Rightarrow>
      (if ok then Inr () else Inl UnwrapFailed, h\<lparr>h_fs := f\<rparr>))"

definition build_main :: "'d ext \<Rightarrow> bootloader \<Rightarrow> unit act" where
  "build_main X B =
    (case x_var X ''OUT_DIR'' of
       None \<Rightarrow> hpanic UnwrapFailed
     | Some out_dir \<Rightarrow>
    (case x_var X ''CARGO_BIN_FILE_KERNEL_kernel'' of
       None \<Rightarrow> hpanic UnwrapFailed
     | Some kernel_bin \<Rightarrow>
         let uefi_path = path_join out_dir ''uefi.img''; bios_path = path_join out_dir ''bios.img'' in
         hthen (create_disk_image B UefiBoot kernel_bin ''user/init'' uefi_path)
           (hthen (create_disk_image B BiosBoot kernel_bin ''user/init'' bios_path)
             (hprints [Line (''cargo:rustc-env=UEFI_PATH='' @ uefi_path),
                       Line (''cargo:rustc-env=BIOS_PATH='' @ bios_path)]))))"

section \<open>The runner\<close>

text \<open>Lower case of an argument; only ASCII letters matter for the comparisons that follow.\<close>

definition to_lower :: "char \<Rightarrow> char" where
  "to_lower c = (if 65 \<le> (of_char c :: nat) \<and> (of_char c :: nat) \<le> 90 then char_of (of_char c + 32 :: nat) else c)"

datatype mode = Boot firmware | Help | Usage

definition parse_mode :: "string option \<Rightarrow> mode" where
  "parse_mode arg =
    (case map_option (map to_lower) arg of
       None \<Rightarrow> Usage
     | Some s \<Rightarrow>
         if s = ''uefi'' then Boot UefiBoot
         else if s = ''bios'' then Boot BiosBoot
         else if s = ''-h'' \<or> s = ''--help'' then Help
         else Usage)"

text \<open>The firmware files of the crate \<open>ovmf_prebuilt\<close>: fetching fails, or gives code and variables.\<close>

record ovmf_files =
  ovmf_code :: string
  ovmf_vars :: string

type_synonym ovmf = "host \<Rightarrow> ovmf_files option"

definition qemu_command :: "string list \<Rightarrow> command" where
  "qemu_command drives =
    \<lparr> c_prog = ''qemu-system-x86_64'', c_args = [''-monitor'', ''stdio''] @ concat (map (\<lambda>d. [''-drive'', d]) drives),
      c_dir = None, c_env = [] \<rparr>"

definition uefi_drives :: "string \<Rightarrow> ovmf_files \<Rightarrow> string list" where
  "uefi_drives uefi_path files =
    [''format=raw,file='' @ uefi_path,
     ''if=pflash,format=raw,unit=0,file='' @ ovmf_code files @ '',readonly=on'',
     ''if=pflash,format=raw,unit=1,file='' @ ovmf_vars files @ '',snapshot=on'']"

definition bios_drives :: "string \<Rightarrow> string list" where
  "bios_drives bios_path = [''format=raw,file='' @ bios_path]"

text \<open>The value of the last expression of \<open>main\<close>, which is discarded by the semicolon behind it.\<close>

definition qemu_verdict :: "nat option \<Rightarrow> nat" where
  "qemu_verdict code =
    (let c = (case code of None \<Rightarrow> 1 | Some c \<Rightarrow> c) in
     if c = 0x10 then 0 else if c = 0x11 then 1 else 2)"

text \<open>\<open>spawn\<close> and \<open>wait\<close>; waiting for a child that was started and not yet waited for does not fail.\<close>

definition start_qemu :: "'d ext \<Rightarrow> string list \<Rightarrow> nat act" where
  "start_qemu X drives =
    hbind (spawn X (qemu_command drives)) (\<lambda>r.
      case r of
        SpawnFailed \<Rightarrow> hpanic (Expect ''failed to start qemu-system-x86_64'')
      | Ended code _ _ \<Rightarrow> (let verdict = qemu_verdict code in hret 0))"

text \<open>\<open>main\<close> of the runner; the result is the exit code of the process.\<close>

definition runner_main :: "'d ext \<Rightarrow> ovmf \<Rightarrow> string \<Rightarrow> string \<Rightarrow> string list \<Rightarrow> nat act" where
  "runner_main X P uefi_path bios_path args =
    (case args of
       [] \<Rightarrow> hpanic IndexOutOfBounds
     | prog # rest \<Rightarrow>
         (case parse_mode (case rest of [] \<Rightarrow> None | a # _ \<Rightarrow> Some a) of
            Help \<Rightarrow>
              hthen (hprints [Line (''Usage: '' @ prog @ '' [uefi|bios]''),
                              Line ''  uefi  - boot using OVMF (UEFI)'',
                              Line ''  bios  - boot using legacy BIOS''])
                (hret 0)
          | Usage \<Rightarrow> hthen (hprint (ErrLine (''Usage: '' @ prog @ '' [uefi|bios]''))) (hret 1)
          | Boot UefiBoot \<Rightarrow>
              (\<lambda>h. case P h of
                 None \<Rightarrow> (Inl (Expect ''failed to update prebuilt''), h)
               | Some files \<Rightarrow> start_qemu X (uefi_drives uefi_path files) h)
          | Boot BiosBoot \<Rightarrow> start_qemu X (bios_drives bios_path)))"

section \<open>What the steps leave for each other\<close>

text \<open>
  Cargo hands the value of the last line \<open>cargo:rustc-env=NAME=...\<close> of a build script to \<open>env!\<close>
  in the program that is compiled.
\<close>

definition env_prefix :: "string \<Rightarrow> string" where
  "env_prefix name = ''cargo:rustc-env='' @ name @ ''=''"

fun env_line :: "string \<Rightarrow> line \<Rightarrow> string option" where
  "env_line name (Line s) =
    (if take (length (env_prefix name)) s = env_prefix name then Some (drop (length (env_prefix name)) s) else None)"
| "env_line name _ = None"

definition rustc_env :: "string \<Rightarrow> line list \<Rightarrow> string option" where
  "rustc_env name ls = (case List.map_filter (env_line name) (rev ls) of [] \<Rightarrow> None | v # _ \<Rightarrow> Some v)"

text \<open>
  The documented behaviour of the bootloader crate: the image is a function of the firmware, the
  kernel and the ramdisk; relative paths start in the directory of the package.
\<close>

definition makes_images :: "bootloader \<Rightarrow> string \<Rightarrow> (firmware \<Rightarrow> bytes \<Rightarrow> bytes \<Rightarrow> bytes) \<Rightarrow> bool" where
  "makes_images B root img \<longleftrightarrow>
    (\<forall>fw h k r i kb rb. h_fs h (path_join root k) = Some (File kb) \<longrightarrow> h_fs h (path_join root r) = Some (File rb) \<longrightarrow>
      B fw h k r i = (True, (h_fs h)(path_join root i \<mapsto> File (img fw kb rb))))"

definition image_name :: "firmware \<Rightarrow> string" where
  "image_name fw = (case fw of UefiBoot \<Rightarrow> ''uefi.img'' | BiosBoot \<Rightarrow> ''bios.img'')"

definition env_name :: "firmware \<Rightarrow> string" where
  "env_name fw = (case fw of UefiBoot \<Rightarrow> ''UEFI_PATH'' | BiosBoot \<Rightarrow> ''BIOS_PATH'')"

lemma makes_imagesD:
  "makes_images B root img \<Longrightarrow> h_fs h (path_join root k) = Some (File kb) \<Longrightarrow>
    h_fs h (path_join root r) = Some (File rb) \<Longrightarrow>
    create_disk_image B fw k r i h = (Inr (), h\<lparr>h_fs := (h_fs h)(path_join root i \<mapsto> File (img fw kb rb))\<rparr>)"
  unfolding makes_images_def create_disk_image_def by simp

lemma start_qemu_run:
  "start_qemu X ds h = (case x_exec X h (qemu_command ds) of (r, f) \<Rightarrow>
     (if r = SpawnFailed then Inl (Expect ''failed to start qemu-system-x86_64'') else Inr 0,
      h\<lparr>h_fs := f, h_trace := h_trace h @ [Ran (qemu_command ds) r]\<rparr>))"
  by (auto simp: start_qemu_def spawn_def hbind_def host_simps split: prod.split reply.split)

lemma user_init_path:
  "path_join (path_join root ''user'') ''init'' = path_join root ''user/init''"
  by (simp add: path_join_rel)

lemma user_main_returns:
  assumes "x_var X ''CARGO_MANIFEST_DIR'' = Some md" "x_exec X h (compiler_command X md) = (Ended (Some 0) a b, f)"
  shows "\<exists>h'. user_main X h = (Inr (), h') \<and> h_fs h' = f \<and> h_trace h' = h_trace h @ [Ran (compiler_command X md) (Ended (Some 0) a b)]"
  using assms by (simp add: user_main_def run_command_run hthen_def hbind_def host_simps)

lemma rustc_env_values:
  "rustc_env ''UEFI_PATH'' (ls @ [Line (''cargo:rustc-env=UEFI_PATH='' @ u), Line (''cargo:rustc-env=BIOS_PATH='' @ b)]) = Some u"
  "rustc_env ''BIOS_PATH'' (ls @ [Line (''cargo:rustc-env=UEFI_PATH='' @ u), Line (''cargo:rustc-env=BIOS_PATH='' @ b)]) = Some b"
  by (simp_all add: rustc_env_def env_prefix_def List.map_filter_def)

text \<open>The images a build leaves, under the names it hands to the runner.\<close>

lemma build_main_returns:
  assumes v: "x_var X ''OUT_DIR'' = Some out" "x_var X ''CARGO_BIN_FILE_KERNEL_kernel'' = Some k"
    and B: "makes_images B root img"
    and fs: "h_fs h (path_join root k) = Some (File kb)" "h_fs h (path_join root ''user/init'') = Some (File rb)"
    and ne: "path_join root (path_join out ''uefi.img'') \<notin> {path_join root k, path_join root ''user/init''}"
  shows "\<exists>h'. build_main X B h = (Inr (), h') \<and> h_trace h' = h_trace h \<and>
    rustc_env ''UEFI_PATH'' (h_out h') = Some (path_join out ''uefi.img'') \<and>
    rustc_env ''BIOS_PATH'' (h_out h') = Some (path_join out ''bios.img'') \<and>
    h_fs h' = (h_fs h)(path_join root (path_join out ''uefi.img'') \<mapsto> File (img UefiBoot kb rb),
                       path_join root (path_join out ''bios.img'') \<mapsto> File (img BiosBoot kb rb))"
proof -
  let ?u = "path_join out ''uefi.img''" and ?b = "path_join out ''bios.img''"
  let ?h = "h\<lparr>h_fs := (h_fs h)(path_join root ?u \<mapsto> File (img UefiBoot kb rb))\<rparr>"
  have 1: "create_disk_image B UefiBoot k ''user/init'' ?u h = (Inr (), ?h)"
    by (rule makes_imagesD [OF B fs])
  have 2: "create_disk_image B BiosBoot k ''user/init'' ?b ?h =
      (Inr (), ?h\<lparr>h_fs := (h_fs ?h)(path_join root ?b \<mapsto> File (img BiosBoot kb rb))\<rparr>)"
    by (rule makes_imagesD [OF B]) (use fs ne in auto)
  show ?thesis
    using v by (simp add: build_main_def Let_def hthen_ok 1 2 host_simps rustc_env_values del: append.simps)
qed

text \<open>A concrete build: the compiler and the bootloader write their outputs.\<close>

definition compiling_ext :: "bytes ext" where
  "compiling_ext = calm_ext\<lparr>
    x_var := [''CARGO_MANIFEST_DIR'' \<mapsto> ''/r/user'', ''OUT_DIR'' \<mapsto> ''/o'', ''CARGO_BIN_FILE_KERNEL_kernel'' \<mapsto> ''/k''],
    x_exec := (\<lambda>h c. (Ended (Some 0) [] [], [''/r/user/init'' \<mapsto> File [1], ''/k'' \<mapsto> File [2]]))\<rparr>"

definition joining_boot :: bootloader where
  "joining_boot fw h k r i =
    (case h_fs h (path_join ''/r'' k) of
       Some (File kb) \<Rightarrow>
         (case h_fs h (path_join ''/r'' r) of
            Some (File rb) \<Rightarrow> (True, (h_fs h)(path_join ''/r'' i \<mapsto> File (kb @ rb)))
          | _ \<Rightarrow> (False, h_fs h))
     | _ \<Rightarrow> (False, h_fs h))"

lemma joining_makes_images: "makes_images joining_boot ''/r'' (\<lambda>fw kb rb. kb @ rb)"
  by (simp add: makes_images_def joining_boot_def)

section \<open>Properties\<close>

text \<open>
  C29: What is compiled is what is booted. If the compiler writes a program to the place it is told
  to, the build scripts of the user program and of the images return one after the other, and the
  runner, started with the name of a firmware in any case, starts QEMU with the image for this
  firmware as its first drive, which holds the kernel and that program as ramdisk.
\<close>

theorem built_program_is_booted:
  assumes user: "x_var Xu ''CARGO_MANIFEST_DIR'' = Some (path_join root ''user'')"
      "x_exec Xu h (compiler_command Xu (path_join root ''user'')) = (Ended (Some 0) o1 o2, f)"
      "f (path_join root ''user/init'') = Some (File rb)"
    and build: "x_var Xb ''OUT_DIR'' = Some out" "x_var Xb ''CARGO_BIN_FILE_KERNEL_kernel'' = Some k"
      "f (path_join root k) = Some (File kb)" "makes_images B root img"
      "path_join root (path_join out ''uefi.img'') \<notin> {path_join root k, path_join root ''user/init''}"
    and run: "parse_mode (Some arg) = Boot fw" "\<And>h. P h \<noteq> None"
  shows "\<exists>h1 h2 u b v ds r. user_main Xu h = (Inr (), h1) \<and> build_main Xb B h1 = (Inr (), h2) \<and>
    rustc_env ''UEFI_PATH'' (h_out h2) = Some u \<and> rustc_env ''BIOS_PATH'' (h_out h2) = Some b \<and>
    rustc_env (env_name fw) (h_out h2) = Some v \<and>
    h_trace (snd (runner_main Xq P u b [prog, arg] h2)) = h_trace h2 @ [Ran (qemu_command ds) r] \<and>
    hd ds = ''format=raw,file='' @ v \<and> h_fs h2 (path_join root v) = Some (File (img fw kb rb))"
proof -
  let ?u = "path_join out ''uefi.img''" and ?b = "path_join out ''bios.img''"
  obtain h1 where h1: "user_main Xu h = (Inr (), h1)" "h_fs h1 = f"
    using user_main_returns [OF user(1,2)] by blast
  obtain h2 where h2: "build_main Xb B h1 = (Inr (), h2)"
      "rustc_env ''UEFI_PATH'' (h_out h2) = Some ?u" "rustc_env ''BIOS_PATH'' (h_out h2) = Some ?b"
      "h_fs h2 = f(path_join root ?u \<mapsto> File (img UefiBoot kb rb), path_join root ?b \<mapsto> File (img BiosBoot kb rb))"
    using build_main_returns [OF build(1,2,4), of h1] user(3) build(3,5) h1(2) by auto
  have ub: "path_join root ?u \<noteq> path_join root ?b"
    by (simp add: path_join_def)
  obtain files where files: "P h2 = Some files" using run(2) [of h2] by auto
  define ds where "ds = (case fw of UefiBoot \<Rightarrow> uefi_drives ?u files | BiosBoot \<Rightarrow> bios_drives ?b)"
  define v where "v = (case fw of UefiBoot \<Rightarrow> ?u | BiosBoot \<Rightarrow> ?b)"
  have "\<exists>r. h_trace (snd (runner_main Xq P ?u ?b [prog, arg] h2)) = h_trace h2 @ [Ran (qemu_command ds) r]"
    using run(1) files
    by (cases fw) (auto simp: runner_main_def start_qemu_run ds_def split: prod.split)
  moreover have "hd ds = ''format=raw,file='' @ v" "rustc_env (env_name fw) (h_out h2) = Some v"
      "h_fs h2 (path_join root v) = Some (File (img fw kb rb))"
    using h2(2-4) ub by (cases fw; simp add: ds_def v_def uefi_drives_def bios_drives_def env_name_def)+
  ultimately show ?thesis using h1(1) h2(1-3) by blast
qed

theorem built_program_is_booted_witness:
  "\<exists>h1 h2 u b v ds r. user_main compiling_ext new_host = (Inr (), h1) \<and>
    build_main compiling_ext joining_boot h1 = (Inr (), h2) \<and>
    rustc_env ''UEFI_PATH'' (h_out h2) = Some u \<and> rustc_env ''BIOS_PATH'' (h_out h2) = Some b \<and>
    rustc_env (env_name BiosBoot) (h_out h2) = Some v \<and>
    h_trace (snd (runner_main compiling_ext (\<lambda>_. Some \<lparr> ovmf_code = ''c'', ovmf_vars = ''v'' \<rparr>) u b [''os'', ''BIOS''] h2)) =
      h_trace h2 @ [Ran (qemu_command ds) r] \<and>
    hd ds = ''format=raw,file='' @ v \<and> h_fs h2 (path_join ''/r'' v) = Some (File [2, 1])"
proof -
  have m: "parse_mode (Some ''BIOS'') = Boot BiosBoot" by code_simp
  have p: "path_join ''/r'' ''user'' = ''/r/user''" "path_join ''/r'' ''user/init'' = ''/r/user/init''"
      "path_join ''/r'' ''/k'' = ''/k''" "path_join ''/r'' (path_join ''/o'' ''uefi.img'') = ''/o/uefi.img''"
    by (simp_all add: path_join_def)
  show ?thesis
    using built_program_is_booted [where root = "''/r''" and Xu = compiling_ext and Xb = compiling_ext
        and Xq = compiling_ext and h = new_host and f = "[''/r/user/init'' \<mapsto> File [1], ''/k'' \<mapsto> File [2]]"
        and rb = "[1]" and kb = "[2]" and out = "''/o''" and k = "''/k''" and B = joining_boot and prog = "''os''"
        and P = "\<lambda>_. Some \<lparr> ovmf_code = ''c'', ovmf_vars = ''v'' \<rparr>", OF _ _ _ _ _ _ joining_makes_images _ m]
    unfolding p by (simp add: compiling_ext_def)
qed

text \<open>
  The runner hides how the machine ended. Whatever QEMU reports, success (16), failure (17) or
  anything else, the exit code of the runner is 0; the value that \<open>main\<close> computes from the report
  distinguishes the three and is dropped.
\<close>

theorem runner_discards_verdict:
  assumes "parse_mode (Some arg) = Boot fw" "P h = Some files"
    and "\<And>c. \<exists>a b f. x_exec X h c = (Ended code a b, f)"
  shows "fst (runner_main X P u b [prog, arg] h) = Inr 0 \<and>
    qemu_verdict (Some 16) = 0 \<and> qemu_verdict (Some 17) = 1 \<and> qemu_verdict None = 2"
proof -
  obtain ds where ds: "runner_main X P u b [prog, arg] h = start_qemu X ds h"
    using assms(1,2) by (cases fw) (auto simp: runner_main_def)
  obtain x y f where "x_exec X h (qemu_command ds) = (Ended code x y, f)" using assms(3) by blast
  then show ?thesis unfolding ds start_qemu_run by (simp add: qemu_verdict_def)
qed

theorem runner_discards_verdict_witness:
  "fst (runner_main rejecting_ext (\<lambda>_. Some \<lparr> ovmf_code = ''c'', ovmf_vars = ''v'' \<rparr>) ''u'' ''b'' [''os'', ''UEFI''] new_host) = Inr 0"
proof -
  have "parse_mode (Some ''UEFI'') = Boot UefiBoot" by code_simp
  from runner_discards_verdict [OF this, where P = "\<lambda>_. Some \<lparr> ovmf_code = ''c'', ovmf_vars = ''v'' \<rparr>"
      and X = rejecting_ext and h = new_host and code = "Some 1" and u = "''u''" and b = "''b''" and prog = "''os''"]
  show ?thesis by (simp add: rejecting_ext_def)
qed

text \<open>
  The user program is compiled with the compiler this repository builds. The directory that is
  searched first is the one into which the script for the cross compiler installs GCC (its
  \<open>DESTDIR\<close> with the prefix \<open>/usr\<close>), and the compiler is started under the name GCC has for the
  configured target. The file that is to trigger a rebuild is not in that directory.
\<close>

theorem user_build_finds_compiler:
  "\<exists>rest. map_of (c_env (compiler_command X md)) ''PATH'' =
      Some (the (map_of (c_env (install_gcc Y (path_join md ''cross''))) ''DESTDIR'') @ ''/usr/bin:'' @ rest) \<and>
    ''--target='' @ take 12 (c_prog (compiler_command X md)) \<in> set (c_args (configure_gcc Y (path_join md ''cross''))) \<and>
    ''--prefix=/usr'' \<in> set (c_args (configure_gcc Y (path_join md ''cross''))) \<and>
    path_join md watched_compiler \<noteq>
      the (map_of (c_env (install_gcc Y (path_join md ''cross''))) ''DESTDIR'') @ ''/usr/bin/'' @ c_prog (compiler_command X md)"
  by (simp add: compiler_command_def install_gcc_def configure_gcc_def tools_path_def path_join_rel
      watched_compiler_def Let_def)

end
