(* ===== verification/Spec2Isabelle.thy ===== *)
theory Spec2Isabelle
  imports Syscall Syscall_Entry Kernel_Thread Boot Disk_Image
begin

text \<open>
  Verification of bayos: a small x86-64 kernel in Rust (\<open>src/kernel/src\<close>) with a heap, a frame
  allocator, preemptive processes, an ELF loader, three system calls, a keyboard, and a log on the
  framebuffer; and the programs beside it that build its cross compiler, its user program and its
  disk images and start them (\<open>src/user/cross/build.rs\<close>, \<open>src/user/build.rs\<close>, \<open>src/build.rs\<close>,
  \<open>src/src/main.rs\<close>).

  \<^bold>\<open>The program.\<close> \<open>kernel_main\<close> (\<open>main.rs\<close>) initialises the parts in order: the logger
  (\<open>framebuffer.rs\<close>), segments (\<open>gdt.rs\<close>), the interrupt table (\<open>int.rs\<close>), page table and boot frame
  allocator (\<open>memory.rs\<close>), the heap (\<open>allocator.rs\<close>), the interrupt controllers (\<open>int.rs\<close>, which
  finds them through the ACPI handler of \<open>acpi.rs\<close>), the scheduler (\<open>sched.rs\<close>), the bitmap frame
  allocator, the system call registers (\<open>syscall.rs\<close>), and the first user process (\<open>sched.rs\<close>,
  \<open>elf.rs\<close>). From then on everything happens in interrupts and system calls: the timer switches
  contexts through \<open>schedule\<close>, the keyboard writes the input pipe (\<open>vfs/pipe.rs\<close>), and the processes
  read it, print and allocate memory. The shared state is a set of global cells behind spin locks.
  On the development machine, the script of the cross compiler fetches, verifies, unpacks and
  patches GCC, binutils and mlibc and builds them; the compiler makes the user program \<open>init\<close>, which
  goes with the kernel into two disk images, and the runner starts QEMU with one of them.

  \<^bold>\<open>The theories.\<close>
  \<^item> \<open>Prelude\<close>: machine integers, panics as values (\<open>res\<close>), calls that may never return (\<open>run\<close>,
    where \<open>None\<close> is not returning), overflow-checked arithmetic, lemmas on words and intervals.
  \<^item> \<open>X86_Addr\<close>, \<open>Spin_Lock\<close>: the parameters for the crates \<open>x86_64\<close> and \<open>spinning_top\<close>, with what
    they document.
  \<^item> \<open>Heap_Allocator\<close>: \<open>LinkedListAllocator\<close> on an explicit store of list nodes; the abstract
    first-fit allocator it refines; the locale \<open>global_alloc\<close>, interpreted by the kernel's heap.
  \<^item> \<open>Frame_Allocator\<close>: both frame allocators; the locale \<open>frame_source\<close>, interpreted by each.
  \<^item> \<open>Paging\<close>: the mapping loop shared by three callers, proved once in \<open>frame_source\<close>; \<open>init_heap\<close>.
  \<^item> \<open>Pipe\<close>: pipes and their interleavings with interrupts; the interface of files as a locale.
  \<^item> \<open>Sched\<close>: processes, locks, \<open>schedule\<close>; the contract \<open>round_robin\<close>, interpreted by \<open>schedule\<close>; the
    step relation of the scheduler and its invariant.
  \<^item> \<open>Context\<close>: the naked \<open>timer_handler\<close> as an instruction list on a CPU with memory.
  \<^item> \<open>Framebuffer\<close>: pixels, glyphs, lines, the logger and the panic handler; the locale \<open>fmt_write\<close>.
  \<^item> \<open>Segments\<close>: descriptor table, task state segment, \<open>syscall::init\<close>.
  \<^item> \<open>Syscall\<close>, \<open>Syscall_Entry\<close>: the three calls with their dispatch, reads and writes with the
    interrupts that arrive during them; the entry in assembly.
  \<^item> \<open>Elf\<close>, \<open>Loader\<close>: the packed ELF structures and \<open>add_user_process\<close> on byte memory.
  \<^item> \<open>Kernel_Thread\<close>: \<open>add_process\<close> with its stack on the kernel heap.
  \<^item> \<open>Phys_Window\<close>: \<open>memory::init\<close>, \<open>get_virtual_address\<close>, the ACPI handler.
  \<^item> \<open>Interrupts\<close>: the interrupt table, every exception handler, the keyboard handler.
  \<^item> \<open>Apic\<close>: \<open>init_apic\<close> over a trace of device accesses.
  \<^item> \<open>Boot\<close>: \<open>kernel_main\<close> composed of all of these.
  \<^item> \<open>Host\<close>: the development machine: files that survive a panic, downloads, unpacked archives and
    started programs as a sequence of events; total correctness (\<open>completes\<close>) and events
    (\<open>causes\<close>) of composed operations; the locale \<open>stage\<close>, the contract of a build stage that runs
    programs in order.
  \<^item> \<open>Cross_Build\<close>: the script of the cross compiler, with \<open>stage\<close> interpreted by \<open>build_toolchain\<close>.
  \<^item> \<open>Disk_Image\<close>: the build scripts of the user program and of the images, and the runner.
  \<^item> This theory: the properties that span interrupts, system calls and the scheduler.

  \<^bold>\<open>What is shown.\<close> Memory: heap clients never overlap, every sequence of valid requests ends, with
  a panic only for an alignment of \<open>2^32\<close> and more or a size next to the largest possible; frames
  have one owner at a time and the second frame allocator starts where the first stopped; heap,
  program, stack and anonymous pages are mapped to fresh frames, while there are any, and nothing
  else changes. Control: \<open>schedule\<close> refines a round robin; the timer handler saves and restores
  complete contexts, so preemption is transparent for a process whose saved context nobody
  overwrites; new threads and programs start at their entry points, with the selectors of the
  descriptor table; the system call entry passes its arguments and keeps the process's registers.
  Devices: the controllers get exactly the configuration that is stated; typed characters that fit
  the pipe reach a reading process in order, also while it waits; characters are drawn in their cells
  and nowhere else. Boot: \<open>kernel_main\<close> reaches its idle loop. Build: only archives with the listed
  digests are unpacked, whatever the server and the system do; programs run in order and only after
  success; on a willing machine the script completes; the program that was compiled is in the image
  that is booted. Where the code does not do what it means to do, the exact behaviour is proved: a
  process marked dead deadlocks the scheduler, user contexts share one stack, an exhausted frame
  allocator or a full pipe stops the kernel, the panic handler of an unsupported screen hangs, two
  interrupt lines stay unmasked, interrupts that log hang a write, a patch that failed is not tried
  again, the runner drops QEMU's result.

  \<^bold>\<open>Modelling choices.\<close> Arithmetic is that of the dev profile: an overflow is a panic, so a
  theorem that a call returns also holds for the release profile. Panics stop the machine and carry
  no state, except in the logger, whose lock matters to the panic handler. Loops that may not end
  are partial functions into an option type, so that a proof that they return is a proof of
  termination; no fuel is used. There is one CPU: code with interrupts disabled is atomic; where
  interrupts come in between, the steps are explicit (\<open>Pipe\<close>, \<open>Context\<close>), or the interrupts are an
  argument: the read and write calls run with interrupts enabled and take a function \<open>irqs\<close> that
  may change the state before each turn of the reader's loop and between the characters of a write;
  \<open>no_irq\<close> is the call that is left alone. Memory is modelled at the
  level that its code works on: list nodes for the allocator, aligned slots for saved contexts,
  bytes for the loader. Crates outside the repository are record parameters whose
  documented behaviour is a named hypothesis (\<open>x86_addr_ok\<close>, \<open>spin_ok\<close>, \<open>mapper_ok\<close>, \<open>bitvec_ok\<close>,
  \<open>array_queue_ok\<close>, \<open>font_ok\<close>, \<open>gdt_ok\<close>, \<open>star_ok\<close>), each shown to hold for a concrete instance. The
  devices are an arbitrary function of the accesses so far. On the development machine everything
  outside (system failures, server, programs, crates) is a field of the record \<open>ext\<close> and may depend
  on the whole state; its hypotheses are \<open>computes\<close> (the hashing crate), \<open>willing\<close>, \<open>obliging\<close> and
  \<open>makes_images\<close> (runs in which the bootloader crate succeeds). Paths are compared as they are written.

  \<^bold>\<open>Not modelled.\<close> The encodings inside crates (page table entries, descriptors, fonts, AML); the
  heap blocks that library containers take for themselves (vectors, reference counts, the bitmap);
  caches and the TLB; the halting loops themselves; the SSE registers, which the context switch does not
  save; faults of the kernel's own memory accesses (the copy of a segment reads beyond the file's
  part of it, on a memory that is total); interrupts while the line for an unknown system call is
  logged; writers beside the build script, so that an archive cannot change between its check and
  its unpacking. On the development machine: the texts of
  messages that hold quoted paths, decimal fractions or characters outside of ASCII (they are kept
  as their parts), the conversion of invalid UTF-8 in the output of \<open>patch\<close>, and Cargo, which runs
  the scripts. The user program itself is C (\<open>src/user/init.c\<close>).
\<close>

section \<open>From the keyboard to the process\<close>

text \<open>
  C8: what is typed is what a process reads. The pipe is empty and the characters that a sequence
  of key codes types fit it. Then the keyboard interrupts return, and a system call that reads no
  more bytes than were typed, with a writable buffer and no further key during the call, returns
  with the first of the typed characters in the buffer, in order; the others are left in the pipe.
\<close>

theorem typed_text_reaches_process:
  assumes "array_queue_ok (io_queue I) items cap" "so_queue S = io_queue I"
    "keyboard_ready (io_spin I) ik q" "items q = []"
    "length (fst (typed (io_keyboard I) (ik_keyboard ik) scs)) \<le> cap q"
    "unat cnt \<le> length (fst (typed (io_keyboard I) (ik_keyboard ik) scs))"
    "user_buffer (so_mem S) peek (sk_mapper k) buf (unat cnt)"
  shows "\<exists>ik' q' u'. key_interrupts I fr scs ik = Some (Inr ik') \<and>
    syscall_handler S (k\<lparr>sk_pipe := ik_pipe ik'\<rparr>) 0 0 buf cnt x y z =
      Some (Inr (k\<lparr>sk_pipe := Some q', sk_mem := u'\<rparr>)) \<and>
    items q' = drop (unat cnt) (fst (typed (io_keyboard I) (ik_keyboard ik) scs)) \<and>
    (\<forall>i<unat cnt. peek u' (buf + of_nat i) = fst (typed (io_keyboard I) (ik_keyboard ik) scs) ! i)"
proof -
  let ?t = "typed (io_keyboard I) (ik_keyboard ik) scs"
  have fit: "length (items q) + length (fst ?t) \<le> cap q" using assms(4,5) by simp
  obtain ik' q1 where r: "key_interrupts I fr scs ik = Some (Inr ik')" "keyboard_ready (io_spin I) ik' q1"
    "items q1 = fst ?t" "cap q1 = cap q"
    using key_interrupts_deliver [OF assms(1,3) prod.collapse [symmetric] fit, of fr] assms(4) by auto
  let ?k = "k\<lparr>sk_pipe := ik_pipe ik'\<rparr>"
  have p: "sk_pipe ?k = Some q1" using r(2) by (simp add: keyboard_ready_def)
  have Q: "array_queue_ok (so_queue S) items cap" using assms(1,2) by simp
  have b: "user_buffer (so_mem S) peek (sk_mapper ?k) buf (unat cnt)" using assms(7) by simp
  obtain q' u' where "read_syscall S ?k 0 buf cnt = Some (Inr (?k\<lparr>sk_pipe := Some q', sk_mem := u'\<rparr>))"
    "items q' = drop (unat cnt) (items q1)" "\<forall>i<unat cnt. peek u' (buf + of_nat i) = items q1 ! i"
    using read_syscall_returns [OF Q p b] assms(5,6) r(3,4) by auto
  then show ?thesis using r(1,3) by (auto simp: syscall_handler_read)
qed

theorem typed_text_reaches_process_witness:
  "\<exists>ik' q' u'. key_interrupts int_ref () [8, 0x88, 9, 0x89] sample_int = Some (Inr ik') \<and>
    syscall_handler sys_ref (sample_sys\<lparr>sk_pipe := ik_pipe ik'\<rparr>) 0 0 0x7000 2 0 0 0 =
      Some (Inr (sample_sys\<lparr>sk_pipe := Some q', sk_mem := u'\<rparr>)) \<and>
    u' 0x7000 = 72 \<and> u' 0x7001 = 73"
proof -
  have t: "fst (typed (io_keyboard int_ref) (ik_keyboard sample_int) [8, 0x88, 9, 0x89]) = [72, 73]"
    by (simp add: int_ref_def keyboard_ref_def key_of_def as_ascii_def)
  have s: "so_queue sys_ref = io_queue int_ref" "so_mem sys_ref = flat_mem"
    by (simp_all add: sys_ref_def int_ref_def)
  obtain ik' q' u' where r: "key_interrupts int_ref () [8, 0x88, 9, 0x89] sample_int = Some (Inr ik')"
    "syscall_handler sys_ref (sample_sys\<lparr>sk_pipe := ik_pipe ik'\<rparr>) 0 0 0x7000 2 0 0 0 =
      Some (Inr (sample_sys\<lparr>sk_pipe := Some q', sk_mem := u'\<rparr>))"
    "\<forall>i<unat (2 :: u64). u' (0x7000 + of_nat i) = [72, 73] ! i"
    using typed_text_reaches_process [where peek = "\<lambda>u. u" and cnt = 2 and buf = "0x7000" and k = sample_sys
        and fr = "()" and x = 0 and y = 0 and z = 0,
        OF int_ref_queue s(1) sample_int_ready, of "[8, 0x88, 9, 0x89]", unfolded t s(2)]
      flat_buffer [of "sk_mapper sample_sys" "0x7000" 2] by (auto simp del: key_interrupts.simps)
  have "u' 0x7000 = 72" "u' 0x7001 = 73" using r(3) [rule_format, of 0] r(3) [rule_format, of 1] by simp_all
  then show ?thesis using r(1,2) by blast
qed

section \<open>Interrupts during a write\<close>

text \<open>The selectors of the kernel's table, and the registers of a machine before \<open>syscall::init\<close>.\<close>

definition sample_selectors :: selectors where
  "sample_selectors = \<lparr>code_selector = 8, data_selector = 0x10, tss_selector = 0x18,
     user_data_selector = 0x2b, user_code_selector = 0x33\<rparr>"

definition reset_msr :: "unit msr" where
  "reset_msr =
     \<lparr>efer = 0, lstar = 0, star = None, fmask = 0, fs_base = 0, frame_allocator_cell = None\<rparr>"

text \<open>
  One interrupt with vector \<open>v\<close> at point \<open>n\<close> of a system call: its handler, found through the
  interrupt table, works on the pipe and the logger as the call left them; \<open>ik\<close> is the rest of the
  state of the handlers. Whether interrupts are delivered during a call depends on the flags that
  the instruction \<open>syscall\<close> leaves with the register FMASK.
\<close>

definition irq_at ::
  "('q, 'kb, 'ev, 'raw, 'f) int_ops \<Rightarrow> ('q, 'kb) intk \<Rightarrow> nat \<Rightarrow> u8 \<Rightarrow> 'f \<Rightarrow> u8 \<Rightarrow> ('m, 'b, 'q, 'u) irqs" where
  "irq_at I ik n v fr sc i k =
     (if i = n
      then runbind (raise_irq I v fr sc (ik\<lparr>ik_pipe := sk_pipe k, ik_logger := sk_logger k\<rparr>)) (\<lambda>ik'.
             Some (Inr (k\<lparr>sk_pipe := ik_pipe ik', sk_logger := ik_logger ik'\<rparr>)))
      else Some (Inr k))"

definition entry_irqs :: "'a msr \<Rightarrow> cpu \<Rightarrow> ('m, 'b, 'q, 'u) irqs \<Rightarrow> ('m, 'b, 'q, 'u) irqs" where
  "entry_irqs r c J =
     (if bit (c_rflags (syscall_instruction (lstar r) (fmask r) 8 0x10 c)) 9 then J else no_irq)"

lemma irq_at_only: "only_at n (irq_at I ik n v fr sc)"
  by (auto simp: only_at_def irq_at_def no_irq_def intro!: ext)

lemma irq_at_keeps:
  "irq_at I ik n v fr sc n k0 = Some (Inr k1) \<Longrightarrow> sk_mapper k1 = sk_mapper k0 \<and> sk_mem k1 = sk_mem k0"
  by (auto simp: irq_at_def panic_simps)

text \<open>The kernel does not write FMASK, so interrupts stay enabled if it does not mask them at reset.\<close>

lemma entry_interruptible:
  assumes "syscall_init X W sel entry fa r = Inr r'" "\<not> bit (fmask r) 9" "bit (c_rflags c) 9"
  shows "entry_irqs r' c J = J"
proof -
  have "fmask r' = fmask r"
    using assms(1) by (auto simp: syscall_init_def Let_def panic_simps split: if_splits option.splits)
  then show ?thesis using assms(2,3) by (simp add: entry_irqs_def syscall_instruction_def bit_simps)
qed

lemma irq_at_held:
  assumes "spin_ok (io_spin I)" "sk_logger k = Some lg" "lg_locked lg"
  shows "irq_at I ik n (as_u8 LapicError) fr sc n k = None" "irq_at I ik n (as_u8 Spurious) fr sc n k = None"
  using log_msg_held [OF assms(1) _ assms(3), of "ik\<lparr>ik_pipe := sk_pipe k, ik_logger := sk_logger k\<rparr>"] assms(2)
  by (simp_all add: irq_at_def raise_irq_def idt_irq_gates)

lemma irq_at_key:
  assumes "array_queue_ok (io_queue I) items cap" "keyboard_ready (io_spin I) (ik\<lparr>ik_pipe := sk_pipe k\<rparr>) q"
    "length (items q) + length (fst (typed (io_keyboard I) (ik_keyboard ik) [sc])) \<le> cap q"
  shows "\<exists>q'. irq_at I ik n (as_u8 Keyboard) fr sc n k = Some (Inr (k\<lparr>sk_pipe := Some q'\<rparr>)) \<and>
    items q' = items q @ fst (typed (io_keyboard I) (ik_keyboard ik) [sc])"
proof -
  let ?ik = "ik\<lparr>ik_pipe := sk_pipe k, ik_logger := sk_logger k\<rparr>"
  have "keyboard_ready (io_spin I) ?ik q" using assms(2) by (simp add: keyboard_ready_def)
  from key_interrupts_deliver [OF assms(1) this prod.collapse [symmetric], of "[sc]" fr] assms(3)
  obtain ik' q' where "key_interrupts I fr [sc] ?ik = Some (Inr ik')" "keyboard_ready (io_spin I) ik' q'"
    "items q' = items q @ fst (typed (io_keyboard I) (ik_keyboard ik) [sc])" "ik_logger ik' = sk_logger k"
    by (auto simp del: typed.simps)
  then show ?thesis by (auto simp: irq_at_def keyboard_ready_def panic_simps)
qed

text \<open>
  C9: interrupts that log hang a write. System calls run with the interrupt flag of the process,
  because \<open>syscall::init\<close> leaves FMASK alone. When the local APIC's error interrupt or a spurious
  interrupt arrives while a write call holds the logger's lock, before, between or after the
  characters, its handler waits for the lock for ever, and the call never returns. A keyboard
  interrupt at the same points changes nothing about the write: the call returns with the same
  screen, and the typed character is in the pipe.
\<close>

theorem interrupt_during_write:
  assumes "spin_ok (so_spin S)" "spin_ok (io_spin I)" "sk_logger k = Some lg" "\<not> lg_locked lg"
    "um_load (so_mem S) (sk_mapper k) (sk_mem k) buf (unat cnt) = Inr bytes" "from_utf8 bytes = Some s"
    "writer_inv (so_font S) (length bytes) (lg_writer lg)" "n \<le> length s"
    "syscall_init X W sel entry fa r = Inr r'" "\<not> bit (fmask r) 9" "bit (c_rflags c) 9"
    "array_queue_ok (io_queue I) items cap" "keyboard_ready (io_spin I) (ik\<lparr>ik_pipe := sk_pipe k\<rparr>) q"
    "length (items q) + length (fst (typed (io_keyboard I) (ik_keyboard ik) [sc])) \<le> cap q"
  shows "syscall_handler_irq (entry_irqs r' c (irq_at I ik n (as_u8 LapicError) fr sc)) S k 1 1 buf cnt x y z = None \<and>
    syscall_handler_irq (entry_irqs r' c (irq_at I ik n (as_u8 Spurious) fr sc)) S k 1 1 buf cnt x y z = None \<and>
    (\<exists>k' q'. syscall_handler S k 1 1 buf cnt x y z = Some (Inr k') \<and>
      syscall_handler_irq (entry_irqs r' c (irq_at I ik n (as_u8 Keyboard) fr sc)) S k 1 1 buf cnt x y z =
        Some (Inr (k'\<lparr>sk_pipe := Some q'\<rparr>)) \<and>
      items q' = items q @ fst (typed (io_keyboard I) (ik_keyboard ik) [sc]))"
proof -
  have len: "length s \<le> length bytes" by (rule from_utf8_length [OF assms(6)])
  obtain w1 where w1: "write_str (so_font S) (lg_writer lg) (take n s) = Inr w1"
    using screen.wr_ok [OF assms(7), of "take n s"] len assms(8) by auto
  obtain w2 where w2: "write_str (so_font S) (lg_writer lg) s = Inr w2"
    using screen.wr_ok [OF assms(7) len] by blast
  then have w12: "write_str (so_font S) w1 (drop n s) = Inr w2"
    using write_str_append [of "so_font S" "lg_writer lg" "take n s" "drop n s"] w1 by simp
  let ?lg = "lg\<lparr>lg_writer := w1, lg_locked := True\<rparr>"
  let ?k = "k\<lparr>sk_logger := Some ?lg\<rparr>"
  have run: "syscall_handler_irq (entry_irqs r' c (irq_at I ik n v fr sc)) S k 1 1 buf cnt x y z =
      runbind (irq_at I ik n v fr sc n ?k) (\<lambda>k1.
      runbind (draw_irq S no_irq (Suc n) (drop n s) k1) (\<lambda>k2.
        Some (Inr (k2\<lparr>sk_logger := map_option (\<lambda>lg. lg\<lparr>lg_locked := False\<rparr>) (sk_logger k2)\<rparr>))))" for v
    using write_irq_once [OF assms(1,3-6) irq_at_only assms(8) w1 irq_at_keeps]
    by (simp add: syscall_handler_irq_def entry_interruptible [OF assms(9-11)])
  have key: "keyboard_ready (io_spin I) (ik\<lparr>ik_pipe := sk_pipe ?k\<rparr>) q" using assms(13) by simp
  obtain q' where q': "irq_at I ik n (as_u8 Keyboard) fr sc n ?k = Some (Inr (?k\<lparr>sk_pipe := Some q'\<rparr>))"
    "items q' = items q @ fst (typed (io_keyboard I) (ik_keyboard ik) [sc])"
    using irq_at_key [OF assms(12) key assms(14)] by blast
  have draw: "draw_irq S no_irq (Suc n) (drop n s) (?k\<lparr>sk_pipe := Some q'\<rparr>) =
      Some (Inr (k\<lparr>sk_logger := Some (lg\<lparr>lg_writer := w2, lg_locked := True\<rparr>), sk_pipe := Some q'\<rparr>))"
    using draw_no_irq [of "?k\<lparr>sk_pipe := Some q'\<rparr>" ?lg S "Suc n" "drop n s"] w12
    by (cases k; cases lg) simp
  have plain: "syscall_handler S k 1 1 buf cnt x y z =
      Some (Inr (k\<lparr>sk_logger := Some (lg\<lparr>lg_writer := w2, lg_locked := False\<rparr>)\<rparr>))"
    using assms(1,3-6) w2 by (simp add: write_syscall_unfold lift_res_def)
  have order: "k\<lparr>sk_pipe := p, sk_logger := l\<rparr> = k\<lparr>sk_logger := l, sk_pipe := p\<rparr>" for p l
    by (cases k) simp
  show ?thesis
    using irq_at_held [OF assms(2), of ?k ?lg] q' draw plain
    by (auto simp: run order simp del: typed.simps as_u8.simps)
qed

theorem interrupt_during_write_witness:
  "\<exists>r. syscall_init x86_ref star_ref sample_selectors 0xffffffff80010000 () reset_msr = Inr r \<and>
    syscall_handler_irq (entry_irqs r user_call (irq_at int_ref sample_int 4 34 () 8)) sys_ref sample_sys
      1 1 0x7000 9 0 0 0 = None \<and>
    (\<exists>k'. syscall_handler_irq (entry_irqs r user_call (irq_at int_ref sample_int 4 33 () 8)) sys_ref sample_sys
      1 1 0x7000 9 0 0 0 = Some (Inr k') \<and> map_option snd (sk_pipe k') = Some [104, 105, 72])"
proof -
  have load: "um_load (so_mem sys_ref) (sk_mapper sample_sys) (sk_mem sample_sys) 0x7000 (unat (9 :: u64)) =
      Inr (replicate 9 65)"
    by (simp add: sys_ref_def sample_sys_def flat_mem_def map_replicate_const)
  have utf: "from_utf8 (replicate 9 65) = Some (replicate 9 65)" by code_simp
  have spins: "spin_ok (so_spin sys_ref)" "spin_ok (io_spin int_ref)"
    by (simp_all add: sample_sys_logger spin_ref_ok int_ref_spin)
  have ready: "keyboard_ready (io_spin int_ref) (sample_int\<lparr>ik_pipe := sk_pipe sample_sys\<rparr>) (128, [104, 105])"
    using sample_int_ready by (simp add: keyboard_ready_def sample_sys_def)
  have t: "fst (typed (io_keyboard int_ref) (ik_keyboard sample_int) [8]) = [72]"
    by (simp add: int_ref_def keyboard_ref_def key_of_def as_ascii_def)
  obtain r where r: "syscall_init x86_ref star_ref sample_selectors 0xffffffff80010000 () reset_msr = Inr r"
    using syscall_init_ok [OF star_ref_ok x86_ref_ok, of "0xffffffff80010000" reset_msr sample_selectors "()"]
    by (auto simp: canonical_def reset_msr_def sample_selectors_def)
  have f: "\<not> bit (fmask reset_msr) 9" "bit (c_rflags user_call) 9"
    by (simp_all add: reset_msr_def user_call_def)
  obtain k' q' where "syscall_handler_irq (entry_irqs r user_call (irq_at int_ref sample_int 4 34 () 8)) sys_ref
      sample_sys 1 1 0x7000 9 0 0 0 = None"
    "syscall_handler_irq (entry_irqs r user_call (irq_at int_ref sample_int 4 33 () 8)) sys_ref sample_sys
      1 1 0x7000 9 0 0 0 = Some (Inr (k'\<lparr>sk_pipe := Some q'\<rparr>))" "snd q' = [104, 105, 72]"
    using interrupt_during_write [OF spins sample_sys_logger(1,2) load utf _ _ r f int_ref_queue ready, where n = 4
        and sc = 8 and fr = "()" and x = 0 and y = 0 and z = 0, unfolded t]
      sample_inv by (auto simp: sample_sys_logger)
  then show ?thesis using r by (cases q') auto
qed

section \<open>Segments and the frames of new processes\<close>

text \<open>
  C31: the segment setup is consistent. Building the descriptor table succeeds; \<open>gdt::init\<close> loads its
  selectors into every segment register; \<open>syscall::init\<close> succeeds with them: the register STAR
  accepts them, the system call entry is enabled, and the frame allocator is installed; and the
  first frames that the scheduler writes hold them where the CPU pops them: a kernel thread starts
  with the code and data selectors of the kernel, a user process with those of the user.
\<close>

theorem segments_consistent:
  fixes regs :: segment_registers
  assumes "gdt_ok G used" "star_ok W" "x86_addr_ok X" "canonical entry"
    "frame_allocator_cell r = None" "canonical start" "canonical (b + 0x4000)"
  shows "\<exists>g sel. gdt_build G = Inr (g, sel) \<and>
    code_selector sel = segment_selector 1 0 \<and> data_selector sel = segment_selector 2 0 \<and>
    user_code_selector sel = segment_selector 6 3 \<and> user_data_selector sel = segment_selector 5 3 \<and>
    gdt_init sel regs = \<lparr>sr_cs = 8, sr_es = 0x10, sr_ss = 0x10, sr_ds = 0x10, sr_fs = 0x10,
      sr_gs = 0x10, sr_tr = 0x18\<rparr> \<and>
    syscall_init X W sel entry fa r =
      Inr (r\<lparr>efer := efer r OR 1, lstar := entry,
             star := Some (0x33, 0x2b, 8, 0x10), fs_base := 0x1fc000,
             frame_allocator_cell := Some fa\<rparr>) \<and>
    (\<exists>mem'. thread_frame X b start fl (write_bytes mem b 0 0x4000) = Inr mem' \<and>
      c_cs (context_at (word_at mem') b) = code_selector sel \<and>
      c_ss (context_at (word_at mem') b) = data_selector sel) \<and>
    (\<exists>mem'. user_frame X start fl mem = Inr mem' \<and>
      mem_bytes mem' 0x1fc088 2 = le_bytes 2 (user_code_selector sel) \<and>
      mem_bytes mem' 0x1fc0a0 2 = le_bytes 2 (user_data_selector sel))"
proof -
  obtain g sel where sel: "gdt_build G = Inr (g, sel)"
    "code_selector sel = segment_selector 1 0" "data_selector sel = segment_selector 2 0"
    "user_code_selector sel = segment_selector 6 3" "user_data_selector sel = segment_selector 5 3"
    "gdt_init sel regs = \<lparr>sr_cs = 8, sr_es = 0x10, sr_ss = 0x10, sr_ds = 0x10, sr_fs = 0x10,
      sr_gs = 0x10, sr_tr = 0x18\<rparr>"
    "syscall_init X W sel entry fa r = Inr (r\<lparr>efer := efer r OR 1, lstar := entry,
      star := Some (0x33, 0x2b, 8, 0x10), fs_base := 0x1fc000, frame_allocator_cell := Some fa\<rparr>)"
    using segments_setup [OF assms(1-5)] by blast
  have n: "segment_selector 1 0 = 8" "segment_selector 2 0 = 0x10" "segment_selector 6 3 = 0x33"
    "segment_selector 5 3 = 0x2b"
    by (simp_all add: segment_selector_def)
  have "\<exists>mem'. thread_frame X b start fl (write_bytes mem b 0 0x4000) = Inr mem' \<and>
      c_cs (context_at (word_at mem') b) = code_selector sel \<and>
      c_ss (context_at (word_at mem') b) = data_selector sel"
    unfolding sel(2,3) n
    using thread_frame_ok [OF assms(3,6,7), of fl mem] by (auto simp: thread_context_def)
  moreover have "\<exists>mem'. user_frame X start fl mem = Inr mem' \<and>
      mem_bytes mem' 0x1fc088 2 = le_bytes 2 (user_code_selector sel) \<and>
      mem_bytes mem' 0x1fc0a0 2 = le_bytes 2 (user_data_selector sel)"
    unfolding sel(4,5) n using user_frame_ok [OF assms(3,6), of fl mem] by blast
  ultimately show ?thesis using sel by blast
qed

theorem segments_consistent_witness:
  "\<exists>g sel mem'. gdt_build gdt_ref = Inr (g, sel) \<and>
    syscall_init x86_ref star_ref sel 0xffffffff80010000 () reset_msr =
      Inr (reset_msr\<lparr>efer := 1, lstar := 0xffffffff80010000, star := Some (0x33, 0x2b, 8, 0x10),
           fs_base := 0x1fc000, frame_allocator_cell := Some ()\<rparr>) \<and>
    user_frame x86_ref 0x401000 0x202 (\<lambda>a. 0) = Inr mem' \<and>
    mem_bytes mem' 0x1fc088 2 = le_bytes 2 (user_code_selector sel)"
proof -
  have c: "canonical 0xffffffff80010000" "canonical 0x401000" "canonical (0xffffffff7fe00000 + 0x4000)"
    by (simp_all add: canonical_def)
  have m: "frame_allocator_cell reset_msr = None" "efer reset_msr = 0" by (simp_all add: reset_msr_def)
  obtain g sel mem' where "gdt_build gdt_ref = Inr (g, sel)"
    "syscall_init x86_ref star_ref sel 0xffffffff80010000 () reset_msr =
      Inr (reset_msr\<lparr>efer := efer reset_msr OR 1, lstar := 0xffffffff80010000,
           star := Some (0x33, 0x2b, 8, 0x10), fs_base := 0x1fc000, frame_allocator_cell := Some ()\<rparr>)"
    "user_frame x86_ref 0x401000 0x202 (\<lambda>a. 0) = Inr mem'"
    "mem_bytes mem' 0x1fc088 2 = le_bytes 2 (user_code_selector sel)"
    using segments_consistent [OF gdt_ref_ok star_ref_ok x86_ref_ok c(1) m(1) c(2,3), where fa = "()"
        and fl = "0x202" and mem = "\<lambda>a. 0" and regs = "\<lparr>sr_cs = 0, sr_es = 0, sr_ss = 0, sr_ds = 0,
          sr_fs = 0, sr_gs = 0, sr_tr = 0\<rparr>"] by blast
  then show ?thesis unfolding m by auto
qed

end
